(* ===== verification/Aesd_Prelude.thy ===== *)
theory Aesd_Prelude
  imports Main "HOL-Library.Word"
begin

text \<open>
  The vocabulary every theory of the development shares: the machine integer types of the C
  code, results that may be a fault, the list operations that describe ring buffers and byte
  copies, and the interface of a transition system with an invariant.

  The C integers are words: \<open>uint8_t\<close> is \<open>u8\<close>, \<open>uint\<close> and \<open>uint32_t\<close> are \<open>u32\<close>, and
  \<open>size_t\<close>, \<open>ssize_t\<close> and \<open>loff_t\<close> (LP64) are \<open>u64\<close>, read with \<open>unat\<close> where the code
  compares unsigned and with \<open>sint\<close> where it compares signed.
\<close>

section \<open>Machine integers\<close>

type_synonym u8 = "8 word"
type_synonym u32 = "32 word"
type_synonym u64 = "64 word"

named_theorems wsimps \<open>facts that move word arithmetic to natural numbers\<close>

lemma unat_of_nat_u64 [wsimps]: "n < 2 ^ 64 \<Longrightarrow> unat (of_nat n :: u64) = n"
  by (simp add: unat_of_nat take_bit_nat_eq_self)

lemma unat_of_nat_u32 [wsimps]: "n < 2 ^ 32 \<Longrightarrow> unat (of_nat n :: u32) = n"
  by (simp add: unat_of_nat take_bit_nat_eq_self)

lemma unat_lt_u64 [simp]: "unat (x :: u64) < 2 ^ 64"
  using unsigned_less [of x, where ?'a = nat] by simp

lemma unat_plus_u64 [wsimps]:
  "unat a + unat b < 2 ^ 64 \<Longrightarrow> unat (a + b :: u64) = unat a + unat b"
  by (simp add: unat_word_ariths)

lemma unat_minus_u64 [wsimps]:
  "unat b \<le> unat a \<Longrightarrow> unat (a - b :: u64) = unat a - unat b"
  by (simp add: unat_sub word_le_nat_alt)

lemma unat_ucast_u32 [wsimps]:
  "unat (x :: u64) < 2 ^ 32 \<Longrightarrow> unat (ucast x :: u32) = unat x"
  by (simp add: unsigned_ucast_eq take_bit_nat_eq_self)

lemma sint_u64_small [wsimps]:
  assumes "unat (x :: u64) < 2 ^ 63"
  shows "sint x = int (unat x)"
proof -
  have "int (unat x) < int (2 ^ 63)" using assms by (simp only: of_nat_less_iff)
  then have "uint x < 2 ^ 63" by simp
  then have "signed_take_bit 63 (uint x) = uint x"
    by (intro signed_take_bit_int_eq_self) (auto intro: order_trans [of _ 0])
  then show ?thesis
    by (simp add: sint_uint)
qed

section \<open>Results that may be a fault\<close>

text \<open>
  What the C abstract machine does not define is a value of the model: dereferencing NULL,
  touching a block that is not allocated, leaving the bounds of a block or array, freeing what
  is not allocated, using a variable that was not set, converting a number out of range. \<open>Diverges\<close> is the value of a loop that
  never ends.
\<close>

datatype fault = NullDeref | Dangling | OutOfBounds | BadFree | Uninitialised | Diverges | Overflow

type_synonym 'a res = "fault + 'a"

fun bnd :: "'a res \<Rightarrow> ('a \<Rightarrow> 'b res) \<Rightarrow> 'b res" where
  "bnd (Inl e) f = Inl e"
| "bnd (Inr x) f = f x"

lemma bnd_Inr_iff: "bnd r f = Inr y \<longleftrightarrow> (\<exists>x. r = Inr x \<and> f x = Inr y)"
  by (cases r) auto

lemma bnd_Inl_iff: "bnd r f = Inl e \<longleftrightarrow> r = Inl e \<or> (\<exists>x. r = Inr x \<and> f x = Inl e)"
  by (cases r) auto

lemma bnd_assoc: "bnd (bnd r f) g = bnd r (\<lambda>x. bnd (f x) g)"
  by (cases r) auto

lemma bndE [elim!]:
  assumes "bnd r f = Inr y"
  obtains x where "r = Inr x" and "f x = Inr y"
  using assms by (cases r) auto

section \<open>Lists as rings and byte copies\<close>

named_theorems ring_simps \<open>facts on the last entries of a list\<close>

text \<open>The last \<open>n\<close> elements of a list: what a ring of capacity \<open>n\<close> keeps of a log.\<close>

definition lastn :: "nat \<Rightarrow> 'a list \<Rightarrow> 'a list" where
  "lastn n xs = drop (length xs - n) xs"

lemma lastn_short [ring_simps]: "length xs \<le> n \<Longrightarrow> lastn n xs = xs"
  by (simp add: lastn_def)

lemma length_lastn [ring_simps]: "length (lastn n xs) = min n (length xs)"
  by (simp add: lastn_def)

lemma lastn_snoc_full [ring_simps]:
  "length xs = n \<Longrightarrow> 0 < n \<Longrightarrow> lastn n (xs @ [x]) = tl xs @ [x]"
  by (simp add: lastn_def drop_Suc [symmetric] tl_drop drop_Suc)

lemma lastn_lastn_append [ring_simps]: "lastn n (lastn n xs @ ys) = lastn n (xs @ ys)"
proof (cases "length xs \<le> n")
  case False
  then have "length xs + length ys - n = length ys + (length xs - n)" by simp
  with False show ?thesis by (simp add: lastn_def add.commute)
qed (simp add: lastn_def)

lemma set_lastn_subset: "set (lastn n xs) \<subseteq> set xs"
  by (simp add: lastn_def set_drop_subset)

lemma map_lastn: "map f (lastn n xs) = lastn n (map f xs)"
  by (simp add: lastn_def drop_map)

text \<open>Storing the bytes \<open>bs\<close> into the block \<open>ds\<close> from index \<open>j\<close> on.\<close>

definition blit :: "'a list \<Rightarrow> nat \<Rightarrow> 'a list \<Rightarrow> 'a list" where
  "blit ds j bs = take j ds @ bs @ drop (j + length bs) ds"

lemma blit_Nil [simp]: "blit ds j [] = ds"
  by (simp add: blit_def)

lemma length_blit [simp]: "j + length bs \<le> length ds \<Longrightarrow> length (blit ds j bs) = length ds"
  by (simp add: blit_def)

lemma blit_Cons:
  assumes "j + length (b # bs) \<le> length ds"
  shows "blit ds j (b # bs) = blit (ds[j := b]) (Suc j) bs"
proof -
  have "take (Suc j) (ds[j := b]) = take j ds @ [b]"
    using assms by (simp add: take_Suc_conv_app_nth)
  moreover have "drop (Suc j + length bs) (ds[j := b]) = drop (Suc j + length bs) ds"
    by simp
  ultimately show ?thesis
    by (simp add: blit_def)
qed

lemma take_blit: "j + length bs \<le> length ds \<Longrightarrow> take (j + length bs) (blit ds j bs) = take j ds @ bs"
  by (simp add: blit_def)

lemma blit_blit:
  "j + length as + length bs \<le> length ds \<Longrightarrow>
    blit (blit ds j as) (j + length as) bs = blit ds j (as @ bs)"
  by (simp add: blit_def ac_simps)

lemma blit_all: "length bs = length ds \<Longrightarrow> blit ds 0 bs = bs"
  by (simp add: blit_def)

section \<open>Transition systems with an invariant\<close>

text \<open>
  The interface of a component that moves by steps: every start state satisfies the invariant
  and every step keeps it. The client's lemma is that every reachable state satisfies it.
\<close>

locale invariant_system =
  fixes start :: "'s \<Rightarrow> bool"
    and step :: "'s \<Rightarrow> 's \<Rightarrow> bool"
    and inv :: "'s \<Rightarrow> bool"
  assumes inv_start: "start s \<Longrightarrow> inv s"
    and inv_step: "inv s \<Longrightarrow> step s t \<Longrightarrow> inv t"
begin

lemma inv_steps: "step\<^sup>*\<^sup>* s t \<Longrightarrow> inv s \<Longrightarrow> inv t"
  by (induction rule: rtranclp_induct) (auto intro: inv_step)

lemma inv_reachable: "start s \<Longrightarrow> step\<^sup>*\<^sup>* s t \<Longrightarrow> inv t"
  using inv_steps inv_start by blast

end

text \<open>
  Such a system refines an abstract one when every step is seen by the abstraction as an
  abstract step or as none.
\<close>

locale simulation = invariant_system start step inv
  for start :: "'s \<Rightarrow> bool" and step :: "'s \<Rightarrow> 's \<Rightarrow> bool" and inv :: "'s \<Rightarrow> bool" +
  fixes abs :: "'s \<Rightarrow> 'a"
    and init :: 'a
    and astep :: "'a \<Rightarrow> 'a \<Rightarrow> bool"
  assumes abs_start: "start s \<Longrightarrow> abs s = init"
    and abs_step: "inv s \<Longrightarrow> step s t \<Longrightarrow> abs t = abs s \<or> astep (abs s) (abs t)"
begin

lemma abs_steps: "step\<^sup>*\<^sup>* s t \<Longrightarrow> inv s \<Longrightarrow> astep\<^sup>*\<^sup>* (abs s) (abs t)"
proof (induction rule: rtranclp_induct)
  case (step t u)
  then have "inv t" using inv_steps by blast
  with abs_step step show ?case by (metis rtranclp.rtrancl_into_rtrancl)
qed simp

lemma abs_reachable: "start s \<Longrightarrow> step\<^sup>*\<^sup>* s t \<Longrightarrow> astep\<^sup>*\<^sup>* init (abs t)"
  using abs_steps inv_start abs_start by metis

end

end
