(* ===== verification/Kernel_Memory.thy ===== *)
theory Kernel_Memory
  imports Aesd_Prelude
begin

text \<open>
  The kernel heap the driver works on: blocks of bytes by address, with checked loads and
  stores. The allocator itself is kernel code and a parameter (\<open>allocator\<close>): for a heap and a
  size it names the block it hands out and the (uninitialised) bytes that block holds, or None
  for a NULL result. \<open>good_alloc\<close> states its documented contract.
\<close>

section \<open>Blocks and pointers\<close>

datatype ptr = Null | Ref nat

type_synonym kmem = "nat \<Rightarrow> u8 list option"

definition block :: "kmem \<Rightarrow> ptr \<Rightarrow> u8 list res" where
  "block m p = (case p of Null \<Rightarrow> Inl NullDeref
     | Ref a \<Rightarrow> (case m a of None \<Rightarrow> Inl Dangling | Some bs \<Rightarrow> Inr bs))"

text \<open>\<open>p[i]\<close> and \<open>p[i] = b\<close>.\<close>

definition load :: "kmem \<Rightarrow> ptr \<Rightarrow> nat \<Rightarrow> u8 res" where
  "load m p i = bnd (block m p) (\<lambda>bs. if i < length bs then Inr (bs ! i) else Inl OutOfBounds)"

definition store :: "kmem \<Rightarrow> ptr \<Rightarrow> nat \<Rightarrow> u8 \<Rightarrow> kmem res" where
  "store m p i b = bnd (block m p) (\<lambda>bs.
     if i < length bs
     then (case p of Null \<Rightarrow> Inl NullDeref | Ref a \<Rightarrow> Inr (m(a \<mapsto> bs[i := b])))
     else Inl OutOfBounds)"

text \<open>A load at a signed index: a negative one is outside every block.\<close>

definition load_signed :: "kmem \<Rightarrow> ptr \<Rightarrow> int \<Rightarrow> u8 res" where
  "load_signed m p i = (if i < 0 then bnd (block m p) (\<lambda>_. Inl OutOfBounds) else load m p (nat i))"

text \<open>\<open>kfree(NULL)\<close> does nothing; freeing a block that is not allocated is a fault.\<close>

definition kfree :: "kmem \<Rightarrow> ptr \<Rightarrow> kmem res" where
  "kfree m p = (case p of Null \<Rightarrow> Inr m
     | Ref a \<Rightarrow> (case m a of None \<Rightarrow> Inl BadFree | Some _ \<Rightarrow> Inr (m(a := None))))"

section \<open>The allocator as a parameter\<close>

type_synonym allocator = "kmem \<Rightarrow> u64 \<Rightarrow> (nat \<times> u8 list) option"

definition kmalloc :: "allocator \<Rightarrow> kmem \<Rightarrow> u64 \<Rightarrow> kmem \<times> ptr" where
  "kmalloc al m n = (case al m n of None \<Rightarrow> (m, Null) | Some (a, bs) \<Rightarrow> (m(a \<mapsto> bs), Ref a))"

text \<open>
  The contract of \<open>kmalloc\<close>: a block handed out is not in use, has the size asked for, and is
  smaller than 2 GiB (\<open>KMALLOC_MAX_SIZE\<close> is a few MiB on every architecture).
\<close>

definition good_alloc :: "allocator \<Rightarrow> bool" where
  "good_alloc al \<longleftrightarrow> (\<forall>m n a bs. al m n = Some (a, bs) \<longrightarrow>
     m a = None \<and> length bs = unat n \<and> unat n < 2 ^ 31)"

lemma good_allocD:
  assumes "good_alloc al" and "al m n = Some (a, bs)"
  shows "m a = None" and "length bs = unat n" and "unat n < 2 ^ 31"
  using assms by (auto simp: good_alloc_def)

text \<open>
  A concrete allocator: the lowest free address of an arena, with zeroed bytes. It hands out
  the block freed last when that is the lowest hole, as a kernel free list often does.
\<close>

definition arena :: "nat \<Rightarrow> allocator" where
  "arena k m n = (if unat n < 2 ^ 31
     then map_option (\<lambda>a. (a, replicate (unat n) 0)) (List.find (\<lambda>a. m a = None) [0..<k])
     else None)"

lemma good_alloc_arena: "good_alloc (arena k)"
  by (auto simp: good_alloc_def arena_def find_Some_iff split: if_splits)

text \<open>
  An allocator that never runs out while the heap is finite, and a concrete one: always the
  address after the highest in use, so that a freed block is not handed out again at once.
\<close>

definition total_alloc :: "allocator \<Rightarrow> bool" where
  "total_alloc al \<longleftrightarrow> (\<forall>m n. finite (dom m) \<and> unat n < 2 ^ 31 \<longrightarrow> (\<exists>r. al m n = Some r))"

definition bump :: allocator where
  "bump m n = (if finite (dom m) \<and> unat n < 2 ^ 31
     then Some (Suc (Max (insert 0 (dom m))), replicate (unat n) 0) else None)"

lemma good_alloc_bump: "good_alloc bump"
proof -
  have "m (Suc (Max (insert 0 (dom m)))) = None" if "finite (dom m)" for m :: kmem
  proof (rule ccontr)
    assume "m (Suc (Max (insert 0 (dom m)))) \<noteq> None"
    then have "Suc (Max (insert 0 (dom m))) \<in> dom m" by auto
    then have "Suc (Max (insert 0 (dom m))) \<le> Max (insert 0 (dom m))"
      using that by (intro Max_ge) auto
    then show False by simp
  qed
  then show ?thesis by (auto simp: good_alloc_def bump_def split: if_splits)
qed

lemma total_alloc_bump: "total_alloc bump"
  by (simp add: total_alloc_def bump_def)

lemma total_allocE:
  assumes "total_alloc al" and "good_alloc al" and "finite (dom m)" and "unat n < 2 ^ 31"
  obtains a bs where "al m n = Some (a, bs)" and "m a = None" and "length bs = unat n"
  using assms good_allocD unfolding total_alloc_def by (metis surj_pair)

section \<open>Loads, stores and copies on live blocks\<close>

lemma block_live [simp]: "m a = Some bs \<Longrightarrow> block m (Ref a) = Inr bs"
  by (simp add: block_def)

lemma block_Null [simp]: "block m Null = Inl NullDeref"
  by (simp add: block_def)

lemma block_dead [simp]: "m a = None \<Longrightarrow> block m (Ref a) = Inl Dangling"
  by (simp add: block_def)

lemma load_live [simp]:
  "m a = Some bs \<Longrightarrow> n < length bs \<Longrightarrow> load m (Ref a) n = Inr (bs ! n)"
  by (simp add: load_def)

lemma load_beyond [simp]:
  "m a = Some bs \<Longrightarrow> length bs \<le> n \<Longrightarrow> load m (Ref a) n = Inl OutOfBounds"
  by (simp add: load_def)

lemma load_Null [simp]: "load m Null i = Inl NullDeref"
  by (simp add: load_def)

lemma load_dead [simp]: "m a = None \<Longrightarrow> load m (Ref a) i = Inl Dangling"
  by (simp add: load_def)

lemma store_live [simp]:
  "m a = Some bs \<Longrightarrow> n < length bs \<Longrightarrow> store m (Ref a) n b = Inr (m(a \<mapsto> bs[n := b]))"
  by (simp add: store_def)

lemma store_beyond [simp]:
  "m a = Some bs \<Longrightarrow> length bs \<le> n \<Longrightarrow> store m (Ref a) n b = Inl OutOfBounds"
  by (simp add: store_def)

lemma store_Null [simp]: "store m Null i b = Inl NullDeref"
  by (simp add: store_def)

lemma store_dead [simp]: "m a = None \<Longrightarrow> store m (Ref a) i b = Inl Dangling"
  by (simp add: store_def)

lemma kfree_live [simp]: "m a = Some bs \<Longrightarrow> kfree m (Ref a) = Inr (m(a := None))"
  by (simp add: kfree_def)

lemma kfree_Null [simp]: "kfree m Null = Inr m"
  by (simp add: kfree_def)

lemma kmalloc_Some [simp]: "al m n = Some (a, bs) \<Longrightarrow> kmalloc al m n = (m(a \<mapsto> bs), Ref a)"
  by (simp add: kmalloc_def)

lemma kmalloc_None [simp]: "al m n = None \<Longrightarrow> kmalloc al m n = (m, Null)"
  by (simp add: kmalloc_def)

section \<open>What an operation leaves alone\<close>

text \<open>\<open>m \<subseteq>\<^sub>m m'\<close>: every block of \<open>m\<close> is in \<open>m'\<close> as it was.\<close>

lemma map_le_fresh: "m a = None \<Longrightarrow> m \<subseteq>\<^sub>m m(a := x)"
  by (auto simp: map_le_def)

lemma map_le_None: "m \<subseteq>\<^sub>m m' \<Longrightarrow> m' a = None \<Longrightarrow> m a = None"
  unfolding map_le_def by (metis domIff)

lemma map_le_fresh_trans: "m \<subseteq>\<^sub>m m' \<Longrightarrow> m a = None \<Longrightarrow> m \<subseteq>\<^sub>m m'(a := x)"
  by (auto simp: map_le_def)

lemma kmalloc_fresh:
  assumes "good_alloc al" and "kmalloc al m n = (m', p)"
  shows "m \<subseteq>\<^sub>m m'" and "p = Ref a \<Longrightarrow> m a = None" and "finite (dom m) \<Longrightarrow> finite (dom m')"
    and "p = Ref a \<Longrightarrow> m' a \<noteq> None"
  using assms good_allocD(1) [OF assms(1)]
  by (auto simp: kmalloc_def intro: map_le_fresh split: option.splits prod.splits)

lemma store_Inr: "store m p i b = Inr m' \<Longrightarrow> \<exists>a bs. p = Ref a \<and> m a = Some bs \<and> m' = m(a \<mapsto> bs[i := b])"
  by (auto simp: store_def block_def split: ptr.splits option.splits if_splits)

lemma kfree_Inr: "kfree m p = Inr m' \<Longrightarrow> p = Null \<and> m' = m \<or> (\<exists>a bs. p = Ref a \<and> m a = Some bs \<and> m' = m(a := None))"
  by (auto simp: kfree_def split: ptr.splits option.splits)

end
