(* ===== verification/Circular_Buffer.thy ===== *)
theory Circular_Buffer
  imports Kernel_Memory
begin

text \<open>
  The ring of the last ten write operations: \<open>aesd-char-driver/aesd-circular-buffer.h\<close> (the
  entry and buffer structures) and \<open>aesd_circular_buffer_init\<close> and
  \<open>aesd_circular_buffer_add_entry\<close> of \<open>aesd-circular-buffer.c\<close>. The abstraction \<open>entries\<close> is
  the log of the entries still held, oldest first; the locale \<open>bounded_log\<close> is the contract of
  such a log, which \<open>aesd_circular_buffer_add_entry\<close> is shown to satisfy with capacity ten.
\<close>

section \<open>The structures\<close>

text \<open>\<open>esize\<close> is the field \<open>size\<close>, whose name HOL uses.\<close>

record aesd_buffer_entry =
  buffptr :: ptr
  esize :: u64

record aesd_circular_buffer =
  entry :: "aesd_buffer_entry list"
  in_offs :: u8
  out_offs :: u8
  full :: bool
  total_size :: u64

definition AESDCHAR_MAX_WRITE_OPERATIONS_SUPPORTED :: nat where
  "AESDCHAR_MAX_WRITE_OPERATIONS_SUPPORTED = 10"

abbreviation MAXW :: nat where
  "MAXW \<equiv> AESDCHAR_MAX_WRITE_OPERATIONS_SUPPORTED"

lemma MAXW_eq: "MAXW = 10"
  by (simp add: AESDCHAR_MAX_WRITE_OPERATIONS_SUPPORTED_def)

section \<open>The operations\<close>

text \<open>\<open>buffer->entry[i]\<close>: an index outside the array is a fault.\<close>

definition entry_at :: "aesd_circular_buffer \<Rightarrow> nat \<Rightarrow> aesd_buffer_entry res" where
  "entry_at b i = (if i < length (entry b) then Inr (entry b ! i) else Inl OutOfBounds)"

text \<open>
  \<open>AESD_CIRCULAR_BUFFER_FOREACH\<close>, for the \<open>n\<close> slots from \<open>index\<close> on: the body gets the entry and
  its index, and passes the state on.
\<close>

fun foreach_slot ::
  "(aesd_buffer_entry \<Rightarrow> nat \<Rightarrow> 's \<Rightarrow> 's res) \<Rightarrow> aesd_circular_buffer \<Rightarrow> nat \<Rightarrow> nat \<Rightarrow> 's \<Rightarrow> 's res" where
  "foreach_slot body b 0 index s = Inr s"
| "foreach_slot body b (Suc n) index s =
     bnd (entry_at b index) (\<lambda>e. bnd (body e index s) (\<lambda>s. foreach_slot body b n (Suc index) s))"

definition AESD_CIRCULAR_BUFFER_FOREACH ::
  "(aesd_buffer_entry \<Rightarrow> nat \<Rightarrow> 's \<Rightarrow> 's res) \<Rightarrow> aesd_circular_buffer \<Rightarrow> 's \<Rightarrow> 's res" where
  "AESD_CIRCULAR_BUFFER_FOREACH body b s = foreach_slot body b MAXW 0 s"

text \<open>It is a fold over all ten entries with their indices.\<close>

lemma foreach_slot_fold:
  "length (entry b) = index + n \<Longrightarrow> foreach_slot body b n index s =
    fold (\<lambda>i r. bnd r (body (entry b ! i) i)) [index..<index + n] (Inr s)"
proof (induction n arbitrary: index s)
  case (Suc n)
  have err: "fold (\<lambda>i r. bnd r (body (entry b ! i) i)) is (Inl f) = Inl f" for "is" f
    by (induction "is") simp_all
  show ?case
    using Suc.IH [of "Suc index"] Suc.prems
    by (cases "body (entry b ! index) index s") (simp_all add: entry_at_def upt_conv_Cons err del: upt_Suc)
qed simp

text \<open>The step both offsets take: back to 0 at the end of the array.\<close>

definition next_offs :: "u8 \<Rightarrow> u8" where
  "next_offs i = (if unat i + 1 = MAXW then 0 else i + 1)"

definition aesd_circular_buffer_add_entry ::
  "aesd_circular_buffer \<Rightarrow> aesd_buffer_entry \<Rightarrow> aesd_circular_buffer res" where
  "aesd_circular_buffer_add_entry b add_entry =
     bnd (entry_at b (unat (in_offs b))) (\<lambda>old.
       if full b then
         Inr (b\<lparr>total_size := total_size b - esize old + esize add_entry,
                entry := (entry b)[unat (in_offs b) := add_entry],
                in_offs := next_offs (in_offs b),
                out_offs := next_offs (out_offs b)\<rparr>)
       else
         Inr (b\<lparr>total_size := total_size b + esize add_entry,
                entry := (entry b)[unat (in_offs b) := add_entry],
                in_offs := next_offs (in_offs b),
                full := (unat (in_offs b) + 1 = MAXW)\<rparr>))"

text \<open>\<open>memset\<close> to zero: NULL pointers, zero sizes, offsets and flag.\<close>

definition aesd_circular_buffer_init :: "aesd_circular_buffer" where
  "aesd_circular_buffer_init =
     \<lparr>entry = replicate MAXW \<lparr>buffptr = Null, esize = 0\<rparr>, in_offs = 0, out_offs = 0,
      full = False, total_size = 0\<rparr>"

section \<open>The log the ring holds, and its invariant\<close>

definition ring :: "'a list \<Rightarrow> nat \<Rightarrow> 'a list" where
  "ring xs i = drop i xs @ take i xs"

definition entries :: "aesd_circular_buffer \<Rightarrow> aesd_buffer_entry list" where
  "entries b = (if full b then ring (entry b) (unat (out_offs b))
                else take (unat (in_offs b)) (entry b))"

definition cb_inv :: "aesd_circular_buffer \<Rightarrow> bool" where
  "cb_inv b \<longleftrightarrow> length (entry b) = MAXW \<and> unat (in_offs b) < MAXW \<and> unat (out_offs b) < MAXW \<and>
     (if full b then in_offs b = out_offs b else out_offs b = 0) \<and>
     total_size b = sum_list (map esize (entries b))"

lemma length_ring [simp]: "length (ring xs i) = length xs"
  by (simp add: ring_def)

lemma set_ring [simp]: "set (ring xs i) = set xs"
  by (metis append_take_drop_id inf_sup_aci(5) ring_def set_append)

lemma ring_0 [simp]: "ring xs 0 = xs"
  by (simp add: ring_def)

lemma sum_list_ring [simp]:
  "sum_list (map f (ring xs i)) = (sum_list (map f xs) :: 'b :: comm_monoid_add)"
proof -
  have "sum_list (map f xs) = sum_list (map f (take i xs @ drop i xs))" by simp
  then show ?thesis
    unfolding ring_def map_append sum_list_append by (metis add.commute)
qed

lemma length_entries: "cb_inv b \<Longrightarrow> length (entries b) = (if full b then MAXW else unat (in_offs b))"
  by (simp add: cb_inv_def entries_def)

lemma length_entries_le: "cb_inv b \<Longrightarrow> length (entries b) \<le> MAXW"
  by (simp add: length_entries cb_inv_def)

lemma full_iff_length: "cb_inv b \<Longrightarrow> full b \<longleftrightarrow> length (entries b) = MAXW"
  by (auto simp: length_entries cb_inv_def)

lemma set_entries_subset: "set (entries b) \<subseteq> set (entry b)"
  by (auto simp: entries_def dest: in_set_takeD)

lemma unat_next_offs:
  "unat i < MAXW \<Longrightarrow> unat (next_offs i) = (if unat i + 1 = MAXW then 0 else unat i + 1)"
  by (simp add: next_offs_def MAXW_eq unat_word_ariths)

lemma next_offs_less: "unat i < MAXW \<Longrightarrow> unat (next_offs i) < MAXW"
  by (auto simp: unat_next_offs MAXW_eq)

text \<open>Overwriting the slot the ring starts at and moving on drops the head and appends.\<close>

lemma ring_Cons: "i < length xs \<Longrightarrow> ring xs i = xs ! i # drop (Suc i) xs @ take i xs"
  by (simp add: ring_def Cons_nth_drop_Suc [symmetric])

lemma ring_update_next:
  assumes "i < length xs"
  shows "ring (xs[i := x]) (if i + 1 = length xs then 0 else i + 1) = tl (ring xs i) @ [x]"
proof (cases "i + 1 = length xs")
  case True
  with assms show ?thesis
    by (simp add: ring_Cons upd_conv_take_nth_drop)
next
  case False
  with assms show ?thesis
    by (simp add: ring_def take_Suc_conv_app_nth) (metis drop_Suc tl_drop)
qed

lemma take_update_snoc:
  "i < length xs \<Longrightarrow> take (Suc i) (xs[i := x]) = take i xs @ [x]"
  by (simp add: take_Suc_conv_app_nth)

section \<open>Adding an entry refines appending to the log\<close>

named_theorems cb_simps \<open>projections of the invariant and of the operations\<close>

lemma cb_invD [cb_simps]:
  assumes "cb_inv b"
  shows "length (entry b) = MAXW" and "unat (in_offs b) < MAXW" and "unat (out_offs b) < MAXW"
    and "full b \<Longrightarrow> in_offs b = out_offs b" and "\<not> full b \<Longrightarrow> out_offs b = 0"
    and "total_size b = sum_list (map esize (entries b))"
  using assms by (auto simp: cb_inv_def split: if_splits)

lemma cb_inv_init: "cb_inv aesd_circular_buffer_init"
  by (simp add: cb_inv_def aesd_circular_buffer_init_def entries_def MAXW_eq)

lemma entries_init: "entries aesd_circular_buffer_init = []"
  by (simp add: aesd_circular_buffer_init_def entries_def)

lemma entries_full: "cb_inv b \<Longrightarrow> full b \<Longrightarrow> entries b = ring (entry b) (unat (in_offs b))"
  by (simp add: entries_def cb_invD(4))

text \<open>On a buffer that is not full the entry goes to the next slot and nothing is lost.\<close>

lemma add_entry_room:
  assumes inv: "cb_inv b" and room: "\<not> full b"
  obtains b' where "aesd_circular_buffer_add_entry b e = Inr b'"
    and "cb_inv b'" and "entries b' = entries b @ [e]"
    and "entry b' = (entry b)[unat (in_offs b) := e]"
proof -
  let ?i = "unat (in_offs b)"
  let ?b = "b\<lparr>total_size := total_size b + esize e, entry := (entry b)[?i := e],
                in_offs := next_offs (in_offs b), full := (?i + 1 = MAXW)\<rparr>"
  note D = cb_invD [OF inv]
  have i: "?i < length (entry b)" using D(1,2) by simp
  have old: "entries b = take ?i (entry b)" using room by (simp add: entries_def)
  have new: "entries ?b = entries b @ [e]"
  proof (cases "?i + 1 = MAXW")
    case True
    then have "entries ?b = (entry b)[?i := e]" using D(5) [OF room] by (simp add: entries_def)
    also have "\<dots> = take (?i + 1) ((entry b)[?i := e])" using True D(1) by simp
    also have "\<dots> = entries b @ [e]" using i old by (simp add: take_update_snoc)
    finally show ?thesis .
  next
    case False
    then have "entries ?b = take (?i + 1) ((entry b)[?i := e])"
      using unat_next_offs [OF D(2)] by (simp add: entries_def)
    then show ?thesis using i old by (simp add: take_update_snoc)
  qed
  have "cb_inv ?b"
    using D room new next_offs_less [OF D(2)]
    by (auto simp: cb_inv_def next_offs_def add.commute)
  moreover have "aesd_circular_buffer_add_entry b e = Inr ?b"
    using i room by (simp add: aesd_circular_buffer_add_entry_def entry_at_def)
  ultimately show thesis using new that by simp
qed

text \<open>On a full buffer the entry replaces the oldest one, which leaves the log.\<close>

lemma add_entry_evicts:
  assumes inv: "cb_inv b" and fl: "full b"
  obtains b' where "aesd_circular_buffer_add_entry b e = Inr b'"
    and "cb_inv b'" and "entries b' = tl (entries b) @ [e]"
    and "entry b' = (entry b)[unat (in_offs b) := e]"
    and "hd (entries b) = entry b ! unat (in_offs b)"
proof -
  let ?i = "unat (in_offs b)"
  let ?b = "b\<lparr>total_size := total_size b - esize (entry b ! ?i) + esize e,
                entry := (entry b)[?i := e],
                in_offs := next_offs (in_offs b), out_offs := next_offs (out_offs b)\<rparr>"
  note D = cb_invD [OF inv]
  have i: "?i < length (entry b)" using D(1,2) by simp
  have old: "entries b = ring (entry b) ?i" using entries_full [OF inv fl] .
  have hd: "entries b = entry b ! ?i # tl (entries b)"
    using i old by (simp add: ring_Cons)
  have "entries ?b = ring ((entry b)[?i := e]) (if ?i + 1 = length (entry b) then 0 else ?i + 1)"
    using fl D(1) D(4) [OF fl] unat_next_offs [OF D(2)] by (simp add: entries_def)
  then have new: "entries ?b = tl (entries b) @ [e]"
    using ring_update_next [OF i, of e] old by simp
  have "total_size b = esize (entry b ! ?i) + sum_list (map esize (tl (entries b)))"
    using D(6) hd by (metis list.simps(9) sum_list.Cons)
  then have "total_size ?b = sum_list (map esize (entries ?b))"
    using new by simp
  then have "cb_inv ?b"
    using D fl next_offs_less [OF D(2)] D(4) [OF fl] by (simp add: cb_inv_def)
  moreover have "aesd_circular_buffer_add_entry b e = Inr ?b"
    using i fl by (simp add: aesd_circular_buffer_add_entry_def entry_at_def)
  moreover have "hd (entries b) = entry b ! ?i" using hd by (metis list.sel(1))
  ultimately show thesis using new that by simp
qed

lemma add_entry_log:
  assumes inv: "cb_inv b"
  shows "\<exists>b'. aesd_circular_buffer_add_entry b e = Inr b' \<and> cb_inv b' \<and>
    entries b' = lastn MAXW (entries b @ [e])"
proof (cases "full b")
  case True
  then have "length (entries b) = MAXW" using inv by (simp add: length_entries)
  with True show ?thesis
    using add_entry_evicts [OF inv True, of e]
    by (metis lastn_snoc_full MAXW_eq zero_less_numeral)
next
  case False
  then have "length (entries b @ [e]) \<le> MAXW"
    using cb_invD(2) [OF inv] by (simp add: length_entries [OF inv])
  with False show ?thesis
    using add_entry_room [OF inv False, of e] by (metis lastn_short)
qed

section \<open>The contract of a bounded log\<close>

text \<open>Adding a list of entries one by one, stopping at the first fault.\<close>

fun add_all :: "('q \<Rightarrow> 'a \<Rightarrow> 'q res) \<Rightarrow> 'q \<Rightarrow> 'a list \<Rightarrow> 'q res" where
  "add_all add q [] = Inr q"
| "add_all add q (x # xs) = bnd (add q x) (\<lambda>q'. add_all add q' xs)"

locale bounded_log =
  fixes add :: "'q \<Rightarrow> 'a \<Rightarrow> 'q res"
    and log :: "'q \<Rightarrow> 'b list"
    and item :: "'a \<Rightarrow> 'b"
    and inv :: "'q \<Rightarrow> bool"
    and ok :: "'a \<Rightarrow> bool"
    and cap :: nat
  assumes log_cap: "inv q \<Longrightarrow> length (log q) \<le> cap"
    and add_log: "inv q \<Longrightarrow> ok x \<Longrightarrow>
      \<exists>q'. add q x = Inr q' \<and> inv q' \<and> log q' = lastn cap (log q @ [item x])"
begin

lemma add_all_log:
  "inv q \<Longrightarrow> list_all ok xs \<Longrightarrow>
     \<exists>q'. add_all add q xs = Inr q' \<and> inv q' \<and> log q' = lastn cap (log q @ map item xs)"
proof (induction xs arbitrary: q)
  case Nil
  then show ?case using log_cap by (simp add: lastn_short)
next
  case (Cons x xs)
  obtain q1 where q1: "add q x = Inr q1" "inv q1" "log q1 = lastn cap (log q @ [item x])"
    using add_log [OF Cons.prems(1)] Cons.prems(2) by auto
  obtain q2 where q2: "add_all add q1 xs = Inr q2" "inv q2"
    "log q2 = lastn cap (log q1 @ map item xs)"
    using Cons.IH [OF q1(2)] Cons.prems(2) by auto
  show ?case
    using q1 q2 lastn_lastn_append [of cap "log q @ [item x]" "map item xs"] by simp
qed

end

text \<open>A log with an empty state to start from.\<close>

locale bounded_log_from = bounded_log +
  fixes empty :: 'a
  assumes inv_empty: "inv empty"
    and log_empty: "log empty = []"
begin

lemma add_all_empty:
  assumes "list_all ok xs"
  obtains q where "add_all add empty xs = Inr q" and "inv q" and "log q = lastn cap (map item xs)"
  using add_all_log [OF inv_empty assms] log_empty by auto

end

interpretation cb: bounded_log_from aesd_circular_buffer_add_entry entries "\<lambda>e. e" cb_inv
  "\<lambda>_. True" MAXW aesd_circular_buffer_init
  by unfold_locales (simp_all add: cb_inv_init entries_init add_entry_log length_entries_le)

section \<open>Properties\<close>

text \<open>
  C1. The ring buffer is the log of the last ten writes: from a zeroed buffer, adding any
  sequence of entries never leaves the array, keeps the ring's invariant, and leaves exactly
  the last ten entries of the sequence, oldest first, with \<open>full\<close> set just when ten or more
  were added and \<open>total_size\<close> the sum (modulo 2^64) of the sizes that are held.
\<close>

theorem ring_holds_last_ten:
  "\<exists>b. add_all aesd_circular_buffer_add_entry aesd_circular_buffer_init es = Inr b \<and>
     cb_inv b \<and> entries b = lastn 10 es \<and> (full b \<longleftrightarrow> 10 \<le> length es) \<and>
     total_size b = sum_list (map esize (lastn 10 es))"
proof -
  obtain b where b: "add_all aesd_circular_buffer_add_entry aesd_circular_buffer_init es = Inr b"
    "cb_inv b" "entries b = lastn MAXW es"
    using cb.add_all_empty [of es] by (auto simp: list_all_iff)
  then have "full b \<longleftrightarrow> 10 \<le> length es"
    by (auto simp: full_iff_length length_lastn MAXW_eq)
  with b show ?thesis
    using cb_invD(6) [OF b(2)] by (auto simp: MAXW_eq)
qed

text \<open>
  On a full buffer \<open>aesd_circular_buffer_add_entry\<close> overwrites exactly the slot of the
  oldest entry: that entry leaves the log, every other entry keeps its slot and its place, and
  the total changes by the difference of the two sizes.
\<close>

theorem add_to_full_evicts_oldest:
  assumes "cb_inv b" and "full b"
  shows "\<exists>b'. aesd_circular_buffer_add_entry b e = Inr b' \<and> cb_inv b' \<and> full b' \<and>
    entries b = entry b ! unat (in_offs b) # tl (entries b) \<and>
    entries b' = tl (entries b) @ [e] \<and> entry b' = (entry b)[unat (in_offs b) := e] \<and>
    total_size b' = total_size b - esize (entry b ! unat (in_offs b)) + esize e"
proof -
  obtain b' where b': "aesd_circular_buffer_add_entry b e = Inr b'" "cb_inv b'"
    "entries b' = tl (entries b) @ [e]" "entry b' = (entry b)[unat (in_offs b) := e]"
    "hd (entries b) = entry b ! unat (in_offs b)"
    using add_entry_evicts [OF assms] .
  have ne: "entries b \<noteq> []"
    using length_entries [OF assms(1)] assms(2) by (auto simp: MAXW_eq)
  then have hd: "entries b = entry b ! unat (in_offs b) # tl (entries b)"
    using b'(5) by (metis list.collapse)
  then have "length (entries b') = MAXW"
    using b'(3) length_entries [OF assms(1)] assms(2) by (metis length_append_singleton length_Cons)
  then have "full b'" using b'(2) by (simp add: full_iff_length)
  moreover have "total_size b' = total_size b - esize (entry b ! unat (in_offs b)) + esize e"
    using b'(1) assms(2) by (auto simp: aesd_circular_buffer_add_entry_def entry_at_def split: if_splits)
  ultimately show ?thesis using b' hd by auto
qed

definition demo_full_buffer :: aesd_circular_buffer where
  "demo_full_buffer = \<lparr>entry = map (\<lambda>i. \<lparr>buffptr = Ref i, esize = of_nat i + 1\<rparr>) [0..<10],
     in_offs = 3, out_offs = 3, full = True, total_size = 55\<rparr>"

lemma demo_full_inv: "cb_inv demo_full_buffer"
  by (simp add: cb_inv_def demo_full_buffer_def entries_def ring_def MAXW_eq upt_rec)

theorem add_to_full_evicts_oldest_witness:
  "\<exists>b'. aesd_circular_buffer_add_entry demo_full_buffer \<lparr>buffptr = Ref 42, esize = 7\<rparr> = Inr b' \<and>
     full b' \<and> total_size b' = 58"
proof -
  have fl: "full demo_full_buffer" by (simp add: demo_full_buffer_def)
  show ?thesis
    using add_to_full_evicts_oldest [OF demo_full_inv fl, of "\<lparr>buffptr = Ref 42, esize = 7\<rparr>"]
    by (auto simp: demo_full_buffer_def upt_rec)
qed

end
