(* ===== verification/Buffer_Find.thy ===== *)
theory Buffer_Find
  imports Circular_Buffer
begin

text \<open>
  \<open>aesd_circular_buffer_find_entry_offset_for_fpos\<close> of \<open>aesd-circular-buffer.c\<close>: which slot
  holds the byte at a given offset of the concatenated entries. The search loop may run for
  ever on arbitrary arguments, so it is a \<open>partial_function\<close>; under the guard the function
  makes first it is shown to stop, and its answer is related to \<open>locate\<close>, the position of a
  byte in a list of sizes.
\<close>

section \<open>The search\<close>

text \<open>
  The \<open>while\<close> loop. \<open>index\<close> starts at \<open>out_offs\<close>, wraps to 0 after the last slot and is used
  only to index the array, so a natural number is faithful to the \<open>size_t\<close>.
\<close>

partial_function (option) find_walk ::
  "aesd_buffer_entry list \<Rightarrow> nat \<Rightarrow> u64 \<Rightarrow> (nat \<times> u64) res option" where
  "find_walk es index offset_remaining =
     (if index < length es then
        (if esize (es ! index) \<le> offset_remaining
         then find_walk es (if index + 1 = MAXW then 0 else index + 1)
                (offset_remaining - esize (es ! index))
         else Some (Inr (index, offset_remaining)))
      else Some (Inl OutOfBounds))"

text \<open>
  The result is the slot returned (None for NULL) and the value stored through
  \<open>entry_offset_byte_rtn\<close>. For offset 0 the code assigns to the local pointer instead of
  through it, so nothing is stored: None.
\<close>

definition aesd_circular_buffer_find_entry_offset_for_fpos ::
  "aesd_circular_buffer \<Rightarrow> u64 \<Rightarrow> (nat option \<times> u64 option) res" where
  "aesd_circular_buffer_find_entry_offset_for_fpos b char_offset =
     (let total_chars = foldl (\<lambda>t e. t + esize e) 0 (entry b);
          index = unat (out_offs b)
      in if char_offset = 0 then Inr (Some index, None)
         else if total_chars \<le> char_offset then Inr (None, None)
         else (case find_walk (entry b) index char_offset of
             None \<Rightarrow> Inl Diverges
           | Some r \<Rightarrow> bnd r (\<lambda>(index, offset_remaining).
               Inr (Some index,
                    Some (if offset_remaining = esize (entry b ! index) then 0
                          else offset_remaining)))))"

section \<open>Positions in a list of sizes\<close>

fun locate :: "nat list \<Rightarrow> nat \<Rightarrow> (nat \<times> nat) option" where
  "locate [] p = None"
| "locate (l # ls) p = (if p < l then Some (0, p)
     else map_option (\<lambda>(i, q). (Suc i, q)) (locate ls (p - l)))"

lemma locate_Some_iff: "(\<exists>r. locate ls p = Some r) \<longleftrightarrow> p < sum_list ls"
  by (induction ls p rule: locate.induct) auto

lemma locate_lt: "p < sum_list ls \<Longrightarrow> \<exists>i q. locate ls p = Some (i, q)"
  using locate_Some_iff by fastforce

lemma locate_bounds:
  "locate ls p = Some (i, q) \<Longrightarrow> i < length ls \<and> q < ls ! i \<and> p = sum_list (take i ls) + q"
  by (induction ls p arbitrary: i q rule: locate.induct) (fastforce split: if_splits)+

lemma locate_append: "locate ls p = Some r \<Longrightarrow> locate (ls @ ms) p = Some r"
  by (induction ls p arbitrary: r rule: locate.induct) (auto split: if_splits)

text \<open>The bytes from the position on: the rest of its entry and the entries after it.\<close>

lemma drop_concat_locate:
  "locate (map length css) p = Some (i, q) \<Longrightarrow>
     drop p (concat css) = drop q (css ! i) @ concat (drop (Suc i) css)"
  by (induction "map length css" p arbitrary: css i q rule: locate.induct)
    (auto split: if_splits)

section \<open>The search stops and finds the position\<close>

definition sizes :: "aesd_buffer_entry list \<Rightarrow> nat list" where
  "sizes es = map (\<lambda>e. unat (esize e)) es"

lemma sizes_simps [simp]:
  "sizes [] = []" "sizes (e # es) = unat (esize e) # sizes es"
  "sizes (xs @ ys) = sizes xs @ sizes ys" "length (sizes es) = length es"
  "sizes (take n es) = take n (sizes es)" "sizes (drop n es) = drop n (sizes es)"
  by (simp_all add: sizes_def take_map drop_map)

lemma nth_sizes [simp]: "i < length es \<Longrightarrow> sizes es ! i = unat (esize (es ! i))"
  by (simp add: sizes_def)

lemma sum_sizes_ring: "sum_list (sizes (ring es i)) = sum_list (sizes es)"
  by (simp add: sizes_def)

lemma ring_next:
  assumes "i < length xs"
  shows "ring xs (if i + 1 = length xs then 0 else i + 1) = tl (ring xs i) @ [xs ! i]"
  using ring_update_next [OF assms, of "xs ! i"] by simp

lemma nth_ring:
  "length xs = MAXW \<Longrightarrow> k < MAXW \<Longrightarrow> i < MAXW \<Longrightarrow> ring xs k ! i = xs ! ((k + i) mod MAXW)"
  by (auto simp: ring_def nth_append MAXW_eq mod_if add.commute)

lemma find_walk_locate:
  assumes "length es = MAXW" and "idx < MAXW"
    and "locate (sizes (ring es idx)) (unat rem) = Some (i, q)"
  shows "find_walk es idx rem = Some (Inr ((idx + i) mod MAXW, of_nat q))"
  using assms(2,3)
proof (induction i arbitrary: idx rem)
  case 0
  have r: "ring es idx = es ! idx # tl (ring es idx)"
    using 0(1) assms(1) by (simp add: ring_Cons)
  then have "unat rem < unat (esize (es ! idx))" and "q = unat rem"
    using 0(2) by (metis (no_types, lifting) locate_bounds nth_Cons_0 plus_nat.add_0 sizes_simps(2)
        sum_list.Nil take0)+
  then show ?case
    using 0(1) assms(1) by (simp add: find_walk.simps [of es] word_le_nat_alt)
next
  case (Suc i)
  let ?next = "if idx + 1 = MAXW then 0 else idx + 1"
  let ?l = "esize (es ! idx)"
  have idx: "idx < length es" using Suc.prems(1) assms(1) by simp
  have r: "ring es idx = es ! idx # tl (ring es idx)"
    using idx by (simp add: ring_Cons)
  have "locate (unat ?l # sizes (tl (ring es idx))) (unat rem) = Some (Suc i, q)"
    using Suc.prems(2) r by (metis sizes_simps(2))
  then have le: "unat ?l \<le> unat rem"
    and loc: "locate (sizes (tl (ring es idx))) (unat rem - unat ?l) = Some (i, q)"
    by (auto split: if_splits)
  have nx: "ring es ?next = tl (ring es idx) @ [es ! idx]"
    using ring_next [OF idx] assms(1) by simp
  have "locate (sizes (ring es ?next)) (unat (rem - ?l)) = Some (i, q)"
    using loc le unfolding nx by (simp add: locate_append wsimps)
  moreover have "?next < MAXW" using Suc.prems(1) by (auto simp: MAXW_eq)
  ultimately have "find_walk es ?next (rem - ?l) = Some (Inr ((?next + i) mod MAXW, of_nat q))"
    using Suc.IH by blast
  moreover have "(?next + i) mod MAXW = (idx + Suc i) mod MAXW"
    using Suc.prems(1) by (auto simp: MAXW_eq)
  moreover have "find_walk es idx rem = find_walk es ?next (rem - ?l)"
    using idx le by (simp add: find_walk.simps [of es idx] word_le_nat_alt)
  ultimately show ?case by simp
qed

lemma foldl_esize: "foldl (\<lambda>t e. t + esize e) t0 es = t0 + sum_list (map esize es)"
  by (induction es arbitrary: t0) (simp_all add: add.assoc)

lemma unat_sum_le: "unat (sum_list (map esize es)) \<le> sum_list (sizes es)"
proof (induction es)
  case (Cons e es)
  have "unat (esize e + sum_list (map esize es)) \<le> unat (esize e) + unat (sum_list (map esize es))"
    by (simp add: unat_word_ariths)
  with Cons show ?case by simp
qed simp

lemma unat_sum_eq: "sum_list (sizes es) < 2 ^ 64 \<Longrightarrow> unat (sum_list (map esize es)) = sum_list (sizes es)"
proof (induction es)
  case (Cons e es)
  then have IH: "unat (sum_list (map esize es)) = sum_list (sizes es)"
    by (simp add: sizes_simps)
  have "unat (esize e + sum_list (map esize es)) = unat (esize e) + unat (sum_list (map esize es))"
    using Cons.prems IH by (intro unat_plus_u64) simp
  then show ?case using IH by simp
qed simp

lemma find_zero: "aesd_circular_buffer_find_entry_offset_for_fpos b 0 = Inr (Some (unat (out_offs b)), None)"
  by (simp add: aesd_circular_buffer_find_entry_offset_for_fpos_def)

lemma find_NULL:
  assumes "off \<noteq> 0" and "sum_list (map esize (entry b)) \<le> off"
  shows "aesd_circular_buffer_find_entry_offset_for_fpos b off = Inr (None, None)"
  using assms by (simp add: aesd_circular_buffer_find_entry_offset_for_fpos_def foldl_esize)

text \<open>Past the guard, the position in the whole ring is found.\<close>

lemma find_locate:
  assumes len: "length (entry b) = MAXW" and out: "unat (out_offs b) < MAXW"
    and off: "off \<noteq> 0" and guard: "\<not> sum_list (map esize (entry b)) \<le> off"
    and loc: "locate (sizes (ring (entry b) (unat (out_offs b)))) (unat off) = Some (i, q)"
  shows "aesd_circular_buffer_find_entry_offset_for_fpos b off =
    Inr (Some ((unat (out_offs b) + i) mod MAXW), Some (of_nat q))"
proof -
  have q: "q < unat (esize (ring (entry b) (unat (out_offs b)) ! i))"
    using locate_bounds [OF loc] len by auto
  have "i < MAXW" using locate_bounds [OF loc] len by simp
  then have slot: "ring (entry b) (unat (out_offs b)) ! i = entry b ! ((unat (out_offs b) + i) mod MAXW)"
    using nth_ring [OF len out] by simp
  have "q < 2 ^ 64" using q by (meson less_trans unat_lt_u64)
  then have "(of_nat q :: u64) \<noteq> esize (entry b ! ((unat (out_offs b) + i) mod MAXW))"
    using q unfolding slot by (metis less_irrefl unat_of_nat_u64)
  then show ?thesis
    using find_walk_locate [OF len out loc] off guard
    by (simp add: aesd_circular_buffer_find_entry_offset_for_fpos_def foldl_esize)
qed

lemma find_guard_locate:
  assumes "\<not> sum_list (map esize (entry b)) \<le> off"
  obtains i q where "locate (sizes (ring (entry b) k)) (unat off) = Some (i, q)"
proof -
  have "unat off < sum_list (sizes (entry b))"
    using assms unat_sum_le [of "entry b"] by (simp add: word_le_nat_alt)
  then show thesis
    using that locate_lt [of "unat off" "sizes (ring (entry b) k)"] sum_sizes_ring by auto
qed

text \<open>The entries held are the first slots of the ring, counted from \<open>out_offs\<close>.\<close>

lemma entries_prefix_ring:
  assumes "cb_inv b"
  obtains rest where "ring (entry b) (unat (out_offs b)) = entries b @ rest"
  using assms that by (cases "full b") (auto simp: entries_def cb_inv_def intro: append_take_drop_id [symmetric])

lemma nth_entries:
  assumes "cb_inv b" and "i < length (entries b)"
  shows "entries b ! i = entry b ! ((unat (out_offs b) + i) mod MAXW)"
proof -
  note D = cb_invD [OF assms(1)]
  obtain rest where "ring (entry b) (unat (out_offs b)) = entries b @ rest"
    using entries_prefix_ring [OF assms(1)] .
  then have "entries b ! i = ring (entry b) (unat (out_offs b)) ! i"
    using assms(2) by (simp add: nth_append)
  moreover have "i < MAXW" using assms length_entries_le by (metis order_less_le_trans)
  ultimately show ?thesis using nth_ring [OF D(1,3)] by simp
qed

lemma sum_sizes_entries_le:
  assumes "cb_inv b" shows "sum_list (sizes (entries b)) \<le> sum_list (sizes (entry b))"
proof -
  obtain rest where "ring (entry b) (unat (out_offs b)) = entries b @ rest"
    using entries_prefix_ring [OF assms] .
  then show ?thesis using sum_sizes_ring [of "entry b" "unat (out_offs b)"] by simp
qed

lemma find_entries:
  assumes inv: "cb_inv b" and guard: "\<not> sum_list (map esize (entry b)) \<le> off"
    and off: "off \<noteq> 0" and loc: "locate (sizes (entries b)) (unat off) = Some (i, q)"
  shows "aesd_circular_buffer_find_entry_offset_for_fpos b off =
    Inr (Some ((unat (out_offs b) + i) mod MAXW), Some (of_nat q))"
proof -
  note D = cb_invD [OF inv]
  obtain rest where r: "ring (entry b) (unat (out_offs b)) = entries b @ rest"
    using entries_prefix_ring [OF inv] .
  have "locate (sizes (ring (entry b) (unat (out_offs b)))) (unat off) = Some (i, q)"
    using loc unfolding r by (simp add: locate_append)
  then show ?thesis using find_locate [OF D(1,3) off guard] by blast
qed

text \<open>Without wrap-around the sum of all ten sizes lies above the offsets of the held bytes.\<close>

lemma entries_below_total:
  assumes "cb_inv b" and "unat off < sum_list (sizes (entries b))" and "sum_list (sizes (entry b)) < 2 ^ 64"
  shows "\<not> sum_list (map esize (entry b)) \<le> off"
  using assms(2) sum_sizes_entries_le [OF assms(1)] unat_sum_eq [OF assms(3)] by (simp add: word_le_nat_alt)

section \<open>Properties\<close>

text \<open>
  C23. The search of \<open>aesd_circular_buffer_find_entry_offset_for_fpos\<close> always ends, inside the
  array, whatever the sizes in the slots are (even when their sum wraps): the guard
  \<open>total_chars > char_offset\<close> bounds the walk by one turn of the ring.
\<close>

theorem find_terminates:
  assumes "length (entry b) = MAXW" and "unat (out_offs b) < MAXW"
  shows "\<exists>r. aesd_circular_buffer_find_entry_offset_for_fpos b off = Inr r"
proof (cases "off = 0 \<or> sum_list (map esize (entry b)) \<le> off")
  case True
  then show ?thesis by (cases "off = 0") (auto simp: find_zero find_NULL)
next
  case False
  then obtain i q where "locate (sizes (ring (entry b) (unat (out_offs b)))) (unat off) = Some (i, q)"
    using find_guard_locate by blast
  then show ?thesis using find_locate [OF assms] False by blast
qed

theorem find_terminates_witness:
  "\<exists>r. aesd_circular_buffer_find_entry_offset_for_fpos demo_full_buffer 54 = Inr r"
  by (rule find_terminates) (simp_all add: demo_full_buffer_def MAXW_eq)

text \<open>
  C22. The answer for a nonzero offset below the total of the entries held, whatever the sizes
  recorded in the ten slots, also those that hold no entry and were never initialised. If the sum of
  all ten sizes, which wraps at 2^64, is not above the offset, the search returns NULL although the
  data is there; that cannot happen when the ten sizes add up to less than 2^64. Otherwise it
  returns the slot and the byte offset at which the concatenation of the entries, oldest
  first, has that byte: \<open>drop\<close> of the offset from the concatenated contents is the rest of
  that entry followed by the later entries, for any contents of the sizes recorded.
\<close>

theorem find_returns_position:
  assumes inv: "cb_inv b"
    and off: "0 < unat off" "unat off < sum_list (sizes (entries b))"
    and css: "map length css = sizes (entries b)"
  shows "(if sum_list (map esize (entry b)) \<le> off
     then aesd_circular_buffer_find_entry_offset_for_fpos b off = Inr (None, None)
     else \<exists>i q. aesd_circular_buffer_find_entry_offset_for_fpos b off =
        Inr (Some ((unat (out_offs b) + i) mod MAXW), Some q) \<and>
      i < length (entries b) \<and> entry b ! ((unat (out_offs b) + i) mod MAXW) = entries b ! i \<and>
      unat q < unat (esize (entries b ! i)) \<and>
      drop (unat off) (concat css) = drop (unat q) (css ! i) @ concat (drop (Suc i) css)) \<and>
    (sum_list (sizes (entry b)) < 2 ^ 64 \<longrightarrow> \<not> sum_list (map esize (entry b)) \<le> off)"
proof -
  have off0: "off \<noteq> 0" using off(1) by auto
  obtain i q where loc: "locate (sizes (entries b)) (unat off) = Some (i, q)"
    using off(2) locate_lt by blast
  have iq: "i < length (entries b)" "q < unat (esize (entries b ! i))"
    using locate_bounds [OF loc] by auto
  have q: "unat (of_nat q :: u64) = q"
    using iq(2) by (intro unat_of_nat_u64) (meson less_trans unat_lt_u64)
  have d: "drop (unat off) (concat css) = drop q (css ! i) @ concat (drop (Suc i) css)"
    using loc css by (simp add: drop_concat_locate)
  have null: "aesd_circular_buffer_find_entry_offset_for_fpos b off = Inr (None, None)"
    if "sum_list (map esize (entry b)) \<le> off"
    using find_NULL [OF off0 that] .
  have found: "\<exists>i q. aesd_circular_buffer_find_entry_offset_for_fpos b off =
        Inr (Some ((unat (out_offs b) + i) mod MAXW), Some q) \<and>
      i < length (entries b) \<and> entry b ! ((unat (out_offs b) + i) mod MAXW) = entries b ! i \<and>
      unat q < unat (esize (entries b ! i)) \<and>
      drop (unat off) (concat css) = drop (unat q) (css ! i) @ concat (drop (Suc i) css)"
    if "\<not> sum_list (map esize (entry b)) \<le> off"
    using find_entries [OF inv that off0 loc] iq q d nth_entries [OF inv iq(1)]
    by (intro exI [of _ i] exI [of _ "of_nat q"]) auto
  show ?thesis using null found entries_below_total [OF inv off(2)] by auto
qed

text \<open>In a full ring, and for five bytes held beside one slot with the size 2^64 - 4.\<close>

definition garbage_buffer :: aesd_circular_buffer where
  "garbage_buffer = \<lparr>entry = \<lparr>buffptr = Ref 1, esize = 5\<rparr> # \<lparr>buffptr = Null, esize = - 4\<rparr> #
       replicate 8 \<lparr>buffptr = Null, esize = 0\<rparr>,
     in_offs = 1, out_offs = 0, full = False, total_size = 5\<rparr>"

theorem find_returns_position_witness:
  "(\<exists>i q. aesd_circular_buffer_find_entry_offset_for_fpos demo_full_buffer 53 =
     Inr (Some ((3 + i) mod MAXW), Some q) \<and> i < 10) \<and>
   aesd_circular_buffer_find_entry_offset_for_fpos garbage_buffer 3 = Inr (None, None)"
proof
  let ?css = "map (\<lambda>e. replicate (unat (esize e)) (0 :: nat)) (entries demo_full_buffer)"
  have css: "map length ?css = sizes (entries demo_full_buffer)" by (simp add: sizes_def)
  show "\<exists>i q. aesd_circular_buffer_find_entry_offset_for_fpos demo_full_buffer 53 =
     Inr (Some ((3 + i) mod MAXW), Some q) \<and> i < 10"
    using find_returns_position [OF demo_full_inv _ _ css, of 53]
      length_entries [OF demo_full_inv]
    by (auto simp: demo_full_buffer_def sizes_def entries_def ring_def MAXW_eq upt_rec)
  have inv: "cb_inv garbage_buffer" and "entries garbage_buffer = [\<lparr>buffptr = Ref 1, esize = 5\<rparr>]"
    and "sum_list (map esize (entry garbage_buffer)) = 1"
    by (simp_all add: garbage_buffer_def cb_inv_def entries_def MAXW_eq sum_list_replicate)
  then show "aesd_circular_buffer_find_entry_offset_for_fpos garbage_buffer 3 = Inr (None, None)"
    using find_returns_position [OF inv, of 3 "[[(), (), (), (), ()]]"] by simp
qed

end
