(* ===== verification/Buffer_Read.thy ===== *)
theory Buffer_Read
  imports Buffer_Find
begin

text \<open>
  \<open>aesd_circular_buffer_read_helper\<close> of \<open>aesd-circular-buffer.c\<close>: copying a run of slots into
  the caller's block through a scratch block. \<open>read_plan\<close> is the reference: the bytes the
  nested loops copy for given contents, or None where they leave a block.
\<close>

section \<open>The loops\<close>

text \<open>
  The inner loop, for its \<open>n = end - k\<close> iterations. \<open>k\<close>, \<open>j\<close> and \<open>end\<close> are \<open>uint\<close>: the two
  bounds are truncated where the loop is set up, after which the counters cannot wrap.
\<close>

fun copy_bytes ::
  "kmem \<Rightarrow> ptr \<Rightarrow> ptr \<Rightarrow> ptr \<Rightarrow> u64 \<Rightarrow> nat \<Rightarrow> nat \<Rightarrow> nat \<Rightarrow> (kmem \<times> nat) res" where
  "copy_bytes m tmp data src read_count 0 k j = Inr (m, j)"
| "copy_bytes m tmp data src read_count (Suc n) k j =
     bnd (load m src k) (\<lambda>c.
     bnd (store m tmp j c) (\<lambda>m.
     bnd (load m src k) (\<lambda>c.
     bnd (store m data (unat (read_count + of_nat j)) c) (\<lambda>m.
       copy_bytes m tmp data src read_count n (Suc k) (Suc j)))))"

text \<open>
  The outer loop over the slots. An index past the array is a fault, so the \<open>uint\<close> index never
  gets near its width.
\<close>

function read_entries ::
  "kmem \<Rightarrow> aesd_circular_buffer \<Rightarrow> ptr \<Rightarrow> ptr \<Rightarrow> u64 \<Rightarrow> u64 \<Rightarrow> nat \<Rightarrow> nat \<Rightarrow> nat \<Rightarrow> u64 \<Rightarrow>
   (kmem \<times> u64) res" where
  "read_entries m b tmp data count byte_offset index2 i k read_count =
     (if i < index2 then
        bnd (entry_at b i) (\<lambda>e.
          if esize e = 0 \<or> count - read_count = 0 then Inr (m, read_count)
          else
            let end' = (if read_count + esize e < count then ucast (esize e)
                        else ucast (count - read_count + byte_offset)) :: u32
            in bnd (copy_bytes m tmp data (buffptr e) read_count (unat end' - k) k 0) (\<lambda>(m, j).
                 read_entries m b tmp data count byte_offset index2 (Suc i) 0
                   (read_count + of_nat j)))
      else Inr (m, read_count))"
  by pat_completeness auto
termination
  by (relation "measure (\<lambda>(m, b, tmp, data, count, byte_offset, index2, i, k, read_count). index2 - i)")
    auto

declare read_entries.simps [simp del]

text \<open>The scratch block \<open>tmp\<close> is never freed.\<close>

definition aesd_circular_buffer_read_helper ::
  "allocator \<Rightarrow> kmem \<Rightarrow> aesd_circular_buffer \<Rightarrow> nat \<Rightarrow> nat \<Rightarrow> ptr \<Rightarrow> u64 \<Rightarrow> u64 \<Rightarrow>
   (kmem \<times> u64) res" where
  "aesd_circular_buffer_read_helper al m b index1 index2 data count byte_offset =
     (let (m, tmp) = kmalloc al m count
      in read_entries m b tmp data count byte_offset index2 index1
           (unat (ucast byte_offset :: u32)) 0)"

section \<open>The reference\<close>

text \<open>
  The bytes copied from entries with the given contents: \<open>k\<close> is where the first is entered,
  \<open>rc\<close> what was copied before; None when an entry or the caller's block is overrun.
\<close>

fun read_plan :: "nat \<Rightarrow> nat \<Rightarrow> nat \<Rightarrow> nat \<Rightarrow> 'a list list \<Rightarrow> 'a list option" where
  "read_plan count bo k rc [] = Some []"
| "read_plan count bo k rc (c # cs) =
     (if rc = count then Some []
      else let e = (if rc + length c < count then length c else count - rc + bo)
           in if e \<le> length c \<and> rc + (e - k) \<le> count
              then map_option (\<lambda>r. take (e - k) (drop k c) @ r)
                     (read_plan count bo 0 (rc + (e - k)) cs)
              else None)"

text \<open>Entered at the start of an entry the plan is a prefix of the contents.\<close>

lemma read_plan_aligned:
  "rc \<le> count \<Longrightarrow> read_plan count 0 0 rc cs = Some (take (count - rc) (concat cs))"
proof (induction cs arbitrary: rc)
  case (Cons c cs)
  show ?case
  proof (cases "rc + length c < count")
    case True
    with Cons show ?thesis by (simp add: add.commute)
  next
    case False
    with Cons show ?thesis by (auto simp: Let_def)
  qed
qed simp

lemma read_plan_overrun:
  assumes "0 < bo" and "rc < count" and "count \<le> rc + length (concat cs)"
    and "\<forall>c \<in> set cs. c \<noteq> []"
  shows "read_plan count bo 0 rc cs = None"
  using assms
proof (induction cs arbitrary: rc)
  case (Cons c cs)
  show ?case
  proof (cases "rc + length c < count")
    case True
    then have "read_plan count bo 0 (rc + length c) cs = None"
      using Cons.prems by (intro Cons.IH) auto
    with True show ?thesis by (simp add: Let_def)
  next
    case False
    then show ?thesis using Cons.prems by (auto simp: Let_def)
  qed
qed simp

lemma read_plan_all:
  "rc + length (concat cs) < count \<Longrightarrow> read_plan count bo 0 rc cs = Some (concat cs)"
  by (induction cs arbitrary: rc) (auto simp: Let_def)

text \<open>
  Entered inside an entry it succeeds in two cases only: the whole request lies in that entry,
  or the request is larger than what there is (and than that whole entry).
\<close>

lemma read_plan_inside:
  assumes "0 < bo" and "bo < length c" and "0 < count" and "\<forall>c \<in> set cs. c \<noteq> []"
  shows "read_plan count bo bo 0 (c # cs) =
    (if count + bo \<le> length c then Some (take count (drop bo c))
     else if length c < count \<and> length c - bo + length (concat cs) < count
          then Some (drop bo c @ concat cs)
     else None)"
proof (cases "length c < count")
  case True
  show ?thesis
  proof (cases "length c - bo + length (concat cs) < count")
    case fits: True
    with True assms show ?thesis by (auto simp: Let_def read_plan_all)
  next
    case False
    with True assms show ?thesis
      using read_plan_overrun [of bo "length c - bo" count cs] by (auto simp: Let_def)
  qed
next
  case False
  have "read_plan count bo 0 count cs = Some []" by (cases cs) auto
  with False assms show ?thesis by (auto simp: Let_def)
qed

lemma read_plan_inside':
  assumes "0 < bo" and "bo < length c" and "0 < count" and "\<forall>c \<in> set cs. c \<noteq> []"
  shows "read_plan count bo bo 0 (c # cs) =
    (if count + bo \<le> length c \<or> length c < count \<and> length (concat (c # cs)) < count + bo
     then Some (take count (drop bo (concat (c # cs)))) else None)"
  unfolding read_plan_inside [OF assms] using assms(2) by (auto simp: min_def)

lemma length_read_plan:
  "read_plan count bo k rc cs = Some r \<Longrightarrow> rc \<le> count \<Longrightarrow> rc + length r \<le> count"
proof (induction count bo k rc cs arbitrary: r rule: read_plan.induct)
  case (2 count bo k rc c cs)
  let ?e = "if rc + length c < count then length c else count - rc + bo"
  show ?case
  proof (cases "rc = count")
    case False
    then obtain r' where ok: "?e \<le> length c" "rc + (?e - k) \<le> count"
      and r': "read_plan count bo 0 (rc + (?e - k)) cs = Some r'"
      and r: "r = take (?e - k) (drop k c) @ r'"
      using "2.prems"(1) by (auto simp: Let_def split: if_splits)
    have "rc + (?e - k) + length r' \<le> count"
      using "2.IH" [OF False refl _ r'] ok by blast
    moreover have "length (take (?e - k) (drop k c)) \<le> ?e - k" by simp
    ultimately show ?thesis using r by simp
  qed (use 2 in auto)
qed simp

section \<open>The loops follow the plan\<close>

lemma fun_upd2_again: "t \<noteq> d \<Longrightarrow> f(t := a, d := b, t := x, d := y) = f(t := x, d := y)"
  by (auto simp: fun_eq_iff)

lemma copy_bytes_live:
  assumes "m t = Some ts" and "m d = Some ds" and "m s = Some ss"
    and "s \<noteq> t" and "s \<noteq> d" and "t \<noteq> d"
    and "k \<le> length ss" and "j \<le> length ts" and "unat rc + j \<le> length ds"
    and "unat rc + j + n < 2 ^ 64"
  shows "copy_bytes m (Ref t) (Ref d) (Ref s) rc n k j =
    (if k + n \<le> length ss \<and> j + n \<le> length ts \<and> unat rc + j + n \<le> length ds
     then Inr (m(t \<mapsto> blit ts j (take n (drop k ss)),
                 d \<mapsto> blit ds (unat rc + j) (take n (drop k ss))), j + n)
     else Inl OutOfBounds)"
  using assms
proof (induction n arbitrary: m ts ds k j)
  case 0
  then show ?case by (simp add: map_upd_triv)
next
  case (Suc n)
  have idx: "unat (rc + of_nat j) = unat rc + j"
    using Suc.prems(10) by (simp add: wsimps)
  show ?case
  proof (cases "k < length ss \<and> j < length ts \<and> unat rc + j < length ds")
    case True
    let ?b = "ss ! k"
    let ?m = "m(t \<mapsto> ts[j := ?b], d \<mapsto> ds[unat rc + j := ?b])"
    have step: "copy_bytes m (Ref t) (Ref d) (Ref s) rc (Suc n) k j =
        copy_bytes ?m (Ref t) (Ref d) (Ref s) rc n (Suc k) (Suc j)"
      using True Suc.prems(1-6) idx by simp
    have tk: "take (Suc n) (drop k ss) = ?b # take n (drop (Suc k) ss)"
      using True by (simp add: Cons_nth_drop_Suc [symmetric])
    have IH: "copy_bytes ?m (Ref t) (Ref d) (Ref s) rc n (Suc k) (Suc j) =
      (if Suc k + n \<le> length ss \<and> Suc j + n \<le> length (ts[j := ?b]) \<and>
          unat rc + Suc j + n \<le> length (ds[unat rc + j := ?b])
       then Inr (?m(t \<mapsto> blit (ts[j := ?b]) (Suc j) (take n (drop (Suc k) ss)),
                    d \<mapsto> blit (ds[unat rc + j := ?b]) (unat rc + Suc j) (take n (drop (Suc k) ss))),
                 Suc j + n)
       else Inl OutOfBounds)"
      by (rule Suc.IH) (use True Suc.prems(3-6,10) in simp_all)
    show ?thesis
      unfolding step IH tk fun_upd2_again [OF Suc.prems(6)]
      using True by (auto simp: blit_Cons)
  next
    case False
    with Suc.prems(1-9) idx show ?thesis
      by (cases "k < length ss"; cases "j < length ts") (auto simp: not_less)
  qed
qed

text \<open>An entry and the bytes it stands for: a live block of exactly the recorded size.\<close>

definition stored :: "kmem \<Rightarrow> aesd_buffer_entry \<Rightarrow> u8 list \<Rightarrow> bool" where
  "stored m e c \<longleftrightarrow> (\<exists>a. buffptr e = Ref a \<and> m a = Some c) \<and> unat (esize e) = length c \<and>
     c \<noteq> [] \<and> length c < 2 ^ 31"

lemma stored_frame:
  "stored m e c \<Longrightarrow> buffptr e \<noteq> Ref a \<Longrightarrow> stored (m(a := x)) e c"
  by (auto simp: stored_def)

lemma esize_pos: "stored m e c \<Longrightarrow> esize e \<noteq> 0"
  by (auto simp: stored_def)

text \<open>\<open>index1\<close> up to \<open>index2\<close> hold the contents \<open>cs\<close>.\<close>

definition window :: "kmem \<Rightarrow> aesd_circular_buffer \<Rightarrow> nat \<Rightarrow> nat \<Rightarrow> u8 list list \<Rightarrow> bool" where
  "window m b index1 index2 cs \<longleftrightarrow> index2 \<le> length (entry b) \<and> length cs = index2 - index1 \<and>
     (\<forall>j < length cs. stored m (entry b ! (index1 + j)) (cs ! j))"

definition outside :: "aesd_circular_buffer \<Rightarrow> nat \<Rightarrow> nat \<Rightarrow> nat \<Rightarrow> bool" where
  "outside b index1 index2 a \<longleftrightarrow> (\<forall>i. index1 \<le> i \<and> i < index2 \<longrightarrow> buffptr (entry b ! i) \<noteq> Ref a)"

lemma window_Cons:
  assumes "window m b i index2 cs" and "i < index2"
  obtains c cs' where "cs = c # cs'" and "stored m (entry b ! i) c" and "window m b (Suc i) index2 cs'"
proof -
  from assms obtain c cs' where cs: "cs = c # cs'"
    by (cases cs) (auto simp: window_def)
  with assms have "stored m (entry b ! i) c" "window m b (Suc i) index2 cs'"
    by (force simp: window_def)+
  with cs show thesis using that by blast
qed

lemma window_frame:
  "window m b i index2 cs \<Longrightarrow> outside b i index2 a \<Longrightarrow> window (m(a := x)) b i index2 cs"
  by (auto simp: window_def outside_def intro!: stored_frame)

lemma outside_Suc: "outside b i index2 a \<Longrightarrow> outside b (Suc i) index2 a"
  by (auto simp: outside_def)

text \<open>
  The two loops over a window do what the plan says: the block \<open>d\<close> gets the plan's bytes, or
  an entry or block is overrun just when there is no plan.
\<close>

definition follows_plan :: "(kmem \<times> u64) res \<Rightarrow> kmem \<Rightarrow> nat \<Rightarrow> nat \<Rightarrow> u8 list \<Rightarrow> u64 \<Rightarrow>
    u8 list option \<Rightarrow> bool" where
  "follows_plan r m t d ds rc plan \<longleftrightarrow> (case plan of
     None \<Rightarrow> r = Inl OutOfBounds
   | Some bs \<Rightarrow> \<exists>ts'. r = Inr (m(t \<mapsto> ts', d \<mapsto> blit ds (unat rc) bs), rc + of_nat (length bs)))"

lemma entry_step_end:
  assumes "stored m e c" and "unat count < 2 ^ 31" and "unat bo < 2 ^ 31" and "unat rc \<le> unat count"
  shows "unat ((if rc + esize e < count then ucast (esize e) else ucast (count - rc + bo)) :: u32) =
    (if unat rc + length c < unat count then length c else unat count - unat rc + unat bo)"
proof -
  have c: "unat (esize e) = length c" "length c < 2 ^ 31" using assms(1) by (auto simp: stored_def)
  have sum: "unat (rc + esize e) = unat rc + length c"
    using assms c by (simp add: unat_plus_u64)
  have diff: "unat (count - rc + bo) = unat count - unat rc + unat bo"
    using assms by (simp add: unat_plus_u64 unat_minus_u64)
  show ?thesis
    using sum diff c assms by (simp add: word_less_nat_alt unat_ucast_u32)
qed

text \<open>The bound of the inner loop as the plan computes it.\<close>

definition plan_end :: "u64 \<Rightarrow> u64 \<Rightarrow> u64 \<Rightarrow> nat \<Rightarrow> nat" where
  "plan_end count bo rc l = (if unat rc + l < unat count then l else unat count - unat rc + unat bo)"

definition small_request :: "u64 \<Rightarrow> u64 \<Rightarrow> u64 \<Rightarrow> bool" where
  "small_request count bo rc \<longleftrightarrow> unat count < 2 ^ 31 \<and> unat bo < 2 ^ 31 \<and> unat rc \<le> unat count"

text \<open>One iteration of the outer loop on a slot with contents.\<close>

lemma read_entries_step:
  assumes "i < index2" and "i < length (entry b)" and "stored m (entry b ! i) c"
    and "small_request count bo rc" and "unat rc \<noteq> unat count"
  shows "read_entries m b tmp data count bo index2 i k rc =
    bnd (copy_bytes m tmp data (buffptr (entry b ! i)) rc (plan_end count bo rc (length c) - k) k 0)
      (\<lambda>(m, j). read_entries m b tmp data count bo index2 (Suc i) 0 (rc + of_nat j))"
proof -
  have "count - rc \<noteq> 0" using assms(5) by auto
  then show ?thesis
    using assms(1,2,4) esize_pos [OF assms(3)] entry_step_end [OF assms(3), of count bo rc]
    by (simp add: read_entries.simps [of m] Let_def entry_at_def plan_end_def small_request_def)
qed

lemma read_entries_stop:
  assumes "i < index2 \<Longrightarrow> i < length (entry b) \<and> rc = count"
  shows "read_entries m b tmp data count bo index2 i k rc = Inr (m, rc)"
  using assms by (auto simp: read_entries.simps [of m] entry_at_def)

text \<open>One entry is copied whole, in part, or overrun.\<close>

lemma copy_entry:
  assumes "m t = Some ts" and "m d = Some ds" and "length ts = unat count" and "length ds = unat count"
    and "t \<noteq> d" and "m s = Some c" and "s \<noteq> t" and "s \<noteq> d" and "length c < 2 ^ 31"
    and "small_request count bo rc" and "k \<le> length c"
  defines "n \<equiv> plan_end count bo rc (length c) - k"
  shows "copy_bytes m (Ref t) (Ref d) (Ref s) rc n k 0 =
    (if plan_end count bo rc (length c) \<le> length c \<and> unat rc + n \<le> unat count
     then Inr (m(t \<mapsto> blit ts 0 (take n (drop k c)), d \<mapsto> blit ds (unat rc) (take n (drop k c))), n)
     else Inl OutOfBounds)"
proof -
  have "unat rc + 0 + n < 2 ^ 64"
    using assms(9,10) by (auto simp: n_def plan_end_def small_request_def)
  note copy = copy_bytes_live [OF assms(1,2,6,7,8,5,11) _ _ this, unfolded assms(3,4), simplified]
  have "k + n \<le> length c \<and> n \<le> unat count \<and> unat rc + n \<le> unat count \<longleftrightarrow>
      plan_end count bo rc (length c) \<le> length c \<and> unat rc + n \<le> unat count"
    using assms(10,11) by (auto simp: n_def plan_end_def small_request_def)
  with copy show ?thesis using assms(10) by (simp add: small_request_def)
qed

lemma read_plan_step:
  assumes "unat rc \<noteq> unat count"
  shows "read_plan (unat count) (unat bo) k (unat rc) (c # cs) =
    (let n = plan_end count bo rc (length c) - k
     in if plan_end count bo rc (length c) \<le> length c \<and> unat rc + n \<le> unat count
        then map_option (\<lambda>r. take n (drop k c) @ r) (read_plan (unat count) (unat bo) 0 (unat rc + n) cs)
        else None)"
  using assms by (simp add: plan_end_def Let_def)

text \<open>The rest of the loop follows the plan after one copied entry.\<close>

lemma follows_plan_append:
  assumes "follows_plan r (m(t \<mapsto> ts', d \<mapsto> blit ds (unat rc) bs)) t d (blit ds (unat rc) bs)
      (rc + of_nat n) (read_plan (unat count) bo 0 (unat (rc + of_nat n)) cs)"
    and "length bs = n" and "unat (rc + of_nat n) = unat rc + n" and "t \<noteq> d"
    and "unat rc + n \<le> unat count" and "length ds = unat count"
  shows "follows_plan r m t d ds rc
    (map_option (\<lambda>r. bs @ r) (read_plan (unat count) bo 0 (unat rc + n) cs))"
proof (cases "read_plan (unat count) bo 0 (unat rc + n) cs")
  case (Some bs')
  have "blit (blit ds (unat rc) bs) (unat rc + n) bs' = blit ds (unat rc) (bs @ bs')"
    using blit_blit [of "unat rc" bs bs' ds] length_read_plan [OF Some] assms(2,5,6) by simp
  with Some assms(1-3) fun_upd2_again [OF assms(4)] show ?thesis
    by (auto simp: follows_plan_def add.assoc)
qed (use assms(1,3) in \<open>simp add: follows_plan_def\<close>)

lemma read_entries_plan:
  assumes "window m b i index2 cs" and "i \<le> index2"
    and "outside b i index2 t" and "outside b i index2 d" and "t \<noteq> d"
    and "m t = Some ts" and "m d = Some ds" and "length ts = unat count" and "length ds = unat count"
    and "small_request count bo rc" and "k = 0 \<or> cs \<noteq> [] \<and> k \<le> length (hd cs)"
  shows "follows_plan (read_entries m b (Ref t) (Ref d) count bo index2 i k rc) m t d ds rc
    (read_plan (unat count) (unat bo) k (unat rc) cs)"
  using assms
proof (induction cs arbitrary: m i k rc ts ds)
  case Nil
  then have "\<not> i < index2" by (simp add: window_def)
  with Nil.prems(6,7) show ?case
    by (auto simp: read_entries_stop follows_plan_def map_upd_triv intro!: exI [of _ ts])
next
  case (Cons c cs)
  have i: "i < index2" "i < length (entry b)" using Cons.prems(1) by (auto simp: window_def)
  have st: "stored m (entry b ! i) c" and win: "window m b (Suc i) index2 cs"
    using window_Cons [OF Cons.prems(1) i(1)] by auto
  obtain s where s: "buffptr (entry b ! i) = Ref s" "m s = Some c" "length c < 2 ^ 31"
    using st by (auto simp: stored_def)
  have ne: "s \<noteq> t" "s \<noteq> d" using Cons.prems(3,4) i s(1) by (auto simp: outside_def)
  show ?case
  proof (cases "unat rc = unat count")
    case True
    then have "rc = count" by (simp add: word_unat_eq_iff)
    then show ?thesis using i Cons.prems(6,7)
      by (auto simp: read_entries_stop follows_plan_def map_upd_triv intro!: exI [of _ ts])
  next
    case more: False
    let ?n = "plan_end count bo rc (length c) - k"
    let ?bs = "take ?n (drop k c)"
    have k: "k \<le> length c" using Cons.prems(11) by auto
    note step = read_entries_step [OF i st Cons.prems(10) more, of "Ref t" "Ref d" k]
    note copy = copy_entry [OF Cons.prems(6-9,5) s(2) ne s(3) Cons.prems(10) k]
    show ?thesis
    proof (cases "plan_end count bo rc (length c) \<le> length c \<and> unat rc + ?n \<le> unat count")
      case True
      then have len: "length ?bs = ?n" using k by (auto simp: min_def)
      have rc': "unat (rc + of_nat ?n) = unat rc + ?n"
        using True Cons.prems(10) by (simp add: unat_plus_u64 unat_of_nat_u64 small_request_def)
      have "follows_plan (read_entries (m(t \<mapsto> blit ts 0 ?bs, d \<mapsto> blit ds (unat rc) ?bs)) b (Ref t) (Ref d)
            count bo index2 (Suc i) 0 (rc + of_nat ?n))
          (m(t \<mapsto> blit ts 0 ?bs, d \<mapsto> blit ds (unat rc) ?bs)) t d (blit ds (unat rc) ?bs) (rc + of_nat ?n)
          (read_plan (unat count) (unat bo) 0 (unat (rc + of_nat ?n)) cs)"
      proof (rule Cons.IH [where ts = "blit ts 0 ?bs"])
        show "window (m(t \<mapsto> blit ts 0 ?bs, d \<mapsto> blit ds (unat rc) ?bs)) b (Suc i) index2 cs"
          using win Cons.prems(3,4) by (intro window_frame outside_Suc)
      qed (use i Cons.prems True rc' len in \<open>auto simp: outside_Suc small_request_def\<close>)
      from follows_plan_append [OF this len rc' Cons.prems(5)]
      show ?thesis
        unfolding read_plan_step [OF more] using step copy True s(1) Cons.prems(9)
        by (simp add: Let_def)
    next
      case False
      then show ?thesis using read_plan_step [OF more, of bo k c cs] step copy s(1)
        by (auto simp: follows_plan_def Let_def)
    qed
  qed
qed

section \<open>The helper\<close>

lemma window_outside_dead:
  "window m b i index2 cs \<Longrightarrow> m a = None \<Longrightarrow> outside b i index2 a"
proof (unfold outside_def, intro allI impI)
  fix j assume "window m b i index2 cs" and "m a = None" and j: "i \<le> j \<and> j < index2"
  then have "stored m (entry b ! (i + (j - i))) (cs ! (j - i))"
    by (auto simp: window_def dest!: spec [of _ "j - i"])
  with \<open>m a = None\<close> j show "buffptr (entry b ! j) \<noteq> Ref a" by (auto simp: stored_def)
qed

lemma read_helper_plan:
  assumes "good_alloc al" and "al m count = Some (t, ts)"
    and "m d = Some ds" and "length ds = unat count" and "outside b i1 i2 d"
    and "window m b i1 i2 cs" and "i1 \<le> i2" and "bo = 0 \<or> cs \<noteq> [] \<and> unat bo \<le> length (hd cs)"
  shows "follows_plan (aesd_circular_buffer_read_helper al m b i1 i2 (Ref d) count bo) m t d ds 0
    (read_plan (unat count) (unat bo) (unat bo) 0 cs)"
proof -
  note al = good_allocD [OF assms(1,2)]
  have td: "t \<noteq> d" using al(1) assms(3) by auto
  have out: "outside b i1 i2 t" using window_outside_dead [OF assms(6) al(1)] .
  have "cs \<noteq> [] \<Longrightarrow> length (hd cs) < 2 ^ 31"
    using assms(6) by (auto simp: window_def stored_def hd_conv_nth)
  then have bo: "unat bo < 2 ^ 31" using assms(8) by auto
  then have k: "unat (ucast bo :: u32) = unat bo" by (intro unat_ucast_u32) simp
  have "follows_plan (read_entries (m(t \<mapsto> ts)) b (Ref t) (Ref d) count bo i2 i1 (unat bo) 0)
      (m(t \<mapsto> ts)) t d ds 0 (read_plan (unat count) (unat bo) (unat bo) (unat (0 :: u64)) cs)"
    using assms al td out bo
    by (intro read_entries_plan [where ts = ts]) (auto simp: window_frame small_request_def)
  then show ?thesis
    using k assms(2) fun_upd2_again [OF td, of m "Some ts"] td
    by (auto simp: aesd_circular_buffer_read_helper_def follows_plan_def fun_upd_twist
        split: option.splits)
qed

section \<open>Properties\<close>

text \<open>
  Entered at the start of an entry, \<open>aesd_circular_buffer_read_helper\<close> stays inside every
  block and copies exactly the first \<open>count\<close> bytes of the window's contents (all of them when
  there are fewer) to the start of the caller's block, whose other bytes it leaves alone; the
  count it returns is the number of bytes copied.
\<close>

theorem read_helper_aligned:
  assumes "good_alloc al" and "al m count = Some (t, ts)"
    and "m d = Some ds" and "length ds = unat count" and "outside b i1 i2 d"
    and "window m b i1 i2 cs" and "i1 \<le> i2"
  shows "\<exists>m'. aesd_circular_buffer_read_helper al m b i1 i2 (Ref d) count 0 =
      Inr (m', of_nat (min (unat count) (length (concat cs)))) \<and>
    m' d = Some (take (unat count) (concat cs) @ drop (length (concat cs)) ds)"
proof -
  have "read_plan (unat count) 0 0 0 cs = Some (take (unat count) (concat cs))"
    using read_plan_aligned [of 0 "unat count" cs] by simp
  then obtain ts' where "aesd_circular_buffer_read_helper al m b i1 i2 (Ref d) count 0 =
      Inr (m(t \<mapsto> ts', d \<mapsto> blit ds 0 (take (unat count) (concat cs))),
           of_nat (length (take (unat count) (concat cs))))"
    using read_helper_plan [OF assms, of 0] by (auto simp: follows_plan_def)
  moreover have "blit ds 0 (take (unat count) (concat cs)) =
      take (unat count) (concat cs) @ drop (length (concat cs)) ds"
    using assms(4) by (auto simp: blit_def min_def)
  ultimately show ?thesis by (auto simp: min.commute)
qed

definition demo_mem :: kmem where
  "demo_mem = [0 \<mapsto> [97, 98, 10], 1 \<mapsto> [99, 10], 2 \<mapsto> [0, 0, 0, 0]]"

definition demo_two :: aesd_circular_buffer where
  "demo_two = \<lparr>entry = [\<lparr>buffptr = Ref 0, esize = 3\<rparr>, \<lparr>buffptr = Ref 1, esize = 2\<rparr>] @
      replicate 8 \<lparr>buffptr = Null, esize = 0\<rparr>, in_offs = 2, out_offs = 0, full = False, total_size = 5\<rparr>"

lemma demo_window: "window demo_mem demo_two 0 2 [[97, 98, 10], [99, 10]]"
  by (simp add: window_def demo_mem_def demo_two_def stored_def All_less_Suc)

lemma demo_outside: "outside demo_two 0 2 2"
  by (auto simp: outside_def demo_two_def less_2_cases_iff)

lemma demo_arena: "arena 9 demo_mem 4 = Some (3, replicate 4 0)"
  by (simp add: arena_def demo_mem_def upt_rec)

theorem read_helper_aligned_witness:
  "\<exists>m'. aesd_circular_buffer_read_helper (arena 9) demo_mem demo_two 0 2 (Ref 2) 4 0 = Inr (m', 4) \<and>
     m' 2 = Some [97, 98, 10, 99]"
  using read_helper_aligned [OF good_alloc_arena demo_arena _ _ demo_outside demo_window, of "[0, 0, 0, 0]"]
  by (simp add: demo_mem_def)

text \<open>
  C24. Entered \<open>byte_offset\<close> bytes into an entry, the helper is right in exactly two cases: the
  request ends inside that entry, or the request is larger than both that entry and everything
  that remains. In every other case the bound \<open>count - read_count + *byte_offset\<close>, which
  counts the skipped bytes again, makes it read past an entry's block or write past the
  caller's block.
\<close>

theorem read_helper_inside_iff:
  assumes "good_alloc al" and "al m count = Some (t, ts)"
    and "m d = Some ds" and "length ds = unat count" and "outside b i1 i2 d"
    and "window m b i1 i2 (c # cs)" and "i1 \<le> i2" and "0 < unat bo" and "unat bo < length c"
    and "0 < unat count"
  shows "(if unat count + unat bo \<le> length c \<or>
            length c < unat count \<and> length (concat (c # cs)) < unat count + unat bo
     then \<exists>m'. aesd_circular_buffer_read_helper al m b i1 i2 (Ref d) count bo =
            Inr (m', of_nat (min (unat count) (length (concat (c # cs)) - unat bo))) \<and>
          (\<exists>rest. m' d = Some (take (unat count) (drop (unat bo) (concat (c # cs))) @ rest))
     else aesd_circular_buffer_read_helper al m b i1 i2 (Ref d) count bo = Inl OutOfBounds)"
proof -
  have ne: "\<forall>c \<in> set cs. c \<noteq> []"
    using assms(6) by (fastforce simp: window_def stored_def in_set_conv_nth)
  have H: "follows_plan (aesd_circular_buffer_read_helper al m b i1 i2 (Ref d) count bo) m t d ds 0
      (read_plan (unat count) (unat bo) (unat bo) 0 (c # cs))"
    using assms by (intro read_helper_plan) auto
  note plan = read_plan_inside' [OF assms(8-10) ne]
  let ?bs = "take (unat count) (drop (unat bo) (concat (c # cs)))"
  have "length ?bs = min (unat count) (length (concat (c # cs)) - unat bo)"
    by (simp add: min.commute)
  moreover have "\<exists>rest. blit ds 0 ?bs = ?bs @ rest" by (auto simp: blit_def)
  ultimately show ?thesis
    using H unfolding plan by (auto simp: follows_plan_def simp del: concat.simps)
qed

text \<open>
  The overrun is reachable: two lines of three and two bytes, read with a two-byte request from
  offset 2, make the helper read past the first line's block.
\<close>

theorem read_helper_inside_iff_witness:
  "aesd_circular_buffer_read_helper (arena 9) (demo_mem(2 \<mapsto> [0, 0])) demo_two 0 2 (Ref 2) 2 2 =
     Inl OutOfBounds"
proof -
  have w: "window (demo_mem(2 \<mapsto> [0, 0])) demo_two 0 2 [[97, 98, 10], [99, 10]]"
    by (intro window_frame demo_window demo_outside)
  have al: "arena 9 (demo_mem(2 \<mapsto> [0, 0])) 2 = Some (3, replicate 2 0)"
    by (simp add: arena_def demo_mem_def upt_rec)
  show ?thesis
    using read_helper_inside_iff [OF good_alloc_arena al _ _ demo_outside w, of "[0, 0]" 2] by simp
qed

end
