(* ===== verification/Aesd_Device.thy ===== *)
theory Aesd_Device
  imports Buffer_Read
begin

text \<open>
  The state of the character device (\<open>struct aesd_dev\<close>, \<open>aesdchar.h\<close>), what the kernel answers
  to one call of the driver, the device invariant, and \<open>aesd_open\<close> and \<open>aesd_release\<close> of
  \<open>main.c\<close>. \<open>lines\<close> is what the device stands for: the byte strings of the entries held,
  oldest first, and \<open>pending\<close> the line begun but not ended.
\<close>

section \<open>The device\<close>

text \<open>
  \<open>mutex\<close>, \<open>buffer\<close> and \<open>partial_entry\<close> are pointers in the C structure, set once by
  \<open>aesd_init_module\<close>: the model holds what they point to, and their blocks for the accounting
  of allocations. The mutex is the fact whether it is held.
\<close>

record aesd_dev =
  mutex :: bool
  buffer :: aesd_circular_buffer
  partial_entry :: aesd_buffer_entry
  partial :: bool
  seekto_position :: u64
  seek :: bool
  mutex_block :: ptr
  buffer_block :: ptr
  partial_entry_block :: ptr

text \<open>
  The kernel's side of one call: the allocator, what \<open>copy_from_user\<close> returns and leaves in the
  kernel block for the bytes of the user, the low byte of an address, and whether another thread takes the mutex between
  this call's \<open>mutex_unlock\<close> and its next \<open>mutex_is_locked\<close>.
\<close>

record kenv =
  alloc :: allocator
  from_user :: "u8 list \<Rightarrow> u64 \<times> u8 list"
  low_byte :: "ptr \<Rightarrow> u8"
  relocked :: bool

text \<open>The contract of \<open>copy_from_user\<close>: it fills the block, and all of it when it returns 0.\<close>

definition good_copy :: "(u8 list \<Rightarrow> u64 \<times> u8 list) \<Rightarrow> bool" where
  "good_copy f \<longleftrightarrow> (\<forall>bs. length (snd (f bs)) = length bs \<and> (fst (f bs) = 0 \<longrightarrow> snd (f bs) = bs))"

definition ENOMEM :: int where "ENOMEM = 12"
definition EINVAL :: int where "EINVAL = 22"
definition ENOTTY :: int where "ENOTTY = 25"

lemmas errno_defs = ENOMEM_def EINVAL_def ENOTTY_def

section \<open>Opening and releasing\<close>

text \<open>A file (\<open>struct file\<close>) remembers its position and the device it was opened on.\<close>

record inode =
  i_cdev :: nat

record kfile =
  f_pos :: u64
  private_data :: "nat option"

definition aesd_open :: "inode \<Rightarrow> kfile \<Rightarrow> kfile \<times> int" where
  "aesd_open i filp = (filp\<lparr>private_data := Some (i_cdev i)\<rparr>, 0)"

definition aesd_release :: "inode \<Rightarrow> kfile \<Rightarrow> kfile \<times> int" where
  "aesd_release i filp = (filp, 0)"

section \<open>What the device stands for, and its invariant\<close>

definition bytes_of :: "kmem \<Rightarrow> aesd_buffer_entry \<Rightarrow> u8 list" where
  "bytes_of m e = (case buffptr e of Null \<Rightarrow> [] | Ref a \<Rightarrow> (case m a of None \<Rightarrow> [] | Some bs \<Rightarrow> bs))"

definition lines :: "kmem \<Rightarrow> aesd_dev \<Rightarrow> u8 list list" where
  "lines m d = map (bytes_of m) (entries (buffer d))"

definition pending :: "kmem \<Rightarrow> aesd_dev \<Rightarrow> u8 list" where
  "pending m d = (if partial d then bytes_of m (partial_entry d) else [])"

abbreviation newline :: u8 where
  "newline \<equiv> 10"

text \<open>The entries whose blocks the device owns.\<close>

definition owned :: "aesd_dev \<Rightarrow> aesd_buffer_entry list" where
  "owned d = entries (buffer d) @ (if partial d then [partial_entry d] else [])"

definition dev_inv :: "kmem \<Rightarrow> aesd_dev \<Rightarrow> bool" where
  "dev_inv m d \<longleftrightarrow> finite (dom m) \<and> cb_inv (buffer d) \<and>
     (\<forall>e \<in> set (owned d). stored m e (bytes_of m e)) \<and> distinct (map buffptr (owned d)) \<and>
     (\<forall>l \<in> set (lines m d). last l = newline) \<and>
     (partial d \<longrightarrow> last (pending m d) \<noteq> newline)"

lemma dev_invD:
  assumes "dev_inv m d"
  shows "finite (dom m)" and "cb_inv (buffer d)"
    and "\<And>e. e \<in> set (entries (buffer d)) \<Longrightarrow> stored m e (bytes_of m e)"
    and "distinct (map buffptr (entries (buffer d)))"
    and "partial d \<Longrightarrow> stored m (partial_entry d) (pending m d)"
    and "partial d \<Longrightarrow> last (pending m d) \<noteq> newline"
    and "\<And>l. l \<in> set (lines m d) \<Longrightarrow> last l = newline"
  using assms by (auto simp: dev_inv_def owned_def pending_def)

lemma stored_bytes_of: "stored m e c \<Longrightarrow> bytes_of m e = c"
  by (auto simp: stored_def bytes_of_def)

lemma bytes_of_frame: "buffptr e \<noteq> Ref a \<Longrightarrow> bytes_of (m(a := x)) e = bytes_of m e"
  by (cases "buffptr e") (auto simp: bytes_of_def)

lemma stored_live: "stored m e c \<Longrightarrow> m a = None \<Longrightarrow> buffptr e \<noteq> Ref a"
  by (auto simp: stored_def)

text \<open>Blocks the device does not own do not matter to it; those not in use are of this kind.\<close>

definition unowned :: "aesd_dev \<Rightarrow> nat \<Rightarrow> bool" where
  "unowned d a \<longleftrightarrow> (\<forall>e \<in> set (owned d). buffptr e \<noteq> Ref a)"

lemma unowned_dead: "dev_inv m d \<Longrightarrow> m a = None \<Longrightarrow> unowned d a"
  unfolding unowned_def dev_inv_def using stored_live by blast

lemma unowned_entries: "unowned d a \<Longrightarrow> e \<in> set (entries (buffer d)) \<Longrightarrow> buffptr e \<noteq> Ref a"
  by (simp add: unowned_def owned_def)

lemma lines_frame: "unowned d a \<Longrightarrow> lines (m(a := x)) d = lines m d"
  by (auto simp: lines_def unowned_def owned_def intro: bytes_of_frame)

lemma pending_frame: "unowned d a \<Longrightarrow> pending (m(a := x)) d = pending m d"
  by (auto simp: pending_def unowned_def owned_def intro: bytes_of_frame)

lemma dev_inv_frame:
  assumes inv: "dev_inv m d" and a: "unowned d a" shows "dev_inv (m(a := x)) d"
proof -
  have "stored (m(a := x)) e (bytes_of (m(a := x)) e)" if "e \<in> set (owned d)" for e
  proof -
    have "stored m e (bytes_of m e)" using inv that by (auto simp: dev_inv_def)
    moreover have "buffptr e \<noteq> Ref a" using a that by (simp add: unowned_def)
    ultimately show ?thesis using bytes_of_frame stored_frame by metis
  qed
  then show ?thesis
    using inv lines_frame [OF a] pending_frame [OF a] by (auto simp: dev_inv_def)
qed

lemma lines_fresh: "dev_inv m d \<Longrightarrow> m a = None \<Longrightarrow> lines (m(a := x)) d = lines m d"
  by (rule lines_frame) (rule unowned_dead)

lemma pending_fresh: "dev_inv m d \<Longrightarrow> m a = None \<Longrightarrow> pending (m(a := x)) d = pending m d"
  by (rule pending_frame) (rule unowned_dead)

lemma dev_inv_fresh: "dev_inv m d \<Longrightarrow> m a = None \<Longrightarrow> dev_inv (m(a \<mapsto> bs)) d"
  by (rule dev_inv_frame) (auto intro: unowned_dead)

text \<open>Fields the invariant does not mention.\<close>

lemma dev_inv_ignores [simp]:
  "dev_inv m (d\<lparr>mutex := x\<rparr>) = dev_inv m d" "dev_inv m (d\<lparr>seek := x\<rparr>) = dev_inv m d"
  "dev_inv m (d\<lparr>seekto_position := y\<rparr>) = dev_inv m d"
  by (simp_all add: dev_inv_def lines_def pending_def owned_def)

lemma lines_ignores [simp]:
  "lines m (d\<lparr>mutex := x\<rparr>) = lines m d" "lines m (d\<lparr>seek := x\<rparr>) = lines m d"
  "lines m (d\<lparr>seekto_position := y\<rparr>) = lines m d"
  by (simp_all add: lines_def)

lemma pending_ignores [simp]:
  "pending m (d\<lparr>mutex := x\<rparr>) = pending m d" "pending m (d\<lparr>seek := x\<rparr>) = pending m d"
  "pending m (d\<lparr>seekto_position := y\<rparr>) = pending m d"
  by (simp_all add: pending_def)

section \<open>Sizes\<close>

lemma sizes_lines: "dev_inv m d \<Longrightarrow> sizes (entries (buffer d)) = map length (lines m d)"
  by (auto simp: sizes_def lines_def stored_def dest: dev_invD(3))

lemma length_lines: "length (lines m d) = length (entries (buffer d))"
  by (simp add: lines_def)

lemma line_nonempty: "dev_inv m d \<Longrightarrow> l \<in> set (lines m d) \<Longrightarrow> l \<noteq> []"
  by (auto simp: lines_def stored_def dest!: dev_invD(3))

lemma line_small: "dev_inv m d \<Longrightarrow> l \<in> set (lines m d) \<Longrightarrow> length l < 2 ^ 31"
  by (auto simp: lines_def stored_def dest!: dev_invD(3))

lemma sum_list_bounded: "(\<And>x. x \<in> set xs \<Longrightarrow> x \<le> b) \<Longrightarrow> sum_list xs \<le> length xs * (b :: nat)"
  by (induction xs) (auto simp: add_mono)

lemma content_small: "dev_inv m d \<Longrightarrow> length (concat (lines m d)) < 2 ^ 35"
proof -
  assume inv: "dev_inv m d"
  have "sum_list (map length (lines m d)) \<le> length (lines m d) * 2 ^ 31"
    using sum_list_bounded [of "map length (lines m d)" "2 ^ 31"] line_small [OF inv] by fastforce
  also have "\<dots> \<le> 10 * 2 ^ 31"
    using length_entries_le [OF dev_invD(2) [OF inv]] by (simp add: length_lines MAXW_eq)
  finally show ?thesis by (simp add: length_concat)
qed

text \<open>
  The search for a position adds up the sizes of all ten slots, held or not, and loading leaves
  what uninitialised blocks hold in them. A position other than 0 is found for sure when no slot
  shows a size of an exabyte or more. Writing and flushing keep that, and a full ring has it.
\<close>

definition slots_sane :: "aesd_circular_buffer \<Rightarrow> bool" where
  "slots_sane b \<longleftrightarrow> (\<forall>e \<in> set (entry b). unat (esize e) < 2 ^ 60)"

abbreviation findable :: "aesd_dev \<Rightarrow> u64 \<Rightarrow> bool" where
  "findable d pos \<equiv> pos = 0 \<or> slots_sane (buffer d)"

lemma slots_no_overflow:
  assumes inv: "dev_inv m d" and sane: "slots_sane (buffer d)" shows "sum_list (sizes (entry (buffer d))) < 2 ^ 64"
proof -
  have "sum_list (sizes (entry (buffer d))) \<le> length (sizes (entry (buffer d))) * 2 ^ 60"
    using sane by (intro sum_list_bounded) (force simp: sizes_def slots_sane_def)
  then show ?thesis using cb_invD(1) [OF dev_invD(2) [OF inv]] by (simp add: MAXW_eq)
qed

lemma full_slots_sane:
  assumes inv: "dev_inv m d" and f: "full (buffer d)" shows "slots_sane (buffer d)"
proof -
  have "set (entries (buffer d)) =
      set (take (unat (out_offs (buffer d))) (entry (buffer d)) @ drop (unat (out_offs (buffer d))) (entry (buffer d)))"
    using f by (auto simp: entries_def ring_def simp del: append_take_drop_id)
  then have "set (entry (buffer d)) = set (entries (buffer d))" by simp
  then show ?thesis using dev_invD(3) [OF inv] by (fastforce simp: slots_sane_def stored_def)
qed

lemma total_size_lines:
  assumes inv: "dev_inv m d"
  shows "unat (total_size (buffer d)) = length (concat (lines m d))"
proof -
  have "sum_list (sizes (entries (buffer d))) = length (concat (lines m d))"
    by (simp add: sizes_lines [OF inv] length_concat)
  moreover have "unat (sum_list (map esize (entries (buffer d)))) = sum_list (sizes (entries (buffer d)))"
    using calculation content_small [OF inv] by (intro unat_sum_eq) simp
  ultimately show ?thesis using cb_invD(6) [OF dev_invD(2) [OF inv]] by simp
qed

lemma sint_total_size:
  assumes inv: "dev_inv m d"
  shows "sint (total_size (buffer d)) = int (length (concat (lines m d)))"
proof -
  have "unat (total_size (buffer d)) < 2 ^ 63"
    using content_small [OF inv] total_size_lines [OF inv] by simp
  then show ?thesis using sint_u64_small total_size_lines [OF inv] by metis
qed

end
