(* ===== verification/Aesd_Read.thy ===== *)
theory Aesd_Read
  imports Aesd_Device
begin

text \<open>
  \<open>aesd_read\<close> of \<open>main.c\<close>, and its specification on the device's lines: one call serves the
  lines up to the end of the array or up to the wrap of the ring, whichever part the position
  lies in. \<open>byte_source\<close> is the contract a reader relies on, from which reading to the end
  delivers everything.
\<close>

section \<open>The handler\<close>

text \<open>Where to start: the slot and the byte offset in it; \<open>byte_offset\<close> is a kernel block.\<close>

definition read_start :: "kmem \<Rightarrow> ptr \<Rightarrow> aesd_circular_buffer \<Rightarrow> u64 \<Rightarrow> (nat \<times> u64) res" where
  "read_start m byte_offset b pos =
     (if pos \<noteq> 0 then
        bnd (aesd_circular_buffer_find_entry_offset_for_fpos b pos) (\<lambda>(point_entry, off).
        bnd (block m byte_offset) (\<lambda>_.
          case point_entry of
            None \<Rightarrow> Inr (0, 0)
          | Some i \<Rightarrow>
              (case (List.find (\<lambda>j. j = i) [0..<MAXW], off) of
                 (Some j, Some q) \<Rightarrow> Inr (j, q)
               | _ \<Rightarrow> Inl Uninitialised)))
      else bnd (block m byte_offset) (\<lambda>_. Inr (unat (out_offs b), 0)))"

text \<open>Which run of slots one call serves.\<close>

definition read_stop :: "aesd_circular_buffer \<Rightarrow> nat \<Rightarrow> nat" where
  "read_stop b start_entry_index =
     (if \<not> full b then unat (in_offs b)
      else if unat (out_offs b) \<le> start_entry_index then MAXW
      else unat (out_offs b))"

text \<open>
  The result: heap, device, file position, return value, and the bytes handed to
  \<open>copy_to_user\<close>, which are \<open>count\<close> bytes of the block whatever was read into it. Every early
  return leaves the blocks allocated so far behind.
\<close>

definition aesd_read ::
  "kenv \<Rightarrow> kmem \<Rightarrow> aesd_dev \<Rightarrow> u64 \<Rightarrow> u64 \<Rightarrow> (kmem \<times> aesd_dev \<times> u64 \<times> int \<times> u8 list) res" where
  "aesd_read env m dev count pos =
     (let (m, tmp_buf) = kmalloc (alloc env) m count
      in if mutex dev then Inr (m, dev, pos, - ENOMEM, [])
         else if sint (total_size (buffer dev)) \<le> sint pos then Inr (m, dev, pos, 0, [])
         else
           let (m, byte_offset) = kmalloc (alloc env) m 8;
               pos = (if seek dev then seekto_position dev else pos);
               dev = dev\<lparr>seek := False\<rparr>
           in bnd (read_start m byte_offset (buffer dev) pos) (\<lambda>(start_entry_index, off).
              bnd (aesd_circular_buffer_read_helper (alloc env) m (buffer dev) start_entry_index
                     (read_stop (buffer dev) start_entry_index) tmp_buf count off) (\<lambda>(m, read_count).
                if relocked env then Inr (m, dev\<lparr>mutex := True\<rparr>, pos, - ENOMEM, [])
                else
                  bnd (if count = 0 then Inr [] else block m tmp_buf) (\<lambda>user.
                  bnd (kfree m byte_offset) (\<lambda>m.
                  bnd (kfree m tmp_buf) (\<lambda>m.
                    if sint pos < sint (total_size (buffer dev))
                    then Inr (m, dev, pos + read_count, sint read_count, user)
                    else Inr (m, dev, pos, 0, user)))))))"

section \<open>The specification on lines\<close>

text \<open>How many of the lines lie before the end of the array; the rest wrap to its start.\<close>

definition wrap_at :: "aesd_circular_buffer \<Rightarrow> nat" where
  "wrap_at b = (if full b then MAXW - unat (out_offs b) else unat (in_offs b))"

text \<open>
  The bytes one call returns at a position: from the line the position is in to the end of its
  run, cut to the request as the helper cuts it (None where the helper overruns).
\<close>

definition spec_read :: "nat \<Rightarrow> u8 list list \<Rightarrow> nat \<Rightarrow> nat \<Rightarrow> u8 list option" where
  "spec_read split ls count pos = (case locate (map length ls) pos of
     None \<Rightarrow> Some []
   | Some (i, q) \<Rightarrow>
       read_plan count q q 0 (drop i (if i < split then take split ls else ls)))"

section \<open>The window of slots holds the lines\<close>

lemma wrap_at_le: "cb_inv b \<Longrightarrow> wrap_at b \<le> length (entries b)"
  by (auto simp: wrap_at_def length_entries MAXW_eq dest: cb_invD)

text \<open>The end of the run of slots the \<open>i\<close>-th line is in, and the lines up to there.\<close>

lemma line_slot:
  assumes inv: "cb_inv b" and i: "i < length (entries b)"
  shows "read_stop b ((unat (out_offs b) + i) mod MAXW) =
      (unat (out_offs b) + i) mod MAXW + ((if i < wrap_at b then wrap_at b else length (entries b)) - i)"
proof (cases "full b")
  case True
  define k where "k = unat (out_offs b)"
  have k: "k < 10" and i: "i < 10"
    using cb_invD(3) [OF inv] i True by (simp_all add: k_def length_entries [OF inv] MAXW_eq)
  have "(k + i) mod 10 = (if i < 10 - k then k + i else k + i - 10)"
    using k i by (auto simp: mod_if)
  with True k i show ?thesis
    by (auto simp: read_stop_def wrap_at_def length_entries [OF inv] MAXW_eq k_def [symmetric])
next
  case False
  then show ?thesis
    using i cb_invD(2,5) [OF inv] by (simp add: read_stop_def wrap_at_def length_entries [OF inv])
qed

lemma lines_window:
  assumes inv: "dev_inv m d" and i: "i < length (lines m d)"
  defines "s \<equiv> (unat (out_offs (buffer d)) + i) mod MAXW"
    and "w \<equiv> wrap_at (buffer d)"
  shows "window m (buffer d) s (read_stop (buffer d) s)
    (drop i (if i < w then take w (lines m d) else lines m d))"
proof -
  note D = dev_invD [OF inv] and C = cb_invD [OF dev_invD(2) [OF inv]]
  let ?b = "buffer d" and ?cs = "drop i (if i < w then take w (lines m d) else lines m d)"
  have iE: "i < length (entries ?b)" using i by (simp add: length_lines)
  note slot = line_slot [OF D(2) iE, folded s_def w_def]
  have w: "w \<le> length (entries ?b)" using wrap_at_le [OF D(2)] by (simp add: w_def)
  have len: "length ?cs = read_stop ?b s - s"
    using slot w by (simp add: length_lines)
  have stop: "read_stop ?b s \<le> length (entry ?b)"
    using C by (auto simp: read_stop_def)
  have "stored m (entry ?b ! (s + j)) (?cs ! j)" if "j < length ?cs" for j
  proof -
    have j: "i + j < length (entries ?b)"
      using that w by (auto simp: length_lines split: if_splits)
    have cs: "?cs ! j = bytes_of m (entries ?b ! (i + j))"
      using that j by (auto simp: lines_def split: if_splits)
    have "s + j < MAXW" using that len stop C(1) by simp
    then have "(unat (out_offs ?b) + (i + j)) mod MAXW = s + j"
      by (metis add.assoc mod_add_left_eq mod_less s_def)
    then have "entries ?b ! (i + j) = entry ?b ! (s + j)"
      using nth_entries [OF D(2) j] by simp
    then show ?thesis using cs D(3) [OF nth_mem [OF j]] by simp
  qed
  then show ?thesis using len stop by (simp add: window_def)
qed

section \<open>The handler meets the specification\<close>

lemma read_start_spec:
  assumes inv: "dev_inv m d" and bop: "block m' byte_offset = Inr x"
    and loc: "locate (map length (lines m d)) (unat pos) = Some (i, q)" and sane: "findable d pos"
  shows "read_start m' byte_offset (buffer d) pos =
    Inr ((unat (out_offs (buffer d)) + i) mod MAXW, of_nat q)"
proof (cases "pos = 0")
  case True
  then have "i = 0 \<and> q = 0"
    using loc line_nonempty [OF inv] by (cases "lines m d") auto
  then show ?thesis
    using True bop cb_invD(3) [OF dev_invD(2) [OF inv]] by (simp add: read_start_def)
next
  case False
  let ?s = "(unat (out_offs (buffer d)) + i) mod MAXW"
  have "slots_sane (buffer d)" using sane False by simp
  moreover have "unat pos < sum_list (sizes (entries (buffer d)))"
    using loc locate_Some_iff [of "map length (lines m d)" "unat pos"] by (auto simp: sizes_lines [OF inv])
  ultimately have "\<not> sum_list (map esize (entry (buffer d))) \<le> pos"
    using entries_below_total [OF dev_invD(2) [OF inv]] slots_no_overflow [OF inv] by blast
  then have "aesd_circular_buffer_find_entry_offset_for_fpos (buffer d) pos = Inr (Some ?s, Some (of_nat q))"
    using find_entries [OF dev_invD(2) [OF inv] _ False] loc
    by (simp add: sizes_lines [OF inv])
  moreover have "List.find (\<lambda>j. j = ?s) [0..<MAXW] = Some ?s"
    by (simp add: find_Some_iff MAXW_eq) (rule exI [of _ ?s], simp add: MAXW_eq)
  ultimately show ?thesis using False bop by (simp add: read_start_def)
qed

lemma drop_lines_hd:
  assumes "locate (map length ls) p = Some (i, q)" and "split \<le> length ls"
  shows "drop i (if i < split then take split ls else ls) \<noteq> []"
    and "hd (drop i (if i < split then take split ls else ls)) = ls ! i"
    and "i < length ls" and "q < length (ls ! i)"
  using locate_bounds [OF assms(1)] assms(2) by (auto simp: hd_drop_conv_nth)

lemma stop_ge_start: "cb_inv b \<Longrightarrow> i < length (entries b) \<Longrightarrow>
    (unat (out_offs b) + i) mod MAXW \<le> read_stop b ((unat (out_offs b) + i) mod MAXW)"
  using line_slot le_add1 by metis

text \<open>The helper, called by the handler with its two blocks allocated.\<close>

lemma read_run:
  assumes inv: "dev_inv m d" and al: "good_alloc al" and t: "al m' count = Some (t, ts)"
    and loc: "locate (map length (lines m d)) p = Some (i, q)"
    and m': "m' = m(tb \<mapsto> junk, ob \<mapsto> ob')" and fresh: "m tb = None" "m ob = None" "tb \<noteq> ob"
    and junk: "length junk = unat count"
  shows "follows_plan (aesd_circular_buffer_read_helper al m' (buffer d)
      ((unat (out_offs (buffer d)) + i) mod MAXW)
      (read_stop (buffer d) ((unat (out_offs (buffer d)) + i) mod MAXW)) (Ref tb) count (of_nat q))
    m' t tb junk 0
    (spec_read (wrap_at (buffer d)) (lines m d) (unat count) p)"
proof -
  let ?s = "(unat (out_offs (buffer d)) + i) mod MAXW" and ?w = "wrap_at (buffer d)"
  let ?cs = "drop i (if i < ?w then take ?w (lines m d) else lines m d)"
  have w: "?w \<le> length (lines m d)"
    using wrap_at_le [OF dev_invD(2) [OF inv]] by (simp add: length_lines)
  note hd = drop_lines_hd [OF loc w]
  have "length (lines m d ! i) < 2 ^ 31" using line_small [OF inv] hd(3) by simp
  then have q: "unat (of_nat q :: u64) = q" using hd(4) by (intro unat_of_nat_u64) simp
  have win: "window m (buffer d) ?s (read_stop (buffer d) ?s) ?cs"
    using lines_window [OF inv hd(3)] .
  note out = window_outside_dead [OF win]
  have "window m' (buffer d) ?s (read_stop (buffer d) ?s) ?cs"
    unfolding m' using win out fresh by (intro window_frame) auto
  then have "follows_plan (aesd_circular_buffer_read_helper al m' (buffer d) ?s
      (read_stop (buffer d) ?s) (Ref tb) count (of_nat q)) m' t tb junk 0
      (read_plan (unat count) (unat (of_nat q :: u64)) (unat (of_nat q :: u64)) 0 ?cs)"
    using al t m' fresh junk hd q out stop_ge_start [OF dev_invD(2) [OF inv], of i]
    by (intro read_helper_plan) (auto simp: length_lines)
  moreover have "spec_read ?w (lines m d) (unat count) p = read_plan (unat count) q q 0 ?cs"
    using loc by (simp add: spec_read_def)
  ultimately show ?thesis by (simp add: q)
qed

lemma length_spec_read: "spec_read split ls count pos = Some bs \<Longrightarrow> length bs \<le> count"
  using length_read_plan [of count] by (fastforce simp: spec_read_def split: option.splits)

lemma read_cleanup:
  assumes "m tb = None" and "m ob = None" and "tb \<noteq> ob" and "t \<noteq> tb" and "t \<noteq> ob"
  shows "bnd (kfree (m(ob \<mapsto> b, t \<mapsto> c, tb \<mapsto> e)) (Ref ob)) (\<lambda>m. bnd (kfree m (Ref tb)) f) =
    f (m(t \<mapsto> c))"
proof -
  have "m(ob \<mapsto> b, t \<mapsto> c, tb \<mapsto> e, ob := None, tb := None) = m(t \<mapsto> c)"
    using assms by (auto simp: fun_eq_iff)
  then show ?thesis using assms by simp
qed

lemma sint_pos:
  fixes pos :: u64
  assumes inv: "dev_inv m d" and "unat pos < length (concat (lines m d))"
  shows "sint pos < sint (total_size (buffer d))"
proof -
  have "unat pos < 2 ^ 63" using assms content_small [OF inv] by simp
  then have "sint pos = int (unat pos)" by (rule sint_u64_small)
  then show ?thesis using assms(2) by (simp only: sint_total_size [OF inv] of_nat_less_iff)
qed

lemma aesd_read_spec:
  assumes inv: "dev_inv m d" and al: "good_alloc (alloc env)" "total_alloc (alloc env)"
    and free: "\<not> mutex d" "\<not> relocked env" and count: "unat count < 2 ^ 31"
    and pos: "unat pos < length (concat (lines m d))"
    and pos': "pos' = (if seek d then seekto_position d else pos)"
      "unat pos' < length (concat (lines m d))" and sane: "findable d pos'"
  shows "case spec_read (wrap_at (buffer d)) (lines m d) (unat count) (unat pos') of
      None \<Rightarrow> aesd_read env m d count pos = Inl OutOfBounds
    | Some bs \<Rightarrow> \<exists>t ts rest. m t = None \<and> length (bs @ rest) = unat count \<and>
        aesd_read env m d count pos =
          Inr (m(t \<mapsto> ts), d\<lparr>seek := False\<rparr>, pos' + of_nat (length bs), int (length bs), bs @ rest)"
proof -
  obtain i q where loc: "locate (map length (lines m d)) (unat pos') = Some (i, q)"
    using locate_lt pos'(2) by (metis length_concat)
  obtain tb junk where tb: "alloc env m count = Some (tb, junk)" "m tb = None" "length junk = unat count"
    using total_allocE [OF al(2,1) dev_invD(1) [OF inv] count] .
  let ?m1 = "m(tb \<mapsto> junk)"
  have "finite (dom ?m1)" "unat (8 :: u64) < 2 ^ 31" using dev_invD(1) [OF inv] by simp_all
  then obtain ob ob' where ob: "alloc env ?m1 8 = Some (ob, ob')" "?m1 ob = None"
    by (rule total_allocE [OF al(2,1)])
  let ?m2 = "?m1(ob \<mapsto> ob')"
  have "finite (dom ?m2)" using dev_invD(1) [OF inv] by simp
  then obtain t ts where t: "alloc env ?m2 count = Some (t, ts)" "?m2 t = None"
    by (rule total_allocE [OF al(2,1) _ count])
  have ne: "m ob = None" "tb \<noteq> ob" "t \<noteq> tb" "t \<noteq> ob" "m t = None"
    using tb(2) ob(2) t(2) by (auto split: if_splits)
  have start: "read_start ?m2 (Ref ob) (buffer d) pos' =
      Inr ((unat (out_offs (buffer d)) + i) mod MAXW, of_nat q)"
    by (rule read_start_spec [OF inv _ loc sane]) simp
  note run = read_run [OF inv al(1) t(1) loc refl tb(2) ne(1,2) tb(3)]
  have sp: "sint pos' < sint (total_size (buffer d))" "\<not> sint (total_size (buffer d)) \<le> sint pos"
    using sint_pos [OF inv pos] sint_pos [OF inv pos'(2)] by auto
  show ?thesis
  proof (cases "spec_read (wrap_at (buffer d)) (lines m d) (unat count) (unat pos')")
    case None
    then show ?thesis
      using run start sp free tb(1) ob(1) pos'(1) by (simp add: aesd_read_def Let_def follows_plan_def)
  next
    case (Some bs)
    then obtain ts' where helper: "aesd_circular_buffer_read_helper (alloc env) ?m2 (buffer d)
        ((unat (out_offs (buffer d)) + i) mod MAXW)
        (read_stop (buffer d) ((unat (out_offs (buffer d)) + i) mod MAXW)) (Ref tb) count (of_nat q) =
        Inr (?m2(t \<mapsto> ts', tb \<mapsto> blit junk 0 bs), of_nat (length bs))"
      using run by (auto simp: follows_plan_def)
    have len: "length bs \<le> unat count" using length_spec_read [OF Some] .
    have "sint (of_nat (length bs) :: u64) = int (length bs)"
      using len count by (subst sint_u64_small) (simp_all add: unat_of_nat_u64)
    then have "aesd_read env m d count pos = Inr (m(t \<mapsto> ts'), d\<lparr>seek := False\<rparr>,
        pos' + of_nat (length bs), int (length bs), if count = 0 then [] else blit junk 0 bs)"
      using start helper sp free tb(1) ob(1) pos'(1)
      by (simp add: aesd_read_def Let_def read_cleanup [OF tb(2) ne(1-4)])
    moreover have "blit junk 0 bs = bs @ drop (length bs) junk" by (simp add: blit_def)
    moreover have "count = 0 \<Longrightarrow> bs @ drop (length bs) junk = []" using len tb(3) by simp
    ultimately show ?thesis
      using Some ne(5) tb(3) len by (auto intro!: exI [of _ t] exI [of _ ts'])
  qed
qed

section \<open>What one call returns, in bytes\<close>

text \<open>The bytes left in the run a position is in.\<close>

definition run_left :: "nat \<Rightarrow> 'a list list \<Rightarrow> nat \<Rightarrow> nat" where
  "run_left split ls pos =
     (if pos < length (concat (take split ls)) then length (concat (take split ls))
      else length (concat ls)) - pos"

lemma locate_take:
  "locate (map length ls) p = Some (i, q) \<Longrightarrow> i < split \<Longrightarrow>
     locate (map length (take split ls)) p = Some (i, q)"
proof (induction ls arbitrary: p i split)
  case (Cons l ls)
  then obtain split' where "split = Suc split'" by (cases split) auto
  with Cons show ?case by (fastforce split: if_splits)
qed simp

lemma locate_run:
  assumes loc: "locate (map length ls) p = Some (i, q)"
  shows "i < split \<longleftrightarrow> p < length (concat (take split ls))"
proof
  assume "i < split"
  then show "p < length (concat (take split ls))"
    using locate_take [OF loc] locate_Some_iff by (metis length_concat)
next
  assume "p < length (concat (take split ls))"
  then obtain i' q' where "locate (map length (take split ls)) p = Some (i', q')"
    using locate_lt by (metis length_concat)
  moreover have "take split ls @ drop split ls = ls" by simp
  ultimately have "locate (map length ls) p = Some (i', q')"
    using locate_append [of "map length (take split ls)" p _ "map length (drop split ls)"]
    by (metis map_append)
  then have "i' = i" using loc by simp
  with \<open>locate (map length (take split ls)) p = Some (i', q')\<close> show "i < split"
    using locate_bounds by fastforce
qed

lemma read_plan_prefix:
  assumes "q < length c" and "\<forall>c \<in> set cs. c \<noteq> []"
  shows "read_plan count q q 0 (c # cs) =
    (if q = 0 \<or> count = 0 \<or> count + q \<le> length c \<or> length c < count \<and> length (concat (c # cs)) < count + q
     then Some (take count (drop q (concat (c # cs)))) else None)"
proof (cases "q = 0 \<or> count = 0")
  case True
  then show ?thesis using read_plan_aligned [of 0 count "c # cs"] by auto
next
  case False
  then show ?thesis using read_plan_inside' [of q c count cs] assms by auto
qed

lemma concat_take_prefix: "concat (take k ls) = take (length (concat (take k ls))) (concat ls)"
  by (metis append_eq_conv_conj append_take_drop_id concat_append)

lemma spec_read_eq:
  assumes loc: "locate (map length ls) pos = Some (i, q)" and ne: "\<forall>l \<in> set ls. l \<noteq> []"
  shows "spec_read split ls count pos =
    (if q = 0 \<or> count = 0 \<or> count + q \<le> length (ls ! i) \<or>
        length (ls ! i) < count \<and> run_left split ls pos < count
     then Some (take count (take (run_left split ls pos) (drop pos (concat ls)))) else None)"
proof -
  define X where "X = (if i < split then take split ls else ls)"
  have locX: "locate (map length X) pos = Some (i, q)"
    using loc locate_take by (auto simp: X_def)
  have iX: "i < length X" "q < length (X ! i)" using locate_bounds [OF locX] by auto
  have Xi: "X ! i = ls ! i" by (simp add: X_def)
  have run: "drop i X = X ! i # drop (Suc i) X" using iX(1) by (simp add: Cons_nth_drop_Suc)
  have neX: "\<forall>c \<in> set (drop (Suc i) X). c \<noteq> []"
    using ne by (auto simp: X_def dest!: in_set_dropD in_set_takeD split: if_splits)
  have left: "run_left split ls pos = length (concat X) - pos"
    using locate_run [OF loc, of split] by (auto simp: run_left_def X_def)
  have pre: "concat X = take (length (concat X)) (concat ls)"
    using concat_take_prefix [of split ls] by (auto simp: X_def)
  have rest: "drop pos (concat X) = drop q (concat (drop i X))"
    using drop_concat_locate [OF locX] iX(2) unfolding run by simp
  then have bytes: "take (run_left split ls pos) (drop pos (concat ls)) = drop q (concat (drop i X))"
    using pre left by (metis drop_take)
  have len: "length (concat (drop i X)) = q + run_left split ls pos"
  proof -
    have "length (concat (drop i X)) - q = length (concat X) - pos"
      using rest by (metis length_drop)
    moreover have "q \<le> length (concat (drop i X))" using iX(2) unfolding run by simp
    ultimately show ?thesis using left by simp
  qed
  have "spec_read split ls count pos = read_plan count q q 0 (X ! i # drop (Suc i) X)"
    using loc run by (simp add: spec_read_def X_def)
  then show ?thesis
    using read_plan_prefix [OF iX(2) neX, of count] len bytes Xi unfolding run [symmetric] by simp
qed

text \<open>A read leaves the device as it was and one block allocated: the helper's scratch block.\<close>

lemma aesd_read_bytes:
  assumes inv: "dev_inv m d" and al: "good_alloc (alloc env)" "total_alloc (alloc env)"
    and free: "\<not> mutex d" "\<not> relocked env" and count: "unat count < 2 ^ 31"
    and pos: "unat pos < length (concat (lines m d))"
    and pos': "pos' = (if seek d then seekto_position d else pos)"
    and loc: "locate (map length (lines m d)) (unat pos') = Some (i, q)" and sane: "findable d pos'"
  shows "if q = 0 \<or> unat count = 0 \<or> unat count + q \<le> length (lines m d ! i) \<or>
        length (lines m d ! i) < unat count \<and>
        run_left (wrap_at (buffer d)) (lines m d) (unat pos') < unat count
    then \<exists>m' t n rest. n = min (unat count) (run_left (wrap_at (buffer d)) (lines m d) (unat pos')) \<and>
        aesd_read env m d count pos = Inr (m', d\<lparr>seek := False\<rparr>, pos' + of_nat n, int n,
          take n (drop (unat pos') (concat (lines m d))) @ rest) \<and>
        unat pos' + n \<le> length (concat (lines m d)) \<and>
        n + length rest = unat count \<and>
        dev_inv m' (d\<lparr>seek := False\<rparr>) \<and> lines m' d = lines m d \<and> pending m' d = pending m d \<and>
        t \<notin> dom m \<and> dom m' = insert t (dom m)
    else aesd_read env m d count pos = Inl OutOfBounds"
proof -
  let ?w = "wrap_at (buffer d)" and ?ls = "lines m d"
  let ?left = "run_left ?w ?ls (unat pos')"
  have lt: "unat pos' < length (concat ?ls)"
    using loc locate_Some_iff by (metis length_concat)
  have ne: "\<forall>l \<in> set ?ls. l \<noteq> []" using line_nonempty [OF inv] by blast
  have wl: "length (concat (take ?w ?ls)) \<le> length (concat ?ls)"
    using concat_take_prefix [of ?w ?ls] by (metis length_take min.cobounded1)
  then have le: "unat pos' + ?left \<le> length (concat ?ls)" using lt by (auto simp: run_left_def)
  note spec = aesd_read_spec [OF inv al free count pos pos' lt sane]
  note eq = spec_read_eq [OF loc ne, of ?w "unat count"]
  let ?bs = "take (unat count) (take ?left (drop (unat pos') (concat ?ls)))"
  let ?n = "min (unat count) ?left"
  have bs: "?bs = take ?n (drop (unat pos') (concat ?ls))" by simp
  have len: "length ?bs = ?n" using le by simp
  show ?thesis
  proof (cases "spec_read ?w ?ls (unat count) (unat pos')")
    case None
    then show ?thesis using spec eq by (auto split: if_splits)
  next
    case (Some r)
    with eq have ok: "q = 0 \<or> unat count = 0 \<or> unat count + q \<le> length (?ls ! i) \<or>
        length (?ls ! i) < unat count \<and> ?left < unat count" and r: "r = ?bs"
      by (auto split: if_splits)
    from spec Some obtain t ts rest where t: "m t = None" and tot: "length (r @ rest) = unat count"
      and res: "aesd_read env m d count pos = Inr (m(t \<mapsto> ts), d\<lparr>seek := False\<rparr>,
        pos' + of_nat (length r), int (length r), r @ rest)"
      by auto
    have "n + length rest = unat count" if "n = ?n" for n
      using tot r len that by simp
    moreover have "aesd_read env m d count pos = Inr (m(t \<mapsto> ts), d\<lparr>seek := False\<rparr>,
        pos' + of_nat ?n, int ?n, take ?n (drop (unat pos') (concat ?ls)) @ rest)"
      using res unfolding r len bs [symmetric] .
    ultimately show ?thesis
      using ok le dev_inv_fresh [OF inv t] lines_fresh [OF inv t] pending_fresh [OF inv t] t
      unfolding if_P [OF ok]
      by (intro exI [of _ "m(t \<mapsto> ts)"] exI [of _ t] exI [of _ ?n] exI [of _ rest]) auto
  qed
qed

lemma aesd_read_no_seek:
  assumes "dev_inv m d" and "good_alloc (alloc env)" "total_alloc (alloc env)"
    and "\<not> mutex d" "\<not> relocked env" "\<not> seek d" and "unat count < 2 ^ 31"
    and loc: "locate (map length (lines m d)) (unat pos) = Some (i, q)"
    and n: "n = min (unat count) (run_left (wrap_at (buffer d)) (lines m d) (unat pos))"
    and "findable d pos"
  defines "ok \<equiv> q = 0 \<or> unat count = 0 \<or> unat count + q \<le> length (lines m d ! i) \<or>
      length (lines m d ! i) < unat count \<and> n < unat count"
  shows "ok \<Longrightarrow> \<exists>m' t rest. aesd_read env m d count pos = Inr (m', d, pos + of_nat n, int n,
      take n (drop (unat pos) (concat (lines m d))) @ rest) \<and> n + length rest = unat count \<and>
      dev_inv m' d \<and> lines m' d = lines m d \<and> pending m' d = pending m d \<and>
      t \<notin> dom m \<and> dom m' = insert t (dom m)"
    and "\<not> ok \<Longrightarrow> aesd_read env m d count pos = Inl OutOfBounds"
proof -
  have d: "d\<lparr>seek := False\<rparr> = d" using assms(6) by simp
  have p: "pos = (if seek d then seekto_position d else pos)" using assms(6) by simp
  have lt: "unat pos < length (concat (lines m d))"
    using loc locate_Some_iff by (metis length_concat)
  have "n < unat count \<longleftrightarrow> run_left (wrap_at (buffer d)) (lines m d) (unat pos) < unat count"
    unfolding n by (simp add: min_less_iff_disj)
  note H = aesd_read_bytes [OF assms(1-5,7) lt p loc assms(10), folded this n, unfolded d, folded ok_def]
  show "ok \<Longrightarrow> \<exists>m' t rest. aesd_read env m d count pos = Inr (m', d, pos + of_nat n, int n,
      take n (drop (unat pos) (concat (lines m d))) @ rest) \<and> n + length rest = unat count \<and>
      dev_inv m' d \<and> lines m' d = lines m d \<and> pending m' d = pending m d \<and>
      t \<notin> dom m \<and> dom m' = insert t (dom m)"
    using H by (simp only: if_True) blast
  show "\<not> ok \<Longrightarrow> aesd_read env m d count pos = Inl OutOfBounds"
    using H by simp
qed

lemma aesd_read_end:
  assumes inv: "dev_inv m d" and al: "good_alloc (alloc env)" and free: "\<not> mutex d"
    and pos: "length (concat (lines m d)) \<le> unat pos" "unat pos < 2 ^ 63"
  shows "\<exists>m'. aesd_read env m d count pos = Inr (m', d, pos, 0, []) \<and> dev_inv m' d \<and>
    lines m' d = lines m d \<and> pending m' d = pending m d"
proof -
  have "sint pos = int (unat pos)" using pos(2) by (rule sint_u64_small)
  then have "sint (total_size (buffer d)) \<le> sint pos"
    using pos(1) by (simp only: sint_total_size [OF inv] of_nat_le_iff)
  then show ?thesis
    using inv free al dev_inv_fresh lines_fresh pending_fresh
    by (cases "alloc env m count") (auto simp: aesd_read_def good_alloc_def split: prod.splits)
qed

section \<open>Reading to the end\<close>

text \<open>
  The contract a reader relies on: a read at a position below the end returns a nonempty piece
  of what follows, a read at the end returns nothing, and neither changes the content. The
  client reads until nothing comes back.
\<close>

fun read_to_end :: "nat \<Rightarrow> ('s \<Rightarrow> nat \<Rightarrow> ('s \<times> 'b list) option) \<Rightarrow> 's \<Rightarrow> nat \<Rightarrow> ('s \<times> 'b list) option" where
  "read_to_end 0 rd s pos = None"
| "read_to_end (Suc fuel) rd s pos = (case rd s pos of
     None \<Rightarrow> None
   | Some (s', bs) \<Rightarrow> if bs = [] then Some (s', [])
       else map_option (\<lambda>(s'', r). (s'', bs @ r)) (read_to_end fuel rd s' (pos + length bs)))"

locale byte_source =
  fixes rd :: "'s \<Rightarrow> nat \<Rightarrow> ('s \<times> 'b list) option"
    and content :: "'s \<Rightarrow> 'b list"
    and inv :: "'s \<Rightarrow> nat \<Rightarrow> bool"
  assumes rd_some: "inv s pos \<Longrightarrow> pos < length (content s) \<Longrightarrow>
      \<exists>s' bs. rd s pos = Some (s', bs) \<and> bs \<noteq> [] \<and> (\<exists>rest. drop pos (content s) = bs @ rest) \<and>
        inv s' (pos + length bs) \<and> content s' = content s"
    and rd_end: "inv s pos \<Longrightarrow> pos = length (content s) \<Longrightarrow>
      \<exists>s'. rd s pos = Some (s', []) \<and> inv s' pos \<and> content s' = content s"
begin

lemma read_to_end_content:
  "inv s pos \<Longrightarrow> pos \<le> length (content s) \<Longrightarrow> length (content s) - pos < fuel \<Longrightarrow>
     \<exists>s'. read_to_end fuel rd s pos = Some (s', drop pos (content s)) \<and>
       inv s' (length (content s)) \<and> content s' = content s"
proof (induction fuel arbitrary: s pos)
  case (Suc fuel)
  show ?case
  proof (cases "pos = length (content s)")
    case True
    then show ?thesis using rd_end [OF Suc.prems(1) True] by auto
  next
    case False
    then obtain s' bs rest where rd: "rd s pos = Some (s', bs)" "bs \<noteq> []" "inv s' (pos + length bs)" "content s' = content s"
      and split: "drop pos (content s) = bs @ rest"
      using rd_some [OF Suc.prems(1)] Suc.prems(2) by fastforce
    have rest: "drop (pos + length bs) (content s) = rest"
      using split by (metis add.commute append_eq_conv_conj drop_drop)
    have "length (drop pos (content s)) = length bs + length rest" using split by simp
    then have le: "pos + length bs \<le> length (content s')"
      using Suc.prems(2) rd(4) by simp
    have "length (content s') - (pos + length bs) < fuel"
      using rd(2,4) Suc.prems(2,3) le by (cases bs) auto
    from Suc.IH [OF rd(3) le this] obtain s'' where
      "read_to_end fuel rd s' (pos + length bs) = Some (s'', rest)" "inv s'' (length (content s))" "content s'' = content s"
      using rest rd(4) by auto
    with rd split show ?thesis by auto
  qed
qed simp

end

text \<open>
  The driver as such a source: a state is the kernel's answers, the size of the requests, the
  heap and the device, and a read that fails or faults returns None.
\<close>

type_synonym reader = "kenv \<times> u64 \<times> kmem \<times> aesd_dev"

fun device_read :: "reader \<Rightarrow> nat \<Rightarrow> (reader \<times> u8 list) option" where
  "device_read (env, count, m, d) pos = (case aesd_read env m d count (of_nat pos) of
     Inl _ \<Rightarrow> None
   | Inr (m', d', _, ret, user) \<Rightarrow>
       if ret < 0 then None else Some ((env, count, m', d'), take (nat ret) user))"

fun device_content :: "reader \<Rightarrow> u8 list" where
  "device_content (env, count, m, d) = concat (lines m d)"

text \<open>Readable with requests larger than all the device holds.\<close>

fun reader_ok :: "reader \<Rightarrow> bool" where
  "reader_ok (env, count, m, d) \<longleftrightarrow> dev_inv m d \<and> good_alloc (alloc env) \<and> total_alloc (alloc env) \<and>
     \<not> relocked env \<and> \<not> mutex d \<and> \<not> seek d \<and> unat count < 2 ^ 31 \<and>
     length (concat (lines m d)) < unat count"

text \<open>
  From 0 on, however the slots look: a ring that is not full is read whole in one call, and a
  full one has no slot left whose size is garbage.
\<close>

fun reader_at :: "reader \<Rightarrow> nat \<Rightarrow> bool" where
  "reader_at (env, count, m, d) pos \<longleftrightarrow> reader_ok (env, count, m, d) \<and>
     (pos = 0 \<or> pos = length (concat (lines m d)) \<or> slots_sane (buffer d))"

lemma locate_line_start:
  "k < length ls \<Longrightarrow> ls ! k \<noteq> [] \<Longrightarrow>
     locate (map length ls) (length (concat (take k ls))) = Some (k, 0)"
proof (induction ls arbitrary: k)
  case (Cons l ls)
  then show ?case by (cases k) auto
qed simp

lemma locate_inside_line:
  "k < length ls \<Longrightarrow> q < length (ls ! k) \<Longrightarrow>
     locate (map length ls) (length (concat (take k ls)) + q) = Some (k, q)"
proof (induction ls arbitrary: k)
  case (Cons l ls)
  then show ?case by (cases k) auto
qed simp

lemma run_left_pos:
  "p < length (concat ls) \<Longrightarrow> 0 < run_left split ls p \<and> p + run_left split ls p \<le> length (concat ls)"
proof -
  have "length (concat (take split ls)) \<le> length (concat ls)"
    using concat_take_prefix [of split ls] by (metis length_take min.cobounded1)
  then show "p < length (concat ls) \<Longrightarrow> ?thesis" by (auto simp: run_left_def)
qed

lemma run_left_not_full: "cb_inv (buffer d) \<Longrightarrow> \<not> full (buffer d) \<Longrightarrow>
    run_left (wrap_at (buffer d)) (lines m d) pos = length (concat (lines m d)) - pos"
  by (simp add: run_left_def wrap_at_def length_lines length_entries)

lemma device_read_some:
  assumes ok: "reader_at (env, count, m, d) pos" and pos: "pos < length (concat (lines m d))"
  shows "\<exists>m' bs. device_read (env, count, m, d) pos = Some ((env, count, m', d), bs) \<and> bs \<noteq> [] \<and>
    (\<exists>rest. drop pos (concat (lines m d)) = bs @ rest) \<and> dev_inv m' d \<and> lines m' d = lines m d \<and>
    (pos + length bs = length (concat (lines m d)) \<or> slots_sane (buffer d))"
proof -
  have inv: "dev_inv m d" and al: "good_alloc (alloc env)" "total_alloc (alloc env)"
    and free: "\<not> mutex d" "\<not> relocked env" and seek: "\<not> seek d" and count: "unat count < 2 ^ 31"
    and big: "length (concat (lines m d)) < unat count"
    using ok by auto
  have d: "d\<lparr>seek := False\<rparr> = d" using seek by simp
  have p: "unat (of_nat pos :: u64) = pos"
    using pos content_small [OF inv] by (intro unat_of_nat_u64) simp
  have sane: "findable d (of_nat pos)" using ok pos by auto
  have last: "pos + run_left (wrap_at (buffer d)) (lines m d) pos = length (concat (lines m d)) \<or>
      slots_sane (buffer d)"
    using ok pos full_slots_sane [OF inv] run_left_not_full [OF dev_invD(2) [OF inv], of m pos] by fastforce
  obtain i q where loc: "locate (map length (lines m d)) pos = Some (i, q)"
    using pos locate_lt by (metis length_concat)
  let ?n = "run_left (wrap_at (buffer d)) (lines m d) pos"
  have n: "0 < ?n" "pos + ?n \<le> length (concat (lines m d))" using run_left_pos [OF pos] by auto
  have "length (lines m d ! i) \<le> length (concat (lines m d))"
    using locate_bounds [OF loc] by (auto simp: length_concat intro!: member_le_sum_list)
  then have cond: "length (lines m d ! i) < unat count \<and> ?n < unat count" using big n by simp
  have m: "min (unat count) ?n = ?n" using cond by simp
  obtain m' rest where r: "aesd_read env m d count (of_nat pos) = Inr (m', d, of_nat pos + of_nat ?n, int ?n,
      take ?n (drop pos (concat (lines m d))) @ rest)" "dev_inv m' d" "lines m' d = lines m d"
    using aesd_read_bytes [OF inv al free count, of "of_nat pos" "of_nat pos" i q] pos seek loc cond sane
    by (auto simp: p m d)
  have len: "length (take ?n (drop pos (concat (lines m d)))) = ?n" using n by simp
  have "drop pos (concat (lines m d)) = take ?n (drop pos (concat (lines m d))) @ drop ?n (drop pos (concat (lines m d)))"
    by (simp only: append_take_drop_id)
  then have "\<exists>rest. drop pos (concat (lines m d)) = take ?n (drop pos (concat (lines m d))) @ rest" ..
  then show ?thesis
    using r n len last by (intro exI [of _ m'] exI [of _ "take ?n (drop pos (concat (lines m d)))"]) auto
qed

lemma device_read_end:
  assumes ok: "reader_ok (env, count, m, d)" and pos: "pos = length (concat (lines m d))"
  shows "\<exists>m'. device_read (env, count, m, d) pos = Some ((env, count, m', d), []) \<and>
    dev_inv m' d \<and> lines m' d = lines m d"
proof -
  have inv: "dev_inv m d" and al: "good_alloc (alloc env)" and free: "\<not> mutex d" using ok by auto
  have small: "pos < 2 ^ 35" using pos content_small [OF inv] by simp
  then have p: "unat (of_nat pos :: u64) = pos" by (intro unat_of_nat_u64) simp
  obtain m' where "aesd_read env m d count (of_nat pos) = Inr (m', d, of_nat pos, 0, [])"
      "dev_inv m' d" "lines m' d = lines m d"
    using aesd_read_end [OF inv al free, of "of_nat pos" count, unfolded p] small
    by (auto simp: pos [symmetric])
  then show ?thesis by simp
qed

interpretation device: byte_source device_read device_content reader_at
proof (unfold_locales)
  fix s :: reader and pos
  assume ok: "reader_at s pos" and pos: "pos < length (device_content s)"
  obtain env count m d where s: "s = (env, count, m, d)" by (cases s)
  obtain m' bs where "device_read s pos = Some ((env, count, m', d), bs)" "bs \<noteq> []"
    "\<exists>rest. drop pos (device_content s) = bs @ rest" "dev_inv m' d" "lines m' d = lines m d"
      "pos + length bs = length (concat (lines m d)) \<or> slots_sane (buffer d)"
    using device_read_some [of env count m d pos] ok pos by (auto simp: s)
  then show "\<exists>s' bs. device_read s pos = Some (s', bs) \<and> bs \<noteq> [] \<and>
      (\<exists>rest. drop pos (device_content s) = bs @ rest) \<and> reader_at s' (pos + length bs) \<and> device_content s' = device_content s"
    using ok by (auto simp: s)
next
  fix s :: reader and pos
  assume ok: "reader_at s pos" and pos: "pos = length (device_content s)"
  obtain env count m d where s: "s = (env, count, m, d)" by (cases s)
  obtain m' where "device_read s pos = Some ((env, count, m', d), [])" "dev_inv m' d" "lines m' d = lines m d"
    using device_read_end [of env count m d pos] ok pos by (auto simp: s)
  then show "\<exists>s'. device_read s pos = Some (s', []) \<and> reader_at s' pos \<and> device_content s' = device_content s"
    using ok by (auto simp: s)
qed

text \<open>What a whole run of reads leaves: the same device, and the same lines.\<close>

lemma device_read_keeps:
  assumes "device_read (env, count, m, d) pos = Some (s', bs)" and ok: "reader_at (env, count, m, d) pos"
    and pos: "pos \<le> length (concat (lines m d))"
  shows "\<exists>m'. s' = (env, count, m', d) \<and> reader_at s' (pos + length bs) \<and> lines m' d = lines m d \<and>
    pos + length bs \<le> length (concat (lines m d))"
proof (cases "pos < length (concat (lines m d))")
  case True
  obtain m' bs' where r: "device_read (env, count, m, d) pos = Some ((env, count, m', d), bs')"
      "dev_inv m' d" "lines m' d = lines m d"
      "pos + length bs' = length (concat (lines m d)) \<or> slots_sane (buffer d)" and split: "\<exists>rest. drop pos (concat (lines m d)) = bs' @ rest"
    using device_read_some [OF ok True] by blast
  have "length bs' \<le> length (concat (lines m d)) - pos"
    using split by (metis le_add1 length_append length_drop)
  with r assms True show ?thesis by auto
next
  case False
  have "reader_ok (env, count, m, d)" using ok by simp
  then show ?thesis using False device_read_end [of env count m d pos] assms by fastforce
qed

lemma device_reads_keep:
  "read_to_end fuel device_read (env, count, m, d) pos = Some (s', bs) \<Longrightarrow>
    reader_at (env, count, m, d) pos \<Longrightarrow> pos \<le> length (concat (lines m d)) \<Longrightarrow>
    \<exists>m'. s' = (env, count, m', d) \<and> dev_inv m' d \<and> lines m' d = lines m d"
proof (induction fuel arbitrary: m pos s' bs)
  case (Suc fuel)
  obtain s1 bs1 where r: "device_read (env, count, m, d) pos = Some (s1, bs1)"
    using Suc.prems(1) by (auto split: option.splits)
  obtain m1 where s1: "s1 = (env, count, m1, d)" "reader_at s1 (pos + length bs1)" "lines m1 d = lines m d"
      "pos + length bs1 \<le> length (concat (lines m d))"
    using device_read_keeps [OF r Suc.prems(2,3)] by blast
  show ?case
  proof (cases "bs1 = []")
    case True
    with Suc.prems(1) r have "s' = s1" by (simp del: device_read.simps)
    with s1 show ?thesis by auto
  next
    case False
    then obtain r2 where "read_to_end fuel device_read s1 (pos + length bs1) = Some (s', r2)"
      using Suc.prems(1) r by (auto simp del: device_read.simps)
    then show ?thesis using Suc.IH [of m1 "pos + length bs1" s' r2] s1 by auto
  qed
qed simp

lemma aesd_read_after_seek:
  assumes "dev_inv m d" and "good_alloc (alloc env)" "total_alloc (alloc env)"
    and "\<not> mutex d" "\<not> relocked env" "seek d" and "unat count < 2 ^ 31"
    and "unat pos < length (concat (lines m d))"
    and "k < length (lines m d)" and "unat (seekto_position d) = length (concat (take k (lines m d)))"
    and "n = min (unat count) (run_left (wrap_at (buffer d)) (lines m d) (unat (seekto_position d)))"
    and "findable d (seekto_position d)"
  shows "\<exists>m' rest. aesd_read env m d count pos = Inr (m', d\<lparr>seek := False\<rparr>,
      seekto_position d + of_nat n, int n,
      take n (drop (length (concat (take k (lines m d)))) (concat (lines m d))) @ rest) \<and>
    dev_inv m' d \<and> lines m' d = lines m d"
proof -
  have "lines m d ! k \<noteq> []" using line_nonempty assms(1,9) by simp
  then have loc: "locate (map length (lines m d)) (unat (seekto_position d)) = Some (k, 0)"
    unfolding assms(10) using locate_line_start assms(9) by blast
  have p: "seekto_position d = (if seek d then seekto_position d else pos)" using assms(6) by simp
  show ?thesis
    using aesd_read_bytes [OF assms(1-5,7,8) p loc assms(12)] unfolding assms(11) assms(10) [symmetric]
    by (simp only: simp_thms if_True) fastforce
qed

section \<open>The properties of reading\<close>

definition demo_env :: kenv where
  "demo_env = \<lparr>alloc = bump, from_user = (\<lambda>bs. (0, bs)), low_byte = (\<lambda>_. 0), relocked = False\<rparr>"

definition demo_dev :: aesd_dev where
  "demo_dev = \<lparr>mutex = False, buffer = demo_two, partial_entry = \<lparr>buffptr = Null, esize = 0\<rparr>,
     partial = False, seekto_position = 0, seek = False, mutex_block = Null, buffer_block = Null,
     partial_entry_block = Null\<rparr>"

lemma demo_entries: "entries demo_two = [\<lparr>buffptr = Ref 0, esize = 3\<rparr>, \<lparr>buffptr = Ref 1, esize = 2\<rparr>]"
  by (simp add: entries_def demo_two_def)

lemma demo_lines: "lines demo_mem demo_dev = [[97, 98, 10], [99, 10]]"
  by (simp add: lines_def demo_dev_def demo_entries bytes_of_def demo_mem_def)

lemma demo_inv: "dev_inv demo_mem demo_dev"
  unfolding dev_inv_def demo_lines
  by (auto simp: cb_inv_def demo_entries demo_dev_def owned_def stored_def bytes_of_def demo_mem_def)
    (auto simp: demo_two_def MAXW_eq)

lemma demo_sane [simp]: "slots_sane demo_two"
  by (simp add: slots_sane_def demo_two_def)

lemma demo_env_simps [simp]: "alloc demo_env = bump" "relocked demo_env = False"
  by (simp_all add: demo_env_def)

lemma demo_dev_simps [simp]: "mutex demo_dev = False" "seek demo_dev = False" "partial demo_dev = False"
  "buffer demo_dev = demo_two"
  by (simp_all add: demo_dev_def)

text \<open>
  A read that starts at the beginning of a line returns the bytes of the lines from there up
  to the end of the array or the wrap of the ring, cut to the request, moves the position past
  them and leaves the device as it was. A position other than 0 asks for slots whose recorded
  sizes are sane, held or not.
\<close>

theorem aesd_read_serves_run:
  assumes "dev_inv m d" and "good_alloc (alloc env)" "total_alloc (alloc env)"
    and "\<not> mutex d" "\<not> relocked env" "\<not> seek d" and "unat count < 2 ^ 31"
    and "k < length (lines m d)" and "unat pos = length (concat (take k (lines m d)))"
    and "n = min (unat count) (run_left (wrap_at (buffer d)) (lines m d) (unat pos))"
    and "pos = 0 \<or> slots_sane (buffer d)"
  shows "\<exists>m' rest. aesd_read env m d count pos = Inr (m', d, pos + of_nat n, int n,
      take n (drop (unat pos) (concat (lines m d))) @ rest) \<and>
    dev_inv m' d \<and> lines m' d = lines m d \<and> pending m' d = pending m d"
proof -
  have "lines m d ! k \<noteq> []" using line_nonempty assms(1,8) by simp
  then have loc: "locate (map length (lines m d)) (unat pos) = Some (k, 0)"
    unfolding assms(9) using locate_line_start assms(8) by blast
  show ?thesis
    using aesd_read_no_seek(1) [OF assms(1-7) loc assms(10,11)] by auto
qed

text \<open>The second of two lines is read on its own by a four-byte request.\<close>

theorem aesd_read_serves_run_witness:
  "\<exists>m' rest. aesd_read demo_env demo_mem demo_dev 4 3 = Inr (m', demo_dev, 5, 2, [99, 10] @ rest) \<and>
     dev_inv m' demo_dev"
proof -
  have "wrap_at demo_two = 2" by (simp add: wrap_at_def demo_two_def)
  then show ?thesis
    using aesd_read_serves_run [OF demo_inv, of demo_env 4 1 3 2] good_alloc_bump total_alloc_bump
    by (fastforce simp: demo_lines run_left_def)
qed

text \<open>
  A read from inside a line is right when the request ends inside that line, or is larger
  than the line and than all that is left of the run; any other request makes it run out of the
  bounds of a kernel block.
\<close>

theorem aesd_read_inside_line:
  assumes "dev_inv m d" and "good_alloc (alloc env)" "total_alloc (alloc env)"
    and "\<not> mutex d" "\<not> relocked env" "\<not> seek d" and "unat count < 2 ^ 31" "0 < unat count"
    and "k < length (lines m d)" and "0 < q" "q < length (lines m d ! k)"
    and "unat pos = length (concat (take k (lines m d))) + q"
    and "n = min (unat count) (run_left (wrap_at (buffer d)) (lines m d) (unat pos))"
    and "slots_sane (buffer d)"
  shows "if unat count + q \<le> length (lines m d ! k) \<or>
      length (lines m d ! k) < unat count \<and> n < unat count
    then \<exists>m' rest. aesd_read env m d count pos = Inr (m', d, pos + of_nat n, int n,
      take n (drop (unat pos) (concat (lines m d))) @ rest) \<and> dev_inv m' d \<and> lines m' d = lines m d
    else aesd_read env m d count pos = Inl OutOfBounds"
proof -
  have loc: "locate (map length (lines m d)) (unat pos) = Some (k, q)"
    unfolding assms(12) using assms(9,11) by (rule locate_inside_line)
  let ?c = "unat count + q \<le> length (lines m d ! k) \<or> length (lines m d ! k) < unat count \<and> n < unat count"
  have c: "(q = 0 \<or> unat count = 0 \<or> ?c) \<longleftrightarrow> ?c" using assms(8,10) by auto
  show ?thesis
    using aesd_read_no_seek [OF assms(1-7) loc assms(13) disjI2 [OF assms(14)]] by (simp only: c) (cases ?c, auto)
qed

text \<open>Two bytes requested from offset two of the first line "ab" overrun it.\<close>

theorem aesd_read_inside_line_witness:
  "aesd_read demo_env demo_mem demo_dev 2 2 = Inl OutOfBounds"
proof -
  have n: "2 = min (unat (2 :: u64)) (run_left (wrap_at (buffer demo_dev)) (lines demo_mem demo_dev) (unat (2 :: u64)))"
    unfolding demo_lines by (simp add: wrap_at_def demo_two_def run_left_def)
  have "\<not> (unat (2 :: u64) + 2 \<le> length (lines demo_mem demo_dev ! 0) \<or>
      length (lines demo_mem demo_dev ! 0) < unat (2 :: u64) \<and> 2 < unat (2 :: u64))"
    unfolding demo_lines by simp
  moreover have "0 < length (lines demo_mem demo_dev)" "2 < length (lines demo_mem demo_dev ! 0)"
      "unat (2 :: u64) = length (concat (take 0 (lines demo_mem demo_dev))) + 2"
    unfolding demo_lines by simp_all
  ultimately show ?thesis
    using aesd_read_inside_line [OF demo_inv _ _ _ _ _ _ _ _ _ _ _ n, of demo_env 0 2]
    by (simp only: if_False) (simp add: good_alloc_bump total_alloc_bump)
qed

text \<open>
  A read at or past the end of the data returns 0 and no bytes, changes nothing the device
  stands for and keeps a pending seek.
\<close>

theorem aesd_read_end_of_file:
  assumes "dev_inv m d" and "good_alloc (alloc env)" and "\<not> mutex d"
    and "length (concat (lines m d)) \<le> unat pos" "unat pos < 2 ^ 63"
  shows "\<exists>m'. aesd_read env m d count pos = Inr (m', d, pos, 0, []) \<and> dev_inv m' d \<and>
    lines m' d = lines m d \<and> pending m' d = pending m d"
  using assms by (rule aesd_read_end)

theorem aesd_read_end_of_file_witness:
  "\<exists>m'. aesd_read demo_env demo_mem demo_dev 4 5 = Inr (m', demo_dev, 5, 0, [])"
  using aesd_read_end_of_file [OF demo_inv, of demo_env 5 4] good_alloc_bump
  by (fastforce simp: demo_lines)

text \<open>
  The first read after a seek reads at the sought position instead of its own, and clears
  the seek: at the start of the \<open>k\<close>-th line held it returns the run from there, provided the
  file position the caller came with was not at the end of the data.
\<close>

theorem aesd_read_honours_seek:
  assumes "dev_inv m d" and "good_alloc (alloc env)" "total_alloc (alloc env)"
    and "\<not> mutex d" "\<not> relocked env" "seek d" and "unat count < 2 ^ 31"
    and "unat pos < length (concat (lines m d))"
    and "k < length (lines m d)" and "unat (seekto_position d) = length (concat (take k (lines m d)))"
    and "n = min (unat count) (run_left (wrap_at (buffer d)) (lines m d) (unat (seekto_position d)))"
    and "seekto_position d = 0 \<or> slots_sane (buffer d)"
  shows "\<exists>m' rest. aesd_read env m d count pos = Inr (m', d\<lparr>seek := False\<rparr>,
      seekto_position d + of_nat n, int n,
      take n (drop (length (concat (take k (lines m d)))) (concat (lines m d))) @ rest) \<and>
    dev_inv m' d \<and> lines m' d = lines m d"
  by (rule aesd_read_after_seek [OF assms])

theorem aesd_read_honours_seek_witness:
  "\<exists>m' rest. aesd_read demo_env demo_mem (demo_dev\<lparr>seekto_position := 3, seek := True\<rparr>) 4 1 =
     Inr (m', demo_dev\<lparr>seekto_position := 3\<rparr>, 5, 2, [99, 10] @ rest) \<and> dev_inv m' demo_dev"
proof -
  let ?d = "demo_dev\<lparr>seekto_position := 3, seek := True\<rparr>"
  have inv: "dev_inv demo_mem ?d" and l: "lines demo_mem ?d = [[97, 98, 10], [99, 10]]"
    using demo_inv demo_lines by simp_all
  have n: "2 = min (unat (4 :: u64)) (run_left (wrap_at (buffer ?d)) (lines demo_mem ?d) (unat (seekto_position ?d)))"
    unfolding l by (simp add: wrap_at_def demo_two_def run_left_def)
  show ?thesis
    using aesd_read_honours_seek [OF inv _ _ _ _ _ _ _ _ _ n, of demo_env 1 1] unfolding l
    by (fastforce simp: good_alloc_bump total_alloc_bump)
qed

text \<open>
  C13. Reading until nothing comes back, with requests larger than the data, delivers the lines
  held by the device, oldest first, whole and in order, also when the ring has wrapped and one
  read stops at the wrap.
\<close>

theorem reading_to_the_end_delivers_all:
  assumes "dev_inv m d" and "good_alloc (alloc env)" "total_alloc (alloc env)"
    and "\<not> mutex d" "\<not> relocked env" "\<not> seek d" and "unat count < 2 ^ 31"
    and "length (concat (lines m d)) < unat count" and "length (concat (lines m d)) < fuel"
  shows "\<exists>m'. read_to_end fuel device_read (env, count, m, d) 0 =
      Some ((env, count, m', d), concat (lines m d)) \<and> dev_inv m' d \<and> lines m' d = lines m d"
proof -
  have at: "reader_at (env, count, m, d) 0" using assms by simp
  obtain s' where s': "read_to_end fuel device_read (env, count, m, d) 0 = Some (s', concat (lines m d))"
    using device.read_to_end_content [OF at, of fuel] assms(9) by (auto simp del: reader_at.simps)
  from device_reads_keep [OF s' at] show ?thesis using s' by auto
qed

text \<open>A full ring that has wrapped: the line in the last slot is the oldest of the ten.\<close>

definition wrapped_mem :: kmem where
  "wrapped_mem = (\<lambda>a. if a < 10 then Some [of_nat a + 65, 10] else None)"

definition wrapped_dev :: aesd_dev where
  "wrapped_dev = demo_dev\<lparr>buffer := \<lparr>entry = map (\<lambda>a. \<lparr>buffptr = Ref a, esize = 2\<rparr>) [0..<10],
     in_offs = 9, out_offs = 9, full = True, total_size = 20\<rparr>\<rparr>"

lemma wrapped_entries: "entries (buffer wrapped_dev) = map (\<lambda>a. \<lparr>buffptr = Ref a, esize = 2\<rparr>) (9 # [0..<9])"
  by (simp add: wrapped_dev_def entries_def ring_def upt_rec)

lemma wrapped_lines: "lines wrapped_mem wrapped_dev = map (\<lambda>a. [of_nat a + 65, 10]) (9 # [0..<9])"
  unfolding lines_def wrapped_entries by (simp add: bytes_of_def wrapped_mem_def)

lemma wrapped_inv: "dev_inv wrapped_mem wrapped_dev"
proof -
  have "finite (dom wrapped_mem)"
    by (rule finite_subset [of _ "{..<10}"]) (auto simp: wrapped_mem_def split: if_splits)
  moreover have "cb_inv (buffer wrapped_dev)"
    unfolding cb_inv_def wrapped_entries by (simp add: wrapped_dev_def MAXW_eq upt_rec)
  moreover have "\<not> partial wrapped_dev" by (simp add: wrapped_dev_def)
  moreover have "stored wrapped_mem e (bytes_of wrapped_mem e)" if "e \<in> set (entries (buffer wrapped_dev))" for e
  proof -
    have "\<exists>a < 10. e = \<lparr>buffptr = Ref a, esize = 2\<rparr>"
      using that unfolding wrapped_entries by fastforce
    then obtain a where "a < 10" "e = \<lparr>buffptr = Ref a, esize = 2\<rparr>" by blast
    then show ?thesis by (simp add: stored_def bytes_of_def wrapped_mem_def)
  qed
  moreover have "distinct (map buffptr (entries (buffer wrapped_dev)))"
    unfolding wrapped_entries by (simp add: upt_rec)
  moreover have "\<forall>l \<in> set (lines wrapped_mem wrapped_dev). last l = newline"
    unfolding wrapped_lines by auto
  ultimately show ?thesis by (auto simp: dev_inv_def owned_def)
qed

lemma wrapped_content: "concat (lines wrapped_mem wrapped_dev) =
    [74, 10, 65, 10, 66, 10, 67, 10, 68, 10, 69, 10, 70, 10, 71, 10, 72, 10, 73, 10]"
  unfolding wrapped_lines by (simp add: upt_rec)

text \<open>Its twenty bytes come out in order although the first read returns only two.\<close>

theorem reading_to_the_end_delivers_all_witness:
  "\<exists>m'. read_to_end 21 device_read (demo_env, 64, wrapped_mem, wrapped_dev) 0 =
     Some ((demo_env, 64, m', wrapped_dev),
       [74, 10, 65, 10, 66, 10, 67, 10, 68, 10, 69, 10, 70, 10, 71, 10, 72, 10, 73, 10])"
proof -
  have "\<not> mutex wrapped_dev" "\<not> seek wrapped_dev" by (simp_all add: wrapped_dev_def)
  moreover have "length (concat (lines wrapped_mem wrapped_dev)) = 20" unfolding wrapped_content by simp
  ultimately show ?thesis
    using reading_to_the_end_delivers_all [OF wrapped_inv, of demo_env 64 21, unfolded wrapped_content]
      good_alloc_bump total_alloc_bump by auto
qed

text \<open>
  Every read below the end of the data leaves one more block allocated than it found: the scratch
  block of the read helper. The block is the caller's number of bytes long.
\<close>

theorem aesd_read_leaks_scratch:
  assumes "dev_inv m d" and "good_alloc (alloc env)" "total_alloc (alloc env)"
    and "\<not> mutex d" "\<not> relocked env" "\<not> seek d" and "unat count < 2 ^ 31"
    and "unat pos < length (concat (lines m d))"
    and "aesd_read env m d count pos = Inr (m', d', pos', ret, user)"
    and "pos = 0 \<or> slots_sane (buffer d)"
  shows "card (dom m') = card (dom m) + 1"
proof -
  obtain i q where loc: "locate (map length (lines m d)) (unat pos) = Some (i, q)"
    using assms(8) locate_lt by (metis length_concat)
  have ok: "q = 0 \<or> unat count = 0 \<or> unat count + q \<le> length (lines m d ! i) \<or>
      length (lines m d ! i) < unat count \<and>
      min (unat count) (run_left (wrap_at (buffer d)) (lines m d) (unat pos)) < unat count"
    using aesd_read_no_seek(2) [OF assms(1-7) loc refl assms(10)] assms(9) by (rule_tac ccontr) simp
  obtain t where "t \<notin> dom m" "dom m' = insert t (dom m)"
    using aesd_read_no_seek(1) [OF assms(1-7) loc refl assms(10) ok] assms(9) by fastforce
  then show ?thesis using dev_invD(1) [OF assms(1)] by simp
qed

text \<open>Three blocks are live before a read of the second line, and four after it.\<close>

theorem aesd_read_leaks_scratch_witness:
  "\<exists>m' user. aesd_read demo_env demo_mem demo_dev 4 3 = Inr (m', demo_dev, 5, 2, user) \<and>
     card (dom demo_mem) = 3 \<and> card (dom m') = 4"
proof -
  have "run_left (wrap_at demo_two) [[97, 98, 10], [99, 10 :: u8]] 3 = 2"
    by (simp add: wrap_at_def demo_two_def run_left_def)
  then obtain m' user where r: "aesd_read demo_env demo_mem demo_dev 4 3 = Inr (m', demo_dev, 5, 2, user)"
    using aesd_read_no_seek(1) [OF demo_inv, of demo_env 4 3 1 0 2]
    by (fastforce simp: demo_lines good_alloc_bump total_alloc_bump)
  have "dom demo_mem = {0, 1, 2}" by (auto simp: demo_mem_def split: if_splits)
  then have "card (dom demo_mem) = 3" by simp
  moreover have "card (dom m') = card (dom demo_mem) + 1"
    using aesd_read_leaks_scratch [OF demo_inv _ _ _ _ _ _ _ r]
    by (simp add: demo_lines good_alloc_bump total_alloc_bump)
  ultimately show ?thesis using r by auto
qed

end
