(* ===== verification/Aesd_Write.thy ===== *)
theory Aesd_Write
  imports Aesd_Read
begin

text \<open>
  \<open>aesd_write\<close> of \<open>main.c\<close>, and its specification on lines: bytes are appended to the pending
  line, and a pending line that ends in a newline moves into the log of the last ten. The
  handler refines it when no line is pending; when one is, the handler frees the block it goes
  on to use, and refines it exactly when the allocator hands that block back at once.
\<close>

section \<open>The handler\<close>

text \<open>
  The loops \<open>for (i = 0; i < n; i++) dst[at + i] = src[i]\<close> from counter \<open>i\<close> on. The counter is a
  \<open>uint\<close>: at \<open>2^32\<close> it is back at 0 and the loop repeats itself for ever.
\<close>

function copy_loop :: "kmem \<Rightarrow> ptr \<Rightarrow> ptr \<Rightarrow> nat \<Rightarrow> nat \<Rightarrow> nat \<Rightarrow> kmem res" where
  "copy_loop m src dst at n i =
     (if i < n then
        if i = 2 ^ 32 then Inl Diverges
        else bnd (load m src i) (\<lambda>c. bnd (store m dst (at + i) c) (\<lambda>m. copy_loop m src dst at n (Suc i)))
      else Inr m)"
  by pat_completeness auto
termination by (relation "measure (\<lambda>(m, src, dst, at, n, i). n - i)") auto

declare copy_loop.simps [simp del]

text \<open>
  The branch for a pending line: join it and the new bytes in \<open>tmp\<close>, free \<open>data\<close>, store the
  low byte of a new block's address at \<open>*data\<close>, and copy \<open>tmp\<close> to \<open>data\<close>.
\<close>

definition join_partial ::
  "kenv \<Rightarrow> kmem \<Rightarrow> aesd_buffer_entry \<Rightarrow> ptr \<Rightarrow> ptr \<Rightarrow> u64 \<Rightarrow> (kmem \<times> u64) res" where
  "join_partial env m pe data tmp count =
     bnd (copy_loop m (buffptr pe) tmp 0 (unat (esize pe)) 0) (\<lambda>m.
     bnd (copy_loop m data tmp (unat (esize pe)) (unat count) 0) (\<lambda>m.
     bnd (kfree m data) (\<lambda>m.
       let (m, fresh) = kmalloc (alloc env) m (count + esize pe)
       in bnd (store m data 0 (low_byte env fresh)) (\<lambda>m.
          let write_size = count + esize pe
          in bnd (copy_loop m tmp data 0 (nat (sint write_size)) 0) (\<lambda>m. Inr (m, write_size))))))"

text \<open>\<open>copy_from_user(data, buf, count)\<close>, whose result the handler logs and ignores.\<close>

definition copy_in :: "kenv \<Rightarrow> kmem \<Rightarrow> ptr \<Rightarrow> u8 list \<Rightarrow> kmem res" where
  "copy_in env m data buf = (case data of
     Null \<Rightarrow> Inl NullDeref
   | Ref a \<Rightarrow> bnd (block m data) (\<lambda>_. Inr (m(a \<mapsto> snd (from_user env buf)))))"

text \<open>
  What becomes of the bytes: an entry of the ring if they end in a newline, the pending line
  if not. The ring takes a copy of \<open>*add_entry\<close>, whose block stays behind.
\<close>

definition finish_line ::
  "kmem \<Rightarrow> aesd_dev \<Rightarrow> ptr \<Rightarrow> ptr \<Rightarrow> u64 \<Rightarrow> (kmem \<times> aesd_dev) res" where
  "finish_line m dev add_entry data write_size =
     bnd (load_signed m data (sint write_size - 1)) (\<lambda>c.
       if c \<noteq> newline then
         bnd (kfree m add_entry) (\<lambda>m.
           Inr (m, dev\<lparr>partial := True, partial_entry := \<lparr>buffptr = data, esize = write_size\<rparr>\<rparr>))
       else
         bnd (block m add_entry) (\<lambda>_.
         bnd (aesd_circular_buffer_add_entry (buffer dev) \<lparr>buffptr = data, esize = write_size\<rparr>) (\<lambda>b.
           Inr (m, dev\<lparr>partial := False, buffer := b\<rparr>))))"

text \<open>The result: heap, device and return value. Early returns leave their blocks behind.\<close>

definition aesd_write :: "kenv \<Rightarrow> kmem \<Rightarrow> aesd_dev \<Rightarrow> u8 list \<Rightarrow> (kmem \<times> aesd_dev \<times> int) res" where
  "aesd_write env m dev buf =
     (let count = of_nat (length buf);
          (m, add_entry) = kmalloc (alloc env) m 16;
          (m, data) = kmalloc (alloc env) m count;
          (m, tmp) = kmalloc (alloc env) m (count + esize (partial_entry dev))
      in bnd (copy_in env m data buf) (\<lambda>m.
         if mutex dev then Inr (m, dev, - ENOMEM)
         else
           bnd (if partial dev then join_partial env m (partial_entry dev) data tmp count
                else Inr (m, count)) (\<lambda>(m, write_size).
           bnd (finish_line m dev add_entry data write_size) (\<lambda>(m, dev).
             if relocked env then Inr (m, dev\<lparr>mutex := True\<rparr>, - ENOMEM)
             else bnd (kfree m tmp) (\<lambda>m. Inr (m, dev, sint count))))))"

section \<open>The specification\<close>

text \<open>The state a user sees: the lines held and the pending line.\<close>

definition spec_write :: "u8 list list \<times> u8 list \<Rightarrow> u8 list \<Rightarrow> u8 list list \<times> u8 list" where
  "spec_write s buf = (case s of (ls, p) \<Rightarrow>
     if last (p @ buf) = newline then (lastn MAXW (ls @ [p @ buf]), []) else (ls, p @ buf))"

definition view :: "kmem \<Rightarrow> aesd_dev \<Rightarrow> u8 list list \<times> u8 list" where
  "view m d = (lines m d, pending m d)"

section \<open>Copying\<close>

lemma copy_loop_live:
  assumes "m s = Some ss" and "m d = Some ds" and "s \<noteq> d"
    and "i \<le> n" and "n \<le> length ss" and "at + n \<le> length ds" and "n < 2 ^ 32"
  shows "copy_loop m (Ref s) (Ref d) at n i =
    Inr (m(d \<mapsto> blit ds (at + i) (drop i (take n ss))))"
  using assms
proof (induction "n - i" arbitrary: i m ds)
  case 0
  then have "i = n" by simp
  with 0 show ?case by (simp add: copy_loop.simps map_upd_triv)
next
  case (Suc k)
  then have i: "i < n" "i \<noteq> 2 ^ 32" by simp_all
  let ?m = "m(d \<mapsto> ds[at + i := ss ! i])"
  have "copy_loop m (Ref s) (Ref d) at n i = copy_loop ?m (Ref s) (Ref d) at n (Suc i)"
    using i Suc.prems by (subst copy_loop.simps) simp
  also have "\<dots> = Inr (?m(d \<mapsto> blit (ds[at + i := ss ! i]) (at + Suc i) (drop (Suc i) (take n ss))))"
    using Suc.hyps(2) i Suc.prems by (intro Suc.hyps(1)) auto
  also have "?m(d \<mapsto> blit (ds[at + i := ss ! i]) (at + Suc i) (drop (Suc i) (take n ss))) =
      m(d \<mapsto> blit ds (at + i) (ss ! i # drop (Suc i) (take n ss)))"
    using i Suc.prems(5,6) by (subst blit_Cons) simp_all
  also have "ss ! i # drop (Suc i) (take n ss) = drop i (take n ss)"
    using i Suc.prems(5) by (metis Cons_nth_drop_Suc length_take min.absorb2 nth_take)
  finally show ?case .
qed

section \<open>Finishing a line\<close>

lemma add_entry_keeps_slots:
  assumes "aesd_circular_buffer_add_entry b e = Inr b'" and "x \<in> set (entry b')"
  shows "x \<in> set (entry b) \<or> x = e"
  using assms
  by (auto simp: aesd_circular_buffer_add_entry_def entry_at_def split: if_splits
      dest!: subsetD [OF set_update_subset_insert])

lemma add_entry_sane:
  "aesd_circular_buffer_add_entry b e = Inr b' \<Longrightarrow> slots_sane b \<Longrightarrow> unat (esize e) < 2 ^ 60 \<Longrightarrow> slots_sane b'"
  using add_entry_keeps_slots unfolding slots_sane_def by blast

text \<open>
  \<open>l\<close> is a block the device does not own yet, and \<open>add_entry\<close> another; the device has no pending
  line, or its pending line is part of \<open>l\<close>.
\<close>

lemma finish_line_spec:
  assumes inv: "dev_inv m (d\<lparr>partial := False\<rparr>)"
    and x: "m x = Some l" "l \<noteq> []" "length l < 2 ^ 31" "unat ws = length l"
      "\<forall>en \<in> set (entries (buffer d)). buffptr en \<noteq> Ref x"
    and e: "m e = Some eb" "e \<noteq> x" "\<forall>en \<in> set (entries (buffer d)). buffptr en \<noteq> Ref e"
  shows "\<exists>m' d'. finish_line m d (Ref e) (Ref x) ws = Inr (m', d') \<and> dev_inv m' d' \<and>
    view m' d' = (if last l = newline then (lastn MAXW (lines m d @ [l]), []) else (lines m d, l)) \<and>
    mutex d' = mutex d \<and> seek d' = seek d \<and> m' = (if last l = newline then m else m(e := None)) \<and>
    (\<forall>a. a \<noteq> x \<longrightarrow> unowned (d\<lparr>partial := False\<rparr>) a \<longrightarrow> unowned d' a)"
proof -
  let ?d0 = "d\<lparr>partial := False\<rparr>" and ?en = "\<lparr>buffptr = Ref x, esize = ws\<rparr>"
  note D = dev_invD [OF inv]
  have ws: "sint ws = int (length l)" using x(3,4) sint_u64_small [of ws] by simp
  then have ld: "load_signed m (Ref x) (sint ws - 1) = Inr (last l)"
    using x(1,2) by (auto simp: load_signed_def last_conv_nth nat_diff_distrib neq_Nil_conv)
  have st: "stored m ?en l" using x by (simp add: stored_def)
  show ?thesis
  proof (cases "last l = newline")
    case True
    obtain b' where b': "aesd_circular_buffer_add_entry (buffer d) ?en = Inr b'" "cb_inv b'"
        "entries b' = lastn MAXW (entries (buffer d) @ [?en])"
      using add_entry_log D(2) by fastforce
    let ?d' = "d\<lparr>partial := False, buffer := b'\<rparr>"
    have sub: "set (entries b') \<subseteq> insert ?en (set (entries (buffer d)))"
      unfolding b'(3) using set_lastn_subset [of MAXW "entries (buffer d) @ [?en]"] by auto
    have "distinct (map buffptr (entries (buffer d) @ [?en]))"
      using D(4) x(5) by auto
    then have dist: "distinct (map buffptr (entries b'))"
      unfolding b'(3) by (simp only: lastn_def distinct_drop drop_map [symmetric])
    have lines': "lines m ?d' = lastn MAXW (lines m d @ [l])"
      using stored_bytes_of [OF st] by (simp add: lines_def b'(3) map_lastn)
    have "\<forall>y \<in> set (lines m ?d'). last y = newline"
      unfolding lines' using set_lastn_subset [of MAXW "lines m d @ [l]"] D(7) True
      by (auto simp: lines_def)
    moreover have "\<forall>en \<in> set (entries b'). stored m en (bytes_of m en)"
      using sub D(3) st stored_bytes_of [OF st] by auto
    ultimately have "dev_inv m ?d'"
      using D(1) b'(2) dist by (simp add: dev_inv_def owned_def)
    then show ?thesis
      using True ld b'(1) e(1) lines' sub
      by (auto simp: finish_line_def view_def pending_def unowned_def owned_def)
  next
    case False
    let ?d' = "d\<lparr>partial := True, partial_entry := ?en\<rparr>" and ?m = "m(e := None)"
    have st': "stored ?m ?en l" using st e(2) by (simp add: stored_def)
    have keep: "bytes_of ?m en = bytes_of m en" "stored ?m en (bytes_of m en)"
      if "en \<in> set (entries (buffer d))" for en
      using that e(3) D(3) stored_frame bytes_of_frame by (metis, fastforce)
    have lines': "lines ?m ?d' = lines m d" using keep by (simp add: lines_def)
    moreover have pend: "pending ?m ?d' = l" using stored_bytes_of [OF st'] by (simp add: pending_def)
    moreover have "\<forall>y \<in> set (lines m d). last y = newline" using D(7) by (simp add: lines_def)
    ultimately have "dev_inv ?m ?d'"
      using D(1,2,4) x(5) keep st' False stored_bytes_of [OF st']
      by (auto simp: dev_inv_def owned_def)
    then show ?thesis
      using False ld e(1) lines' pend
      by (auto simp: finish_line_def view_def unowned_def owned_def)
  qed
qed

section \<open>Writing\<close>

lemma dev_inv_no_partial: "dev_inv m d \<Longrightarrow> dev_inv m (d\<lparr>partial := False\<rparr>)"
  by (auto simp: dev_inv_def owned_def lines_def pending_def)

lemma lines_no_partial [simp]: "lines m (d\<lparr>partial := x\<rparr>) = lines m d"
  by (simp add: lines_def)

text \<open>The end of the handler: the line is finished, the mutex released and \<open>tmp\<close> freed.\<close>

definition write_tail :: "kenv \<Rightarrow> kmem \<Rightarrow> aesd_dev \<Rightarrow> ptr \<Rightarrow> ptr \<Rightarrow> ptr \<Rightarrow> u64 \<Rightarrow> u64 \<Rightarrow>
    (kmem \<times> aesd_dev \<times> int) res" where
  "write_tail env m dev add_entry data tmp write_size count =
     bnd (finish_line m dev add_entry data write_size) (\<lambda>(m, dev).
       if relocked env then Inr (m, dev\<lparr>mutex := True\<rparr>, - ENOMEM)
       else bnd (kfree m tmp) (\<lambda>m. Inr (m, dev, sint count)))"

lemma write_tail_spec:
  assumes inv: "dev_inv m (d\<lparr>partial := False\<rparr>)"
    and x: "m x = Some l" "l \<noteq> []" "length l < 2 ^ 31" "unat ws = length l" "unowned (d\<lparr>partial := False\<rparr>) x"
    and e: "m e = Some eb" "e \<noteq> x" "unowned (d\<lparr>partial := False\<rparr>) e"
    and t: "tmp = Null \<or> (\<exists>t tb. tmp = Ref t \<and> m t = Some tb \<and> t \<noteq> x \<and> t \<noteq> e \<and> unowned (d\<lparr>partial := False\<rparr>) t)"
    and count: "unat count < 2 ^ 31"
  shows "\<exists>m' d'. write_tail env m d (Ref e) (Ref x) tmp ws count =
      Inr (m', d', if relocked env then - ENOMEM else int (unat count)) \<and> dev_inv m' d' \<and>
    view m' d' = (if last l = newline then (lastn MAXW (lines m d @ [l]), []) else (lines m d, l)) \<and>
    mutex d' = (mutex d \<or> relocked env) \<and> seek d' = seek d"
proof -
  have x5: "\<forall>en \<in> set (entries (buffer d)). buffptr en \<noteq> Ref x"
    and e3: "\<forall>en \<in> set (entries (buffer d)). buffptr en \<noteq> Ref e"
    using unowned_entries [OF x(5)] unowned_entries [OF e(3)] by simp_all
  obtain m' d' where f: "finish_line m d (Ref e) (Ref x) ws = Inr (m', d')" "dev_inv m' d'"
      "view m' d' = (if last l = newline then (lastn MAXW (lines m d @ [l]), []) else (lines m d, l))"
      "mutex d' = mutex d" "seek d' = seek d" "m' = (if last l = newline then m else m(e := None))"
      "\<forall>a. a \<noteq> x \<longrightarrow> unowned (d\<lparr>partial := False\<rparr>) a \<longrightarrow> unowned d' a"
    using finish_line_spec [OF inv x(1-4) x5 e(1,2) e3] by blast
  have c: "sint count = int (unat count)" using count by (intro sint_u64_small) simp
  show ?thesis
  proof (cases "relocked env \<or> tmp = Null")
    case True
    then show ?thesis
      using f c by (intro exI [of _ m'] exI [of _ "if relocked env then d'\<lparr>mutex := True\<rparr> else d'"])
        (auto simp: write_tail_def view_def)
  next
    case False
    then obtain t tb where tt: "tmp = Ref t" "m t = Some tb" "t \<noteq> x" "t \<noteq> e" "unowned (d\<lparr>partial := False\<rparr>) t"
      using t by blast
    then have free: "kfree m' tmp = Inr (m'(t := None))" using f(6) by simp
    have un: "unowned d' t" using f(7) tt(3,5) by blast
    then have "view (m'(t := None)) d' = view m' d'"
      by (simp add: view_def lines_frame pending_frame)
    then show ?thesis
      using False f(1-5) c free dev_inv_frame [OF f(2) un]
      by (intro exI [of _ "m'(t := None)"] exI [of _ d']) (auto simp: write_tail_def)
  qed
qed

lemma aesd_write_plain:
  assumes inv: "dev_inv m d" and al: "good_alloc (alloc env)" "total_alloc (alloc env)"
    and copy: "from_user env buf = (0, buf)" and free: "\<not> mutex d" and np: "\<not> partial d"
    and buf: "buf \<noteq> []" "length buf < 2 ^ 31"
  shows "\<exists>m' d'. aesd_write env m d buf =
      Inr (m', d', if relocked env then - ENOMEM else int (length buf)) \<and> dev_inv m' d' \<and>
    view m' d' = spec_write (view m d) buf \<and> mutex d' = relocked env \<and> seek d' = seek d"
proof -
  let ?count = "of_nat (length buf) :: u64"
  have count: "unat ?count = length buf" using buf(2) by (intro unat_of_nat_u64) simp
  have d0: "d\<lparr>partial := False\<rparr> = d" using np by simp
  note fin = dev_invD(1) [OF inv]
  obtain e eb where e: "alloc env m 16 = Some (e, eb)" "m e = None"
    by (rule total_allocE [OF al(2,1) fin, of 16]) auto
  let ?m1 = "m(e \<mapsto> eb)"
  obtain x xb where x: "alloc env ?m1 ?count = Some (x, xb)" "?m1 x = None"
    by (rule total_allocE [OF al(2,1), of ?m1 ?count]) (use fin count buf(2) in auto)
  let ?m2 = "?m1(x \<mapsto> xb)" and ?n = "?count + esize (partial_entry d)"
  obtain m3 tmp where m3: "kmalloc (alloc env) ?m2 ?n = (m3, tmp)" by fastforce
  have inv2: "dev_inv ?m2 d" and un: "unowned d e" "unowned d x" and ne: "e \<noteq> x"
    using inv e(2) x(2) by (auto intro: dev_inv_fresh unowned_dead split: if_splits)
  have l2: "view ?m2 d = view m d"
    using un by (simp only: view_def lines_frame pending_frame)
  have t: "m3 = ?m2 \<and> tmp = Null \<or>
      (\<exists>t tb. m3 = ?m2(t \<mapsto> tb) \<and> tmp = Ref t \<and> t \<noteq> x \<and> t \<noteq> e \<and> unowned d t)"
  proof (cases "alloc env ?m2 ?n")
    case (Some r)
    then obtain t tb where t: "alloc env ?m2 ?n = Some (t, tb)" by (cases r) auto
    then have "?m2 t = None" using good_allocD(1) [OF al(1)] by blast
    then show ?thesis
      using t m3 unowned_dead [OF inv2] by (auto split: if_splits)
  qed (use m3 in simp)
  let ?m4 = "m3(x \<mapsto> buf)"
  have inv3: "dev_inv m3 d" and l3: "view m3 d = view ?m2 d"
    using t inv2 by (auto simp: dev_inv_frame view_def lines_frame pending_frame)
  have inv4: "dev_inv ?m4 d" and l4: "view ?m4 d = view m d"
    using dev_inv_frame [OF inv3 un(2)] l3 l2 un(2)
    by (simp_all only: view_def lines_frame pending_frame)
  have m3x: "m3 x = Some xb" and m4: "?m4 x = Some buf" "?m4 e = Some eb"
    using t ne by auto
  have t4: "tmp = Null \<or> (\<exists>t tb. tmp = Ref t \<and> ?m4 t = Some tb \<and> t \<noteq> x \<and> t \<noteq> e \<and> unowned d t)"
    using t by auto
  have "aesd_write env m d buf = write_tail env ?m4 d (Ref e) (Ref x) tmp ?count ?count"
    using e x m3 m3x copy free np
    by (simp add: aesd_write_def copy_in_def write_tail_def Let_def)
  moreover obtain m' d' where "write_tail env ?m4 d (Ref e) (Ref x) tmp ?count ?count =
      Inr (m', d', if relocked env then - ENOMEM else int (unat ?count))" "dev_inv m' d'"
      "view m' d' = (if last buf = newline then (lastn MAXW (lines ?m4 d @ [buf]), []) else (lines ?m4 d, buf))"
      "mutex d' = (mutex d \<or> relocked env)" "seek d' = seek d"
    using write_tail_spec [of ?m4 d x buf ?count e eb tmp ?count env, unfolded d0] inv4 m4 buf count un ne t4
    by metis
  ultimately show ?thesis
    using count l4 free np by (auto simp: spec_write_def view_def pending_def)
qed

section \<open>Joining a pending line\<close>

text \<open>\<open>joined\<close> is the heap after both copies and \<open>kfree(data)\<close>.\<close>

lemma join_partial_spec:
  assumes al: "good_alloc (alloc env)"
    and p: "buffptr pe = Ref p" "m p = Some pend" "unat (esize pe) = length pend"
    and x: "m x = Some buf" "unat count = length buf" "pend \<noteq> []"
    and t: "m t = Some tb" "length tb = length pend + length buf"
    and ne: "p \<noteq> x" "p \<noteq> t" "x \<noteq> t" and small: "length pend + length buf < 2 ^ 31"
    and joined: "joined = m(t \<mapsto> pend @ buf, x := None)"
  shows "join_partial env m pe (Ref x) (Ref t) count =
    (case alloc env joined (count + esize pe) of
       Some (a, yb) \<Rightarrow> if a = x then Inr (joined(x \<mapsto> pend @ buf), count + esize pe) else Inl Dangling
     | None \<Rightarrow> Inl Dangling)"
proof -
  have ws: "unat (count + esize pe) = length pend + length buf"
    using small p(3) x(2) by (simp add: wsimps)
  then have sws: "nat (sint (count + esize pe)) = length pend + length buf"
    using small sint_u64_small [of "count + esize pe"] by simp
  let ?m1 = "m(t \<mapsto> blit tb 0 pend)"
  have c1: "copy_loop m (Ref p) (Ref t) 0 (length pend) 0 = Inr ?m1"
    using copy_loop_live [of m p pend t tb 0 "length pend" 0] p t ne small by simp
  have l1: "length (blit tb 0 pend) = length tb" using t(2) by simp
  have "copy_loop ?m1 (Ref x) (Ref t) (length pend) (length buf) 0 =
      Inr (?m1(t \<mapsto> blit (blit tb 0 pend) (length pend) buf))"
    using copy_loop_live [of ?m1 x buf t "blit tb 0 pend" 0 "length buf" "length pend"] x ne t small l1
    by simp
  moreover have "blit (blit tb 0 pend) (length pend) buf = pend @ buf"
    using blit_blit [of 0 pend buf tb] blit_all [of "pend @ buf" tb] t(2) by simp
  ultimately have c2: "copy_loop ?m1 (Ref x) (Ref t) (length pend) (length buf) 0 = Inr (m(t \<mapsto> pend @ buf))"
    by simp
  have f: "kfree (m(t \<mapsto> pend @ buf)) (Ref x) = Inr joined"
    using x ne joined by simp
  have pre: "join_partial env m pe (Ref x) (Ref t) count =
      (let (m, fresh) = kmalloc (alloc env) joined (count + esize pe)
       in bnd (store m (Ref x) 0 (low_byte env fresh)) (\<lambda>m.
          bnd (copy_loop m (Ref t) (Ref x) 0 (length pend + length buf) 0) (\<lambda>m. Inr (m, count + esize pe))))"
    using c1 c2 f p x sws by (simp add: join_partial_def Let_def)
  show ?thesis
  proof (cases "alloc env joined (count + esize pe)")
    case None
    then show ?thesis using pre joined by simp
  next
    case (Some r)
    then obtain a yb where a: "alloc env joined (count + esize pe) = Some (a, yb)" by (cases r) auto
    show ?thesis
    proof (cases "a = x")
      case False
      then show ?thesis using pre a joined by simp
    next
      case True
      have len: "length yb = length pend + length buf" using good_allocD(2) [OF al a] ws by simp
      let ?y = "yb[0 := low_byte env (Ref x)]" and ?m2 = "joined(x \<mapsto> yb[0 := low_byte env (Ref x)])"
      have "store (joined(x \<mapsto> yb)) (Ref x) 0 (low_byte env (Ref x)) = Inr ?m2"
        using len x(3) by simp
      moreover have "copy_loop ?m2 (Ref t) (Ref x) 0 (length pend + length buf) 0 =
          Inr (?m2(x \<mapsto> blit ?y 0 (pend @ buf)))"
        using copy_loop_live [of ?m2 t "pend @ buf" x ?y 0 "length pend + length buf" 0] ne len small joined
        by simp
      moreover have "blit ?y 0 (pend @ buf) = pend @ buf" using len by (intro blit_all) simp
      ultimately show ?thesis using pre a True by simp
    qed
  qed
qed

lemma aesd_write_joins:
  assumes inv: "dev_inv m d" and al: "good_alloc (alloc env)"
    and copy: "from_user env buf = (0, buf)" and free: "\<not> mutex d" and part: "partial d"
    and buf: "length (pending m d) + length buf < 2 ^ 31"
    and n: "n = of_nat (length buf) + esize (partial_entry d)"
    and e: "alloc env m 16 = Some (e, eb)"
    and x: "alloc env (m(e \<mapsto> eb)) (of_nat (length buf)) = Some (x, xb)"
    and t: "alloc env (m(e \<mapsto> eb, x \<mapsto> xb)) n = Some (t, tb)"
    and joined: "joined = m(e \<mapsto> eb, t \<mapsto> pending m d @ buf)"
  shows "case alloc env joined n of
      Some (a, yb) \<Rightarrow>
        if a = x then \<exists>m' d'. aesd_write env m d buf =
            Inr (m', d', if relocked env then - ENOMEM else int (length buf)) \<and> dev_inv m' d' \<and>
          view m' d' = spec_write (view m d) buf \<and> mutex d' = relocked env
        else aesd_write env m d buf = Inl Dangling
    | None \<Rightarrow> aesd_write env m d buf = Inl Dangling"
proof -
  let ?count = "of_nat (length buf) :: u64" and ?pend = "pending m d" and ?pe = "partial_entry d"
  let ?d0 = "d\<lparr>partial := False\<rparr>"
  have count: "unat ?count = length buf" using buf by (intro unat_of_nat_u64) simp
  obtain p where p: "buffptr ?pe = Ref p" "m p = Some ?pend" "unat (esize ?pe) = length ?pend"
    and pend: "?pend \<noteq> []"
    using dev_invD(5) [OF inv part] by (auto simp: stored_def)
  have dead: "m e = None" "(m(e \<mapsto> eb)) x = None" "(m(e \<mapsto> eb, x \<mapsto> xb)) t = None"
    using good_allocD(1) [OF al] e x t by blast+
  have ne: "x \<noteq> e" "t \<noteq> e" "t \<noteq> x" "p \<noteq> e" "p \<noteq> x" "p \<noteq> t" and mx: "m x = None" and mt: "m t = None"
    using dead p(2) by (auto split: if_splits)
  have ws: "unat n = length ?pend + length buf"
    using buf p(3) count unfolding n by (simp add: wsimps)
  have lt: "length tb = length ?pend + length buf" using good_allocD(2) [OF al t] ws by simp
  let ?m4 = "m(e \<mapsto> eb, x \<mapsto> buf, t \<mapsto> tb)"
  have ci: "copy_in env (m(e \<mapsto> eb, x \<mapsto> xb, t \<mapsto> tb)) (Ref x) buf = Inr ?m4"
    using ne copy by (simp add: copy_in_def fun_upd_twist)
  have j: "joined = ?m4(t \<mapsto> ?pend @ buf, x := None)"
    using ne mx unfolding joined by (auto simp: fun_eq_iff)
  have jp: "join_partial env ?m4 ?pe (Ref x) (Ref t) ?count =
      (case alloc env joined n of
         Some (a, yb) \<Rightarrow> if a = x then Inr (joined(x \<mapsto> ?pend @ buf), n) else Inl Dangling
       | None \<Rightarrow> Inl Dangling)"
    unfolding n
    by (rule join_partial_spec [OF al p(1), where tb = tb and buf = buf, OF _ p(3) _ count pend _ lt _ _ _ buf j])
      (use p(2) ne in simp_all)
  have pre: "aesd_write env m d buf =
      bnd (join_partial env ?m4 ?pe (Ref x) (Ref t) ?count) (\<lambda>(m, ws).
        write_tail env m d (Ref e) (Ref x) (Ref t) ws ?count)"
    using e x t ci free part unfolding n
    by (simp add: aesd_write_def write_tail_def Let_def)
  show ?thesis
  proof (cases "alloc env joined n")
    case None
    then show ?thesis using pre jp by simp
  next
    case (Some r)
    then obtain a yb where a: "alloc env joined n = Some (a, yb)" by (cases r) auto
    show ?thesis
    proof (cases "a = x")
      case False
      then show ?thesis using pre jp a by simp
    next
      case True
      let ?m5 = "joined(x \<mapsto> ?pend @ buf)"
      have inv0: "dev_inv m ?d0" using inv by (rule dev_inv_no_partial)
      have un: "unowned ?d0 e" "unowned ?d0 x" "unowned ?d0 t"
        using unowned_dead [OF inv0] dead(1) mx mt by simp_all
      then have inv5: "dev_inv ?m5 ?d0" and l5: "lines ?m5 ?d0 = lines m ?d0"
        unfolding joined using inv0 by (simp_all only: dev_inv_frame lines_frame)
      have m5: "?m5 x = Some (?pend @ buf)" "?m5 e = Some eb" "?m5 t = Some (?pend @ buf)"
        using ne unfolding joined by simp_all
      have "\<exists>m' d'. write_tail env ?m5 d (Ref e) (Ref x) (Ref t) n ?count =
          Inr (m', d', if relocked env then - ENOMEM else int (unat ?count)) \<and> dev_inv m' d' \<and>
        view m' d' = (if last (?pend @ buf) = newline then (lastn MAXW (lines ?m5 d @ [?pend @ buf]), [])
          else (lines ?m5 d, ?pend @ buf)) \<and> mutex d' = (mutex d \<or> relocked env) \<and> seek d' = seek d"
        by (rule write_tail_spec [OF inv5 m5(1) _ _ _ un(2) m5(2) _ un(1)])
          (use m5(3) ne un(3) buf ws count pend in simp_all)
      then show ?thesis
        using pre jp a True l5 count free by (auto simp: spec_write_def view_def)
    qed
  qed
qed

lemma aesd_write_nothing:
  assumes "dev_inv m d" and "good_alloc (alloc env)" "total_alloc (alloc env)"
    and "from_user env [] = (0, [])" and "\<not> mutex d" "\<not> partial d"
  shows "aesd_write env m d [] = Inl OutOfBounds"
proof -
  note fin = dev_invD(1) [OF assms(1)]
  obtain e eb where e: "alloc env m 16 = Some (e, eb)"
    by (rule total_allocE [OF assms(3,2) fin, of 16]) auto
  obtain x xb where x: "alloc env (m(e \<mapsto> eb)) 0 = Some (x, xb)"
    by (rule total_allocE [OF assms(3,2), of "m(e \<mapsto> eb)" 0]) (use fin in auto)
  obtain m3 tmp where m3: "kmalloc (alloc env) (m(e \<mapsto> eb, x \<mapsto> xb)) (esize (partial_entry d)) = (m3, tmp)"
    by fastforce
  have "m3 x \<noteq> None"
    using m3 by (cases "alloc env (m(e \<mapsto> eb, x \<mapsto> xb)) (esize (partial_entry d))") auto
  then obtain ys where "m3 x = Some ys" by blast
  then show ?thesis
    using e x m3 assms(4-6)
    by (simp add: aesd_write_def copy_in_def finish_line_def load_signed_def)
qed

section \<open>The device as a bounded log of lines\<close>

type_synonym writer = "kenv \<times> kmem \<times> aesd_dev"

fun device_write :: "writer \<Rightarrow> u8 list \<Rightarrow> writer res" where
  "device_write (env, m, d) buf = bnd (aesd_write env m d buf) (\<lambda>(m, d, ret). Inr (env, m, d))"

fun device_lines :: "writer \<Rightarrow> u8 list list" where
  "device_lines (env, m, d) = lines m d"

fun writer_ok :: "writer \<Rightarrow> bool" where
  "writer_ok (env, m, d) \<longleftrightarrow> dev_inv m d \<and> good_alloc (alloc env) \<and> total_alloc (alloc env) \<and>
     from_user env = Pair 0 \<and> \<not> relocked env \<and> \<not> mutex d \<and> \<not> partial d \<and> \<not> seek d"

definition whole_line :: "u8 list \<Rightarrow> bool" where
  "whole_line l \<longleftrightarrow> l \<noteq> [] \<and> length l < 2 ^ 31 \<and> last l = newline"

lemma write_whole_line:
  assumes ok: "writer_ok (env, m, d)" and l: "whole_line l"
  shows "\<exists>m' d'. aesd_write env m d l = Inr (m', d', int (length l)) \<and> writer_ok (env, m', d') \<and>
    lines m' d' = lastn MAXW (lines m d @ [l]) \<and> seek d' = seek d"
proof -
  have np: "pending m d = []" using ok by (simp add: pending_def)
  obtain m' d' where w: "aesd_write env m d l = Inr (m', d', int (length l))" "dev_inv m' d'"
      "view m' d' = (lastn MAXW (lines m d @ [l]), [])" "\<not> mutex d'" "seek d' = seek d"
    using aesd_write_plain [of m d env l] ok l np by (auto simp: whole_line_def spec_write_def view_def)
  have "\<not> partial d'"
  proof
    assume p: "partial d'"
    then have "stored m' (partial_entry d') (pending m' d')" by (rule dev_invD(5) [OF w(2)])
    then show False using w(3) by (simp add: view_def stored_def)
  qed
  with w ok show ?thesis by (auto simp: view_def)
qed

lemma device_lines_cap: "writer_ok q \<Longrightarrow> length (device_lines q) \<le> MAXW"
  by (cases q) (auto simp: length_lines dest: dev_invD(2) length_entries_le)

interpretation device_log: bounded_log device_write device_lines "\<lambda>l. l" writer_ok whole_line MAXW
proof unfold_locales
  fix q :: writer and l
  assume ok: "writer_ok q" and l: "whole_line l"
  obtain env m d where q: "q = (env, m, d)" by (cases q)
  show "\<exists>q'. device_write q l = Inr q' \<and> writer_ok q' \<and> device_lines q' = lastn MAXW (device_lines q @ [l])"
    using write_whole_line [of env m d l] ok l unfolding q by (auto simp del: writer_ok.simps)
qed (rule device_lines_cap)

lemma device_write_env: "device_write q l = Inr q' \<Longrightarrow> fst q' = fst q"
  by (cases q) auto

lemma device_writes_env: "add_all device_write q ls = Inr q' \<Longrightarrow> fst q' = fst q"
  by (induction ls arbitrary: q) (auto dest: device_write_env)

section \<open>The properties of writing\<close>

lemma demo_env_from_user [simp]: "from_user demo_env = Pair 0"
  by (auto simp: demo_env_def)

text \<open>
  C16. With no line pending, a write returns the number of bytes it was given and does what
  the specification says: bytes ending in a newline become the newest of the last ten lines,
  any other bytes become the pending line, and the device invariant is kept.
\<close>

theorem aesd_write_refines_spec:
  assumes "dev_inv m d" and "good_alloc (alloc env)" "total_alloc (alloc env)"
    and "from_user env buf = (0, buf)" and "\<not> mutex d" "\<not> relocked env" "\<not> partial d"
    and "buf \<noteq> []" "length buf < 2 ^ 31"
  shows "\<exists>m' d'. aesd_write env m d buf = Inr (m', d', int (length buf)) \<and> dev_inv m' d' \<and>
    view m' d' = spec_write (view m d) buf \<and> \<not> mutex d' \<and> seek d' = seek d"
  using aesd_write_plain [OF assms(1-5,7-9)] assms(6) by simp

theorem aesd_write_refines_spec_witness:
  "\<exists>m' d'. aesd_write demo_env demo_mem demo_dev [100, 10] = Inr (m', d', 2) \<and> dev_inv m' d' \<and>
     view m' d' = ([[97, 98, 10], [99, 10], [100, 10]], [])"
proof -
  have v: "view demo_mem demo_dev = ([[97, 98, 10], [99, 10]], [])"
    by (simp add: view_def demo_lines pending_def)
  then show ?thesis
    using aesd_write_refines_spec [OF demo_inv, of demo_env "[100, 10]"]
    by (auto simp: good_alloc_bump total_alloc_bump spec_write_def MAXW_eq lastn_def)
qed

text \<open>
  When another thread takes the mutex as soon as it is released, the same write reports
  \<open>-ENOMEM\<close> although it has taken full effect.
\<close>

theorem aesd_write_reports_failure_after_success:
  assumes "dev_inv m d" and "good_alloc (alloc env)" "total_alloc (alloc env)"
    and "from_user env buf = (0, buf)" and "\<not> mutex d" "relocked env" "\<not> partial d"
    and "buf \<noteq> []" "length buf < 2 ^ 31"
  shows "\<exists>m' d'. aesd_write env m d buf = Inr (m', d', - ENOMEM) \<and>
    view m' d' = spec_write (view m d) buf"
  using aesd_write_plain [OF assms(1-5,7-9)] assms(6) by auto

theorem aesd_write_reports_failure_after_success_witness:
  "\<exists>m' d'. aesd_write (demo_env\<lparr>relocked := True\<rparr>) demo_mem demo_dev [100, 10] = Inr (m', d', - 12) \<and>
     view m' d' = ([[97, 98, 10], [99, 10], [100, 10]], [])"
proof -
  have v: "view demo_mem demo_dev = ([[97, 98, 10], [99, 10]], [])"
    by (simp add: view_def demo_lines pending_def)
  then show ?thesis
    using aesd_write_reports_failure_after_success [OF demo_inv, of "demo_env\<lparr>relocked := True\<rparr>" "[100, 10]"]
    by (auto simp: good_alloc_bump total_alloc_bump spec_write_def MAXW_eq lastn_def ENOMEM_def)
qed

text \<open>
  C19. With a line pending, the handler frees its copy of the new bytes and goes on to use it.
  It does what the specification says exactly when the allocation made after the \<open>kfree\<close>
  returns the block just freed; otherwise it writes to a block that is not allocated.
\<close>

theorem aesd_write_pending_use_after_free:
  assumes "dev_inv m d" and "good_alloc (alloc env)"
    and "from_user env buf = (0, buf)" and "\<not> mutex d" "partial d"
    and "length (pending m d) + length buf < 2 ^ 31"
    and "n = of_nat (length buf) + esize (partial_entry d)"
    and "alloc env m 16 = Some (e, eb)"
    and "alloc env (m(e \<mapsto> eb)) (of_nat (length buf)) = Some (x, xb)"
    and "alloc env (m(e \<mapsto> eb, x \<mapsto> xb)) n = Some (t, tb)"
  shows "case alloc env (m(e \<mapsto> eb, t \<mapsto> pending m d @ buf)) n of
      Some (a, yb) \<Rightarrow>
        if a = x then \<exists>m' d'. aesd_write env m d buf =
            Inr (m', d', if relocked env then - ENOMEM else int (length buf)) \<and> dev_inv m' d' \<and>
          view m' d' = spec_write (view m d) buf \<and> mutex d' = relocked env
        else aesd_write env m d buf = Inl Dangling
    | None \<Rightarrow> aesd_write env m d buf = Inl Dangling"
  by (rule aesd_write_joins [OF assms refl])

definition pending_mem :: kmem where
  "pending_mem = [0 \<mapsto> [97, 98]]"

definition pending_dev :: aesd_dev where
  "pending_dev = demo_dev\<lparr>buffer := aesd_circular_buffer_init, partial := True,
     partial_entry := \<lparr>buffptr = Ref 0, esize = 2\<rparr>\<rparr>"

lemma pending_dev_simps [simp]: "buffer pending_dev = aesd_circular_buffer_init"
    "partial pending_dev" "\<not> mutex pending_dev" "partial_entry pending_dev = \<lparr>buffptr = Ref 0, esize = 2\<rparr>"
  by (simp_all add: pending_dev_def)

lemma pending_view: "lines pending_mem pending_dev = []" "pending pending_mem pending_dev = [97, 98]"
  by (simp_all add: lines_def entries_init pending_def bytes_of_def pending_mem_def)

lemma pending_inv: "dev_inv pending_mem pending_dev"
  unfolding dev_inv_def pending_view
  by (auto simp: cb_inv_init entries_init owned_def stored_def bytes_of_def pending_mem_def)

text \<open>
  The line "ab" is pending and "c\n" arrives. The arena hands the freed block back and the
  line is joined; the other allocator does not, and the write faults.
\<close>

theorem aesd_write_pending_use_after_free_witness:
  "(\<exists>m' d'. aesd_write (demo_env\<lparr>alloc := arena 9\<rparr>) pending_mem pending_dev [99, 10] = Inr (m', d', 2) \<and>
     view m' d' = ([[97, 98, 99, 10]], [])) \<and>
   aesd_write demo_env pending_mem pending_dev [99, 10] = Inl Dangling"
proof
  let ?env = "demo_env\<lparr>alloc := arena 9\<rparr>" and ?z = "replicate 16 0 :: u8 list"
  have n: "4 = of_nat (length [99, 10 :: u8]) + esize (partial_entry pending_dev)" by simp
  have "alloc ?env pending_mem 16 = Some (1, ?z)"
      "alloc ?env (pending_mem(1 \<mapsto> ?z)) (of_nat (length [99, 10 :: u8])) = Some (2, replicate 2 0)"
      "alloc ?env (pending_mem(1 \<mapsto> ?z, 2 \<mapsto> replicate 2 0)) 4 = Some (3, replicate 4 0)"
      "alloc ?env (pending_mem(1 \<mapsto> ?z, 3 \<mapsto> [97, 98, 99, 10])) 4 = Some (2, replicate 4 0)"
    by (simp_all add: arena_def pending_mem_def upt_rec)
  then show "\<exists>m' d'. aesd_write ?env pending_mem pending_dev [99, 10] = Inr (m', d', 2) \<and>
      view m' d' = ([[97, 98, 99, 10]], [])"
    using aesd_write_pending_use_after_free [OF pending_inv _ _ _ _ _ n, of ?env 1 ?z 2 "replicate 2 0" 3 "replicate 4 0"]
    by (auto simp: good_alloc_arena pending_view view_def spec_write_def lastn_def MAXW_eq)
next
  let ?z = "replicate 16 0 :: u8 list"
  have n: "4 = of_nat (length [99, 10 :: u8]) + esize (partial_entry pending_dev)" by simp
  have "alloc demo_env pending_mem 16 = Some (1, ?z)"
      "alloc demo_env (pending_mem(1 \<mapsto> ?z)) (of_nat (length [99, 10 :: u8])) = Some (2, replicate 2 0)"
      "alloc demo_env (pending_mem(1 \<mapsto> ?z, 2 \<mapsto> replicate 2 0)) 4 = Some (3, replicate 4 0)"
      "alloc demo_env (pending_mem(1 \<mapsto> ?z, 3 \<mapsto> [97, 98, 99, 10])) 4 = Some (4, replicate 4 0)"
    by (simp_all add: bump_def pending_mem_def)
  then show "aesd_write demo_env pending_mem pending_dev [99, 10] = Inl Dangling"
    using aesd_write_pending_use_after_free [OF pending_inv _ _ _ _ _ n, of demo_env 1 ?z 2 "replicate 2 0" 3 "replicate 4 0"]
    by (auto simp: good_alloc_bump pending_view)
qed

text \<open>
  A write of no bytes, with no line pending, looks for a newline one byte before the block.
\<close>

theorem aesd_write_empty_out_of_bounds:
  assumes "dev_inv m d" and "good_alloc (alloc env)" "total_alloc (alloc env)"
    and "from_user env [] = (0, [])" and "\<not> mutex d" "\<not> partial d"
  shows "aesd_write env m d [] = Inl OutOfBounds"
  using assms by (rule aesd_write_nothing)

theorem aesd_write_empty_out_of_bounds_witness:
  "aesd_write demo_env demo_mem demo_dev [] = Inl OutOfBounds"
  using aesd_write_empty_out_of_bounds [OF demo_inv, of demo_env]
  by (simp add: good_alloc_bump total_alloc_bump)

text \<open>
  A write that finds the mutex held fails with \<open>-ENOMEM\<close>, leaves the device as it was, and
  leaves its three blocks allocated for good.
\<close>

theorem aesd_write_busy_leaks:
  assumes "finite (dom m)" and "good_alloc (alloc env)" "total_alloc (alloc env)"
    and "mutex d" and "length buf < 2 ^ 31"
    and "unat (of_nat (length buf) + esize (partial_entry d)) < 2 ^ 31"
  shows "\<exists>m'. aesd_write env m d buf = Inr (m', d, - ENOMEM) \<and> card (dom m') = card (dom m) + 3"
proof -
  let ?count = "of_nat (length buf) :: u64"
  have count: "unat ?count = length buf" using assms(5) by (intro unat_of_nat_u64) simp
  obtain e eb where e: "alloc env m 16 = Some (e, eb)" "m e = None"
    by (rule total_allocE [OF assms(3,2,1), of 16]) auto
  let ?m1 = "m(e \<mapsto> eb)"
  obtain x xb where x: "alloc env ?m1 ?count = Some (x, xb)" "?m1 x = None"
    by (rule total_allocE [OF assms(3,2), of ?m1 ?count]) (use assms(1,5) count in auto)
  let ?m2 = "?m1(x \<mapsto> xb)" and ?n = "?count + esize (partial_entry d)"
  obtain t tb where t: "alloc env ?m2 ?n = Some (t, tb)" "?m2 t = None"
    by (rule total_allocE [OF assms(3,2), of ?m2 ?n]) (use assms(1,6) in auto)
  have ne: "x \<noteq> e" "t \<noteq> e" "t \<noteq> x" "m x = None" "m t = None"
    using e x t by (auto split: if_splits)
  let ?m4 = "?m2(t \<mapsto> tb, x \<mapsto> snd (from_user env buf))"
  have "aesd_write env m d buf = Inr (?m4, d, - ENOMEM)"
    using e x t assms(4) ne by (simp add: aesd_write_def copy_in_def)
  moreover have "dom ?m4 = insert e (insert x (insert t (dom m)))" by auto
  moreover have "e \<notin> insert x (insert t (dom m))" "x \<notin> insert t (dom m)" "t \<notin> dom m"
    using e(2) ne by auto
  ultimately show ?thesis using assms(1) by (intro exI [of _ ?m4]) simp
qed

theorem aesd_write_busy_leaks_witness:
  "\<exists>m'. aesd_write demo_env demo_mem (demo_dev\<lparr>mutex := True\<rparr>) [100, 10] =
     Inr (m', demo_dev\<lparr>mutex := True\<rparr>, - 12) \<and> card (dom m') = card (dom demo_mem) + 3"
  using aesd_write_busy_leaks [of demo_mem demo_env "demo_dev\<lparr>mutex := True\<rparr>" "[100, 10]"]
    dev_invD(1) [OF demo_inv]
  by (simp add: good_alloc_bump total_alloc_bump demo_dev_def ENOMEM_def)

text \<open>
  However many whole lines are written one after the other, every write succeeds and the
  device holds the last ten lines of all, oldest first.
\<close>

theorem device_holds_last_ten_lines:
  assumes "writer_ok (env, m, d)" and "list_all whole_line ls"
  shows "\<exists>m' d'. add_all device_write (env, m, d) ls = Inr (env, m', d') \<and>
    writer_ok (env, m', d') \<and> lines m' d' = lastn 10 (lines m d @ ls)"
proof -
  obtain q' where q': "add_all device_write (env, m, d) ls = Inr q'" "writer_ok q'"
      "device_lines q' = lastn MAXW (lines m d @ ls)"
    using device_log.add_all_log [OF assms] by auto
  moreover have "fst q' = env" using device_writes_env [OF q'(1)] by simp
  ultimately show ?thesis by (cases q') (auto simp: MAXW_eq)
qed

lemma demo_writer_ok: "writer_ok (demo_env, demo_mem, demo_dev)"
  by (simp add: demo_inv good_alloc_bump total_alloc_bump)

theorem device_holds_last_ten_lines_witness:
  "\<exists>m' d'. add_all device_write (demo_env, demo_mem, demo_dev) (replicate 9 [100, 10]) = Inr (demo_env, m', d') \<and>
     lines m' d' = [99, 10] # replicate 9 [100, 10]"
proof -
  have "lastn 10 ([[97, 98, 10], [99, 10]] @ replicate 9 [100, 10 :: u8]) = [99, 10] # replicate 9 [100, 10]"
    by (simp add: lastn_def)
  moreover have "list_all whole_line (replicate 9 [100, 10])"
    by (simp add: list_all_iff whole_line_def)
  ultimately show ?thesis
    using device_holds_last_ten_lines [OF demo_writer_ok] demo_lines by fastforce
qed

text \<open>
  C2. What is written is read back: after any number of whole lines, a reader that asks until
  nothing comes back, with requests larger than the data, receives the last ten lines in order.
\<close>

theorem written_lines_read_back:
  assumes "writer_ok (env, m, d)" and "list_all whole_line ls"
    and "unat count < 2 ^ 31" and "length (concat (lastn 10 (lines m d @ ls))) < unat count"
    and "length (concat (lastn 10 (lines m d @ ls))) < fuel"
  shows "\<exists>m1 d1 s. add_all device_write (env, m, d) ls = Inr (env, m1, d1) \<and>
    read_to_end fuel device_read (env, count, m1, d1) 0 = Some (s, concat (lastn 10 (lines m d @ ls)))"
proof -
  obtain q' where q': "add_all device_write (env, m, d) ls = Inr q'" "writer_ok q'"
      "device_lines q' = lastn MAXW (lines m d @ ls)"
    using device_log.add_all_log [OF assms(1,2)] by auto
  obtain m1 d1 where q: "q' = (env, m1, d1)" using device_writes_env [OF q'(1)] by (cases q') auto
  have at: "reader_at (env, count, m1, d1) 0"
    using q' assms(3,4) unfolding q by (simp add: MAXW_eq)
  obtain s where "read_to_end fuel device_read (env, count, m1, d1) 0 =
      Some (s, drop 0 (device_content (env, count, m1, d1)))"
    using device.read_to_end_content [OF at, of fuel] assms(5) q'(3) unfolding q
    by (auto simp: MAXW_eq)
  moreover have "device_content (env, count, m1, d1) = concat (lastn 10 (lines m d @ ls))"
    using q'(3) unfolding q by (simp add: MAXW_eq)
  ultimately show ?thesis using q'(1) unfolding q by (metis drop0)
qed

theorem written_lines_read_back_witness:
  "\<exists>m1 d1 s. add_all device_write (demo_env, demo_mem, demo_dev) (replicate 9 [100, 10]) = Inr (demo_env, m1, d1) \<and>
    read_to_end 21 device_read (demo_env, 64, m1, d1) 0 = Some (s, [99, 10] @ concat (replicate 9 [100, 10]))"
proof -
  have "lastn 10 (lines demo_mem demo_dev @ replicate 9 [100, 10 :: u8]) = [99, 10] # replicate 9 [100, 10]"
    by (simp add: lastn_def demo_lines)
  moreover have "list_all whole_line (replicate 9 [100, 10])"
    by (simp add: list_all_iff whole_line_def)
  moreover have "length (concat (replicate 9 [100, 10 :: u8])) = 18"
    by (simp add: length_concat sum_list_replicate)
  ultimately show ?thesis
    using written_lines_read_back [OF demo_writer_ok, of "replicate 9 [100, 10]" 64 21] by simp
qed

end
