(* ===== verification/Aesd_Ioctl.thy ===== *)
theory Aesd_Ioctl
  imports Aesd_Write
begin

text \<open>
  \<open>aesd_adjust_file_offset\<close>, \<open>aesd_flush\<close>, \<open>aesd_ioctl\<close> and \<open>aesd_llseek\<close> of \<open>main.c\<close> with the
  request structure and codes of \<open>aesd_ioctl.h\<close>. None of them takes the mutex. How the kernel
  packs a request code, and \<open>generic_file_llseek_size\<close>, are parameters.
\<close>

section \<open>Seeking to a write command\<close>

record aesd_seekto =
  write_cmd :: u32
  write_cmd_offset :: u32

text \<open>The loop over the slots, with \<open>n\<close> iterations left.\<close>

fun offset_loop :: "aesd_circular_buffer \<Rightarrow> nat \<Rightarrow> nat \<Rightarrow> u64 \<Rightarrow> u64 res" where
  "offset_loop b 0 i new_pos = Inr new_pos"
| "offset_loop b (Suc n) i new_pos =
     bnd (entry_at b i) (\<lambda>e. offset_loop b n (Suc i) (new_pos + esize e))"

definition aesd_adjust_file_offset :: "aesd_dev \<Rightarrow> aesd_seekto \<Rightarrow> (aesd_dev \<times> int) res" where
  "aesd_adjust_file_offset dev seekto =
     bnd (offset_loop (buffer dev) (unat (write_cmd seekto)) 0 0) (\<lambda>new_pos.
       Inr (dev\<lparr>seekto_position := new_pos + ucast (write_cmd_offset seekto), seek := True\<rparr>, 0))"

section \<open>Flushing\<close>

text \<open>
  \<open>AESD_CIRCULAR_BUFFER_FOREACH\<close> goes through the whole array; the body frees the slots below
  \<open>in_offs\<close>.
\<close>

fun flush_loop :: "kmem \<Rightarrow> aesd_circular_buffer \<Rightarrow> nat \<Rightarrow> nat \<Rightarrow> kmem res" where
  "flush_loop m b 0 index = Inr m"
| "flush_loop m b (Suc n) index =
     bnd (entry_at b index) (\<lambda>e.
     bnd (if index < unat (in_offs b) then kfree m (buffptr e) else Inr m) (\<lambda>m.
       flush_loop m b n (Suc index)))"

text \<open>The loop is the macro with this body.\<close>

lemma flush_loop_foreach:
  "flush_loop m b MAXW 0 =
    AESD_CIRCULAR_BUFFER_FOREACH (\<lambda>e index m. if index < unat (in_offs b) then kfree m (buffptr e) else Inr m) b m"
proof -
  have "flush_loop m b n i = foreach_slot (\<lambda>e index m. if index < unat (in_offs b) then kfree m (buffptr e) else Inr m) b n i m"
    for n i
    by (induction n arbitrary: i m) simp_all
  then show ?thesis by (simp add: AESD_CIRCULAR_BUFFER_FOREACH_def)
qed

definition aesd_flush :: "kmem \<Rightarrow> aesd_dev \<Rightarrow> (kmem \<times> aesd_dev \<times> int) res" where
  "aesd_flush m dev =
     bnd (flush_loop m (buffer dev) MAXW 0) (\<lambda>m.
       Inr (m, dev\<lparr>partial_entry := (partial_entry dev)\<lparr>esize := 0\<rparr>, partial := False,
                   seekto_position := 0, seek := False,
                   buffer := (buffer dev)\<lparr>full := False, in_offs := 0, out_offs := 0, total_size := 0\<rparr>\<rparr>, 0))"

section \<open>Request codes and dispatch\<close>

text \<open>The macros of \<open>asm-generic/ioctl.h\<close> the driver uses.\<close>

record ioc =
  ioc_type :: "u32 \<Rightarrow> u32"
  ioc_nr :: "u32 \<Rightarrow> u32"
  ioc_io :: "u32 \<Rightarrow> u32 \<Rightarrow> u32"
  ioc_iowr :: "u32 \<Rightarrow> u32 \<Rightarrow> u32 \<Rightarrow> u32"

definition AESD_IOC_MAGIC :: u32 where "AESD_IOC_MAGIC = 0x16"
definition AESDCHAR_IOC_MAXNR :: u32 where "AESDCHAR_IOC_MAXNR = 2"

definition AESDCHAR_IOCSEEKTO :: "ioc \<Rightarrow> u32" where
  "AESDCHAR_IOCSEEKTO c = ioc_iowr c AESD_IOC_MAGIC 1 8"

definition AESDCHAR_FLUSH :: "ioc \<Rightarrow> u32" where
  "AESDCHAR_FLUSH c = ioc_io c AESD_IOC_MAGIC 2"

text \<open>\<open>copied\<close> is what \<open>copy_from_user\<close> returns and the structure it leaves.\<close>

definition aesd_ioctl ::
  "ioc \<Rightarrow> kmem \<Rightarrow> aesd_dev \<Rightarrow> u32 \<Rightarrow> u64 \<times> aesd_seekto \<Rightarrow> (kmem \<times> aesd_dev \<times> int) res" where
  "aesd_ioctl c m dev cmd copied =
     (if ioc_type c cmd \<noteq> AESD_IOC_MAGIC then Inr (m, dev, - ENOTTY)
      else if AESDCHAR_IOC_MAXNR < ioc_nr c cmd then Inr (m, dev, - ENOTTY)
      else if cmd = AESDCHAR_IOCSEEKTO c then
        (if fst copied \<noteq> 0 then Inr (m, dev, - EINVAL)
         else bnd (aesd_adjust_file_offset dev (snd copied)) (\<lambda>(dev, retval). Inr (m, dev, retval)))
      else if cmd = AESDCHAR_FLUSH c then aesd_flush m dev
      else Inr (m, dev, - ENOTTY))"

text \<open>What the driver relies on of the macros: type and number of its two codes come back out.\<close>

definition good_ioc :: "ioc \<Rightarrow> bool" where
  "good_ioc c \<longleftrightarrow>
     ioc_type c (AESDCHAR_IOCSEEKTO c) = AESD_IOC_MAGIC \<and> ioc_nr c (AESDCHAR_IOCSEEKTO c) = 1 \<and>
     ioc_type c (AESDCHAR_FLUSH c) = AESD_IOC_MAGIC \<and> ioc_nr c (AESDCHAR_FLUSH c) = 2"

section \<open>Moving the file position\<close>

definition SEEK_SET :: int where "SEEK_SET = 0"
definition SEEK_CUR :: int where "SEEK_CUR = 1"
definition SEEK_END :: int where "SEEK_END = 2"

text \<open>
  \<open>generic\<close> is \<open>generic_file_llseek_size\<close>: for the file position, offset, whence, greatest
  position and end of file it gives the new position and the result.
\<close>

type_synonym llseek_size = "u64 \<Rightarrow> u64 \<Rightarrow> int \<Rightarrow> u64 \<Rightarrow> u64 \<Rightarrow> u64 \<times> int"

definition aesd_llseek :: "llseek_size \<Rightarrow> aesd_dev \<Rightarrow> u64 \<Rightarrow> u64 \<Rightarrow> int \<Rightarrow> u64 \<times> int" where
  "aesd_llseek generic dev pos offset whence =
     (let max_file_size = of_nat (MAXW * (1024 * 30));
          total_buffer_size = total_size (buffer dev)
      in if whence = SEEK_SET \<or> whence = SEEK_CUR \<or> whence = SEEK_END
         then generic pos offset whence max_file_size total_buffer_size
         else (pos, - EINVAL))"

section \<open>What the loops compute\<close>

lemma offset_loop_spec:
  "i \<le> length (entry b) \<Longrightarrow> offset_loop b n i p =
    (if i + n \<le> length (entry b) then Inr (p + sum_list (map esize (take n (drop i (entry b)))))
     else Inl OutOfBounds)"
proof (induction n arbitrary: i p)
  case (Suc n)
  show ?case
  proof (cases "i < length (entry b)")
    case True
    then have "take (Suc n) (drop i (entry b)) = entry b ! i # take n (drop (Suc i) (entry b))"
      by (simp add: Cons_nth_drop_Suc [symmetric])
    with True Suc.IH [of "Suc i"] show ?thesis by (simp add: entry_at_def add.assoc)
  next
    case False
    with Suc.prems show ?thesis by (simp add: entry_at_def)
  qed
qed simp

text \<open>In array order the lines come from the wrap on first.\<close>

lemma take_slots_lines:
  assumes inv: "cb_inv b" and k: "k \<le> length (entries b)"
  shows "take k (entry b) = take k (ring (entries b) (wrap_at b))"
proof (cases "full b")
  case True
  have "ring (entries b) (MAXW - unat (out_offs b)) = entry b"
    using cb_invD(1,3) [OF inv] True by (simp add: entries_def ring_def)
  then show ?thesis using True by (simp add: wrap_at_def)
next
  case False
  then show ?thesis
    using cb_invD(1,2) [OF inv] k by (simp add: entries_def ring_def wrap_at_def)
qed

lemma sum_list_map_of_nat: "(\<Sum>x\<leftarrow>xs. of_nat (f x)) = (of_nat (\<Sum>x\<leftarrow>xs. f x) :: 'a :: semiring_1)"
  by (induction xs) simp_all

lemma seek_position:
  assumes inv: "dev_inv m d" and k: "k \<le> length (lines m d)"
  shows "sum_list (map esize (take k (entry (buffer d)))) =
    of_nat (length (concat (take k (ring (lines m d) (wrap_at (buffer d))))))"
proof -
  let ?es = "take k (ring (entries (buffer d)) (wrap_at (buffer d)))"
  have sub: "set ?es \<subseteq> set (entries (buffer d))" by (metis set_ring set_take_subset)
  have es: "take k (entry (buffer d)) = ?es"
    using take_slots_lines [OF dev_invD(2) [OF inv]] k by (simp add: length_lines)
  have len: "esize e = of_nat (length (bytes_of m e))" if "e \<in> set ?es" for e
    using that sub dev_invD(3) [OF inv] unfolding stored_def by (metis of_nat_unat subsetD ucast_id)
  have "sum_list (map esize ?es) = (\<Sum>e\<leftarrow>?es. of_nat (length (bytes_of m e)))"
    using len by (intro arg_cong [of _ _ sum_list] map_cong) auto
  also have "\<dots> = of_nat (\<Sum>e\<leftarrow>?es. length (bytes_of m e))"
    by (rule sum_list_map_of_nat)
  also have "map (\<lambda>e. length (bytes_of m e)) ?es = map length (take k (ring (lines m d) (wrap_at (buffer d))))"
    by (simp add: lines_def ring_def take_map drop_map)
  finally show ?thesis unfolding es by (simp add: length_concat)
qed

section \<open>What flushing does\<close>

lemma flush_loop_spec:
  assumes len: "length (entry b) = i + n" and io: "unat (in_offs b) \<le> length (entry b)"
    and live: "\<forall>e \<in> set (take (unat (in_offs b) - i) (drop i (entry b))). \<exists>a bs. buffptr e = Ref a \<and> m a = Some bs"
    and dist: "distinct (map buffptr (take (unat (in_offs b) - i) (drop i (entry b))))"
  shows "flush_loop m b n i = Inr (\<lambda>a. if Ref a \<in> buffptr ` set (take (unat (in_offs b) - i) (drop i (entry b)))
    then None else m a)"
  using assms
proof (induction n arbitrary: i m)
  case 0
  then show ?case by simp
next
  case (Suc n)
  let ?o = "unat (in_offs b)"
  have i: "i < length (entry b)" using Suc.prems(1) by simp
  show ?case
  proof (cases "i < ?o")
    case False
    then show ?thesis using Suc.IH [of "Suc i" m] Suc.prems i by (simp add: entry_at_def)
  next
    case True
    then obtain k where k: "?o - i = Suc k" "?o - Suc i = k" by (metis Suc_diff_Suc)
    have tk: "take (Suc k) (drop i (entry b)) = entry b ! i # take k (drop (Suc i) (entry b))"
      using i by (simp add: Cons_nth_drop_Suc [symmetric])
    obtain a bs where a: "buffptr (entry b ! i) = Ref a" "m a = Some bs"
      using Suc.prems(3) unfolding k tk by auto
    have live: "\<forall>e \<in> set (take (?o - Suc i) (drop (Suc i) (entry b))). \<exists>a' bs. buffptr e = Ref a' \<and> (m(a := None)) a' = Some bs"
      using Suc.prems(3,4) a unfolding k tk by (auto simp: image_iff) metis
    have "flush_loop (m(a := None)) b n (Suc i) =
        Inr (\<lambda>a'. if Ref a' \<in> buffptr ` set (take (?o - Suc i) (drop (Suc i) (entry b))) then None else (m(a := None)) a')"
      by (rule Suc.IH [OF _ Suc.prems(2) live]) (use Suc.prems(1,4) k tk in auto)
    then show ?thesis
      using True i a unfolding k tk by (auto simp: entry_at_def fun_eq_iff)
  qed
qed

text \<open>The slots below \<open>in_offs\<close> hold distinct lines of the device.\<close>

lemma low_slots:
  assumes inv: "dev_inv m d"
  defines "es \<equiv> take (unat (in_offs (buffer d))) (entry (buffer d))"
  shows "set es \<subseteq> set (entries (buffer d))" and "distinct (map buffptr es)"
    and "length es = unat (in_offs (buffer d))" and "\<not> full (buffer d) \<Longrightarrow> es = entries (buffer d)"
proof -
  note C = cb_invD [OF dev_invD(2) [OF inv]]
  show "length es = unat (in_offs (buffer d))" using C(1,2) by (simp add: es_def)
  show nf: "es = entries (buffer d)" if "\<not> full (buffer d)" using that by (simp add: es_def entries_def)
  have fl: "entries (buffer d) = drop (unat (in_offs (buffer d))) (entry (buffer d)) @ es" if "full (buffer d)"
    using that entries_full [OF dev_invD(2) [OF inv]] by (simp add: es_def ring_def)
  show "set es \<subseteq> set (entries (buffer d))"
    using nf fl by (cases "full (buffer d)") auto
  show "distinct (map buffptr es)"
    using nf fl dev_invD(4) [OF inv] by (cases "full (buffer d)") auto
qed

lemma aesd_flush_spec:
  assumes inv: "dev_inv m d"
  defines "ps \<equiv> buffptr ` set (take (unat (in_offs (buffer d))) (entry (buffer d)))"
  shows "\<exists>d'. aesd_flush m d = Inr (\<lambda>a. if Ref a \<in> ps then None else m a, d', 0) \<and>
    dev_inv (\<lambda>a. if Ref a \<in> ps then None else m a) d' \<and>
    view (\<lambda>a. if Ref a \<in> ps then None else m a) d' = ([], []) \<and>
    seek d' = False \<and> seekto_position d' = 0 \<and> mutex d' = mutex d"
proof -
  note C = cb_invD [OF dev_invD(2) [OF inv]] and L = low_slots [OF inv]
  let ?b = "buffer d" and ?m = "\<lambda>a. if Ref a \<in> ps then None else m a"
  let ?b' = "?b\<lparr>full := False, in_offs := 0, out_offs := 0, total_size := 0\<rparr>"
  let ?d' = "d\<lparr>partial_entry := (partial_entry d)\<lparr>esize := 0\<rparr>, partial := False,
                   seekto_position := 0, seek := False, buffer := ?b'\<rparr>"
  have live: "\<forall>e \<in> set (take (unat (in_offs ?b)) (entry ?b)). \<exists>a bs. buffptr e = Ref a \<and> m a = Some bs"
    using L(1) dev_invD(3) [OF inv] by (force simp: stored_def)
  have "flush_loop m ?b MAXW 0 = Inr ?m"
    using flush_loop_spec [of ?b 0 MAXW m] C(1,2) live L(2) by (simp add: ps_def)
  then have "aesd_flush m d = Inr (?m, ?d', 0)" by (simp add: aesd_flush_def)
  moreover have "finite (dom ?m)"
    by (rule finite_subset [OF _ dev_invD(1) [OF inv]]) (auto split: if_splits)
  moreover have e: "entries ?b' = []" by (simp add: entries_def)
  moreover have "cb_inv ?b'" using C(1) e by (simp add: cb_inv_def MAXW_eq)
  ultimately show ?thesis
    using dev_invD(3) [OF inv] by (auto simp: dev_inv_def owned_def lines_def pending_def view_def)
qed

lemma card_freed:
  assumes inv: "dev_inv m d"
  defines "ps \<equiv> buffptr ` set (take (unat (in_offs (buffer d))) (entry (buffer d)))"
  shows "card (dom (\<lambda>a. if Ref a \<in> ps then None else m a)) + unat (in_offs (buffer d)) = card (dom m)"
proof -
  note L = low_slots [OF inv]
  have "card ps = unat (in_offs (buffer d))"
    unfolding ps_def using L(2,3) distinct_card [OF L(2)] by simp
  moreover have "ps = Ref ` {a. Ref a \<in> ps}"
    using L(1) dev_invD(3) [OF inv] by (force simp: ps_def stored_def)
  ultimately have c: "card {a. Ref a \<in> ps} = unat (in_offs (buffer d))"
    by (metis card_image inj_onI ptr.inject)
  have sub: "{a. Ref a \<in> ps} \<subseteq> dom m"
    using L(1) dev_invD(3) [OF inv] by (force simp: ps_def stored_def)
  have "dom (\<lambda>a. if Ref a \<in> ps then None else m a) = dom m - {a. Ref a \<in> ps}"
    by (auto split: if_splits)
  then show ?thesis
    using c card_mono [OF dev_invD(1) [OF inv] sub] card_Diff_subset [OF finite_subset [OF sub dev_invD(1) [OF inv]] sub]
    by simp
qed

text \<open>A seek to the start of a line of a ring that is not full, and where that line is.\<close>

lemma seek_request:
  assumes "dev_inv m d" and "\<not> full (buffer d)" and "unat (write_cmd s) < length (lines m d)" and "write_cmd_offset s = 0"
  defines "p \<equiv> length (concat (take (unat (write_cmd s)) (lines m d)))"
  shows "aesd_adjust_file_offset d s = Inr (d\<lparr>seekto_position := of_nat p, seek := True\<rparr>, 0)"
    and "unat (of_nat p :: u64) = p" and "p < length (concat (lines m d))"
    and "run_left (wrap_at (buffer d)) (lines m d) p = length (concat (drop (unat (write_cmd s)) (lines m d)))"
    and "drop p (concat (lines m d)) = concat (drop (unat (write_cmd s)) (lines m d))"
proof -
  let ?k = "unat (write_cmd s)" and ?ls = "lines m d"
  have w: "wrap_at (buffer d) = length ?ls"
    using assms(2) dev_invD(2) [OF assms(1)] by (simp add: wrap_at_def length_lines length_entries)
  have cat: "concat (take ?k ?ls) @ concat (drop ?k ?ls) = concat ?ls"
    by (metis append_take_drop_id concat_append)
  then have tot: "p + length (concat (drop ?k ?ls)) = length (concat ?ls)"
    unfolding p_def by (metis length_append)
  then show p: "unat (of_nat p :: u64) = p"
    using content_small [OF assms(1)] by (intro unat_of_nat_u64) simp
  have "ring ?ls (length ?ls) = ?ls" by (simp add: ring_def)
  then have "unat (write_cmd s) \<le> length (entry (buffer d)) \<and>
      sum_list (map esize (take ?k (entry (buffer d)))) = of_nat p"
    using seek_position [OF assms(1), of ?k] assms(3) length_entries_le [OF dev_invD(2) [OF assms(1)]]
      cb_invD(1) [OF dev_invD(2) [OF assms(1)]] by (simp add: w length_lines p_def)
  then show "aesd_adjust_file_offset d s = Inr (d\<lparr>seekto_position := of_nat p, seek := True\<rparr>, 0)"
    using offset_loop_spec [of 0 "buffer d" ?k 0] assms(4) by (simp add: aesd_adjust_file_offset_def)
  have "?ls ! ?k \<noteq> []" using line_nonempty assms(1,3) by simp
  then have "concat (drop ?k ?ls) \<noteq> []"
    using assms(3) by (metis Cons_nth_drop_Suc append_is_Nil_conv concat.simps(2))
  then show lt: "p < length (concat ?ls)" using tot by (metis length_greater_0_conv less_add_same_cancel1)
  show "run_left (wrap_at (buffer d)) ?ls p = length (concat (drop ?k ?ls))"
    using tot lt by (simp add: run_left_def w)
  show "drop p (concat ?ls) = concat (drop ?k ?ls)" using cat unfolding p_def by (metis append_eq_conv_conj)
qed

lemma seek_read:
  assumes "dev_inv m d" and "good_alloc (alloc env)" "total_alloc (alloc env)"
    and "\<not> mutex d" "\<not> relocked env" and "unat count < 2 ^ 31"
    and "unat pos < length (concat (lines m d))" and "\<not> full (buffer d)"
    and "unat (write_cmd s) < length (lines m d)" and "write_cmd_offset s = 0"
    and "slots_sane (buffer d)"
  shows "\<exists>d1 m' d2 rest. aesd_adjust_file_offset d s = Inr (d1, 0) \<and>
    aesd_read env m d1 count pos = Inr (m', d2,
      of_nat (length (concat (take (unat (write_cmd s)) (lines m d)))) +
        of_nat (min (unat count) (length (concat (drop (unat (write_cmd s)) (lines m d))))),
      int (min (unat count) (length (concat (drop (unat (write_cmd s)) (lines m d))))),
      take (unat count) (concat (drop (unat (write_cmd s)) (lines m d))) @ rest) \<and>
    lines m' d2 = lines m d \<and> \<not> seek d2 \<and> dev_inv m' d2 \<and> mutex d2 = mutex d \<and> buffer d2 = buffer d"
proof -
  let ?k = "unat (write_cmd s)" and ?ls = "lines m d"
  let ?p = "length (concat (take ?k ?ls))" and ?n = "min (unat count) (length (concat (drop ?k ?ls)))"
  note S = seek_request [OF assms(1,8-10)]
  let ?d1 = "d\<lparr>seekto_position := of_nat ?p, seek := True\<rparr>"
  have "dev_inv m ?d1" "\<not> mutex ?d1" "seek ?d1" "unat pos < length (concat (lines m ?d1))"
    "?k < length (lines m ?d1)" "unat (seekto_position ?d1) = length (concat (take ?k (lines m ?d1)))"
    "?n = min (unat count) (run_left (wrap_at (buffer ?d1)) (lines m ?d1) (unat (seekto_position ?d1)))"
    "findable ?d1 (seekto_position ?d1)"
    using assms S(2,4) by simp_all
  note after = aesd_read_after_seek [OF this(1) assms(2,3) this(2) assms(5) this(3) assms(6) this(4-8)]
  obtain m' rest where r: "aesd_read env m ?d1 count pos = Inr (m', ?d1\<lparr>seek := False\<rparr>, of_nat ?p + of_nat ?n, int ?n,
      take ?n (concat (drop ?k ?ls)) @ rest)" "lines m' ?d1 = ?ls" "dev_inv m' ?d1"
    using after S(5) by auto
  have "take ?n (concat (drop ?k ?ls)) = take (unat count) (concat (drop ?k ?ls))" by (simp add: min_def)
  with S(1) r show ?thesis
    by (intro exI [of _ ?d1] exI [of _ m'] exI [of _ "?d1\<lparr>seek := False\<rparr>"] exI [of _ rest]) simp
qed

section \<open>Properties\<close>

text \<open>
  C26. A seek to write command \<open>k\<close> sets the position to the bytes of the first \<open>k\<close> lines in the
  order of the array, which begins where the ring wraps, plus the offset. That is the order the
  lines are read in when the oldest line is in the first slot.
\<close>

theorem seek_counts_in_array_order:
  assumes "dev_inv m d" and "unat (write_cmd s) \<le> length (lines m d)"
  shows "aesd_adjust_file_offset d s = Inr (d\<lparr>seekto_position :=
      of_nat (length (concat (take (unat (write_cmd s)) (ring (lines m d) (wrap_at (buffer d)))))) +
      ucast (write_cmd_offset s), seek := True\<rparr>, 0) \<and>
    (out_offs (buffer d) = 0 \<longrightarrow> ring (lines m d) (wrap_at (buffer d)) = lines m d)"
proof -
  have "unat (write_cmd s) \<le> length (entry (buffer d))"
    using assms length_entries_le [OF dev_invD(2)] cb_invD(1) [OF dev_invD(2)]
    by (fastforce simp: length_lines)
  moreover have "ring (lines m d) (wrap_at (buffer d)) = lines m d" if "out_offs (buffer d) = 0"
    using that dev_invD(2) [OF assms(1)] by (simp add: ring_def wrap_at_def length_lines length_entries)
  ultimately show ?thesis
    using offset_loop_spec [of 0 "buffer d" "unat (write_cmd s)" 0] seek_position [OF assms]
    by (simp add: aesd_adjust_file_offset_def)
qed

text \<open>
  Ten lines of two bytes, wrapped so that the last slot is the oldest, and a longer line in
  the first slot: a seek to command 1 lands in the middle of a line.
\<close>

definition uneven_mem :: kmem where
  "uneven_mem = wrapped_mem(0 \<mapsto> [65, 65, 10])"

definition uneven_dev :: aesd_dev where
  "uneven_dev = demo_dev\<lparr>buffer := \<lparr>entry = \<lparr>buffptr = Ref 0, esize = 3\<rparr> # map (\<lambda>a. \<lparr>buffptr = Ref a, esize = 2\<rparr>) [1..<10],
     in_offs = 9, out_offs = 9, full = True, total_size = 21\<rparr>\<rparr>"

lemma uneven_entries: "entries (buffer uneven_dev) =
    \<lparr>buffptr = Ref 9, esize = 2\<rparr> # \<lparr>buffptr = Ref 0, esize = 3\<rparr> # map (\<lambda>a. \<lparr>buffptr = Ref a, esize = 2\<rparr>) [1..<9]"
  by (simp add: uneven_dev_def entries_def ring_def upt_rec)

lemma uneven_lines: "lines uneven_mem uneven_dev = [74, 10] # [65, 65, 10] # map (\<lambda>a. [of_nat a + 65, 10]) [1..<9]"
  unfolding lines_def uneven_entries by (simp add: bytes_of_def uneven_mem_def wrapped_mem_def)

lemma stored_entryI:
  "m a = Some c \<Longrightarrow> c \<noteq> [] \<Longrightarrow> length c < 2 ^ 31 \<Longrightarrow> unat n = length c \<Longrightarrow>
     stored m \<lparr>buffptr = Ref a, esize = n\<rparr> (bytes_of m \<lparr>buffptr = Ref a, esize = n\<rparr>)"
  by (simp add: stored_def bytes_of_def)

lemma uneven_mem_0: "uneven_mem 0 = Some [65, 65, 10]"
  by (simp add: uneven_mem_def)

lemma uneven_mem_pos: "0 < a \<Longrightarrow> a < 10 \<Longrightarrow> uneven_mem a = Some [of_nat a + 65, 10]"
  by (simp add: uneven_mem_def wrapped_mem_def)

lemma uneven_inv: "dev_inv uneven_mem uneven_dev"
proof -
  have "finite (dom uneven_mem)"
    by (rule finite_subset [of _ "{..<10}"]) (auto simp: uneven_mem_def wrapped_mem_def split: if_splits)
  moreover have "cb_inv (buffer uneven_dev)"
    unfolding cb_inv_def uneven_entries by (simp add: uneven_dev_def MAXW_eq upt_rec)
  moreover have "\<not> partial uneven_dev" by (simp add: uneven_dev_def)
  moreover have "stored uneven_mem e (bytes_of uneven_mem e)" if "e \<in> set (entries (buffer uneven_dev))" for e
  proof -
    have "set (entries (buffer uneven_dev)) = insert \<lparr>buffptr = Ref 9, esize = 2\<rparr>
        (insert \<lparr>buffptr = Ref 0, esize = 3\<rparr> ((\<lambda>a. \<lparr>buffptr = Ref a, esize = 2\<rparr>) ` {1..<9}))"
      unfolding uneven_entries by (simp only: list.set set_map set_upt)
    with that have "e = \<lparr>buffptr = Ref 0, esize = 3\<rparr> \<or> e = \<lparr>buffptr = Ref 9, esize = 2\<rparr> \<or>
        (\<exists>a \<in> {1..<9}. e = \<lparr>buffptr = Ref a, esize = 2\<rparr>)"
      by (simp only: insert_iff image_iff) blast
    then consider "e = \<lparr>buffptr = Ref 0, esize = 3\<rparr>" | "e = \<lparr>buffptr = Ref 9, esize = 2\<rparr>"
      | a where "a \<in> {1..<9}" "e = \<lparr>buffptr = Ref a, esize = 2\<rparr>"
      by blast
    then show ?thesis
    proof cases
      case 1
      show ?thesis unfolding 1 by (rule stored_entryI, rule uneven_mem_0) simp_all
    next
      case 2
      have "uneven_mem 9 = Some [of_nat 9 + 65, 10]" by (rule uneven_mem_pos) simp_all
      then show ?thesis unfolding 2 by (rule stored_entryI) simp_all
    next
      case (3 a)
      have "uneven_mem a = Some [of_nat a + 65, 10]" using 3 by (intro uneven_mem_pos) simp_all
      then show ?thesis unfolding 3(2) by (rule stored_entryI) simp_all
    qed
  qed
  moreover have "distinct (map buffptr (entries (buffer uneven_dev)))"
    unfolding uneven_entries by (simp add: upt_rec)
  moreover have "\<forall>l \<in> set (lines uneven_mem uneven_dev). last l = newline"
    unfolding uneven_lines by auto
  ultimately show ?thesis by (auto simp: dev_inv_def owned_def)
qed

text \<open>The second line held starts at byte 2, but the seek goes to byte 3.\<close>

theorem seek_counts_in_array_order_witness:
  "aesd_adjust_file_offset uneven_dev \<lparr>write_cmd = 1, write_cmd_offset = 0\<rparr> =
     Inr (uneven_dev\<lparr>seekto_position := 3, seek := True\<rparr>, 0) \<and>
   length (concat (take 1 (lines uneven_mem uneven_dev))) = 2"
proof -
  have "ring (lines uneven_mem uneven_dev) (wrap_at (buffer uneven_dev)) ! 0 = [65, 65, 10]"
    unfolding uneven_lines by (simp add: ring_def wrap_at_def uneven_dev_def MAXW_eq)
  moreover have "take 1 (ring (lines uneven_mem uneven_dev) (wrap_at (buffer uneven_dev))) =
      [ring (lines uneven_mem uneven_dev) (wrap_at (buffer uneven_dev)) ! 0]"
    by (intro nth_equalityI) (simp_all add: uneven_lines)
  ultimately have "aesd_adjust_file_offset uneven_dev \<lparr>write_cmd = 1, write_cmd_offset = 0\<rparr> =
     Inr (uneven_dev\<lparr>seekto_position := 3, seek := True\<rparr>, 0)"
    using seek_counts_in_array_order [OF uneven_inv, of "\<lparr>write_cmd = 1, write_cmd_offset = 0\<rparr>"]
    by (simp add: uneven_lines)
  then show ?thesis by (simp add: uneven_lines)
qed

text \<open>
  A seek to a write command beyond the tenth reads past the array of entries, whatever the
  device holds; the request is not checked.
\<close>

theorem seek_beyond_array_out_of_bounds:
  assumes "dev_inv m d" and "10 < unat (write_cmd s)"
  shows "aesd_adjust_file_offset d s = Inl OutOfBounds"
  using offset_loop_spec [of 0 "buffer d" "unat (write_cmd s)" 0] assms(2)
    cb_invD(1) [OF dev_invD(2) [OF assms(1)]]
  by (simp add: aesd_adjust_file_offset_def MAXW_eq)

theorem seek_beyond_array_out_of_bounds_witness:
  "aesd_adjust_file_offset demo_dev \<lparr>write_cmd = 11, write_cmd_offset = 0\<rparr> = Inl OutOfBounds"
  using seek_beyond_array_out_of_bounds [OF demo_inv, of "\<lparr>write_cmd = 11, write_cmd_offset = 0\<rparr>"]
  by simp

text \<open>
  While nothing has been evicted and no slot shows a garbage size, a seek to the start of the
  \<open>k\<close>-th line followed by a read returns the lines from the \<open>k\<close>-th on, cut to the request.
\<close>

theorem seek_then_read:
  assumes "dev_inv m d" and "good_alloc (alloc env)" "total_alloc (alloc env)"
    and "\<not> mutex d" "\<not> relocked env" and "unat count < 2 ^ 31"
    and "unat pos < length (concat (lines m d))" and "\<not> full (buffer d)"
    and "unat (write_cmd s) < length (lines m d)" and "write_cmd_offset s = 0"
    and "slots_sane (buffer d)"
  shows "\<exists>d1 m' d2 rest. aesd_adjust_file_offset d s = Inr (d1, 0) \<and>
    aesd_read env m d1 count pos = Inr (m', d2,
      of_nat (length (concat (take (unat (write_cmd s)) (lines m d)))) +
        of_nat (min (unat count) (length (concat (drop (unat (write_cmd s)) (lines m d))))),
      int (min (unat count) (length (concat (drop (unat (write_cmd s)) (lines m d))))),
      take (unat count) (concat (drop (unat (write_cmd s)) (lines m d))) @ rest) \<and>
    lines m' d2 = lines m d \<and> \<not> seek d2"
  using seek_read [OF assms] by blast

theorem seek_then_read_witness:
  "\<exists>d1 m' d2 rest. aesd_adjust_file_offset demo_dev \<lparr>write_cmd = 1, write_cmd_offset = 0\<rparr> = Inr (d1, 0) \<and>
    aesd_read demo_env demo_mem d1 4 0 = Inr (m', d2, 5, 2, [99, 10] @ rest) \<and> \<not> seek d2"
proof -
  let ?s = "\<lparr>write_cmd = 1, write_cmd_offset = 0\<rparr>"
  have prem: "good_alloc (alloc demo_env)" "total_alloc (alloc demo_env)" "\<not> mutex demo_dev" "\<not> relocked demo_env"
      "unat (4 :: u64) < 2 ^ 31" "unat (0 :: u64) < length (concat (lines demo_mem demo_dev))"
      "\<not> full (buffer demo_dev)" "unat (write_cmd ?s) < length (lines demo_mem demo_dev)" "write_cmd_offset ?s = 0"
      "slots_sane (buffer demo_dev)"
    by (simp_all add: good_alloc_bump total_alloc_bump demo_lines demo_two_def slots_sane_def)
  show ?thesis
    using seek_then_read [OF demo_inv prem] unfolding demo_lines by simp blast
qed

text \<open>
  A flush leaves an empty device: no lines, no pending bytes, no seek. If the ring was not
  full, the blocks of all lines are freed. The mutex is not looked at.
\<close>

theorem flush_empties_device:
  assumes "dev_inv m d"
  shows "\<exists>m' d'. aesd_flush m d = Inr (m', d', 0) \<and> dev_inv m' d' \<and> view m' d' = ([], []) \<and>
    \<not> seek d' \<and> mutex d' = mutex d \<and>
    (\<not> full (buffer d) \<longrightarrow> (\<forall>e \<in> set (entries (buffer d)). block m' (buffptr e) = Inl Dangling))"
proof -
  define ps where "ps = buffptr ` set (take (unat (in_offs (buffer d))) (entry (buffer d)))"
  let ?m = "\<lambda>a. if Ref a \<in> ps then None else m a"
  obtain d' where d': "aesd_flush m d = Inr (?m, d', 0)" "dev_inv ?m d'" "view ?m d' = ([], [])"
      "\<not> seek d'" "mutex d' = mutex d"
    using aesd_flush_spec [OF assms, folded ps_def] by auto
  have "block ?m (buffptr e) = Inl Dangling"
    if nf: "\<not> full (buffer d)" and e: "e \<in> set (entries (buffer d))" for e
  proof -
    obtain a where a: "buffptr e = Ref a" using dev_invD(3) [OF assms e] by (auto simp: stored_def)
    have "buffptr e \<in> ps" using e low_slots(4) [OF assms nf] by (simp add: ps_def)
    then show ?thesis using a by simp
  qed
  with d' show ?thesis by blast
qed

theorem flush_empties_device_witness:
  "\<exists>m' d'. aesd_flush demo_mem demo_dev = Inr (m', d', 0) \<and> view m' d' = ([], []) \<and>
     block m' (Ref 1) = Inl Dangling"
proof -
  have "\<not> full demo_two" by (simp add: demo_two_def)
  then show ?thesis
    using flush_empties_device [OF demo_inv] by (fastforce simp: demo_entries)
qed

text \<open>
  A flush frees exactly as many blocks as \<open>in_offs\<close> says. A full ring holds ten lines but
  \<open>in_offs\<close> is below ten, so flushing it forgets at least one line without freeing its block.
\<close>

theorem flush_of_full_ring_leaks:
  assumes "dev_inv m d" and "full (buffer d)"
  shows "\<exists>m' d'. aesd_flush m d = Inr (m', d', 0) \<and>
    card (dom m') + unat (in_offs (buffer d)) = card (dom m) \<and>
    unat (in_offs (buffer d)) < length (lines m d) \<and> lines m' d' = []"
proof -
  have "unat (in_offs (buffer d)) < length (lines m d)"
    using assms(2) cb_invD(2) [OF dev_invD(2) [OF assms(1)]] length_entries [OF dev_invD(2) [OF assms(1)]]
    by (simp add: length_lines)
  moreover obtain d' where "aesd_flush m d = Inr (\<lambda>a. if Ref a \<in> buffptr ` set (take (unat (in_offs (buffer d))) (entry (buffer d))) then None else m a, d', 0)"
      "view (\<lambda>a. if Ref a \<in> buffptr ` set (take (unat (in_offs (buffer d))) (entry (buffer d))) then None else m a) d' = ([], [])"
    using aesd_flush_spec [OF assms(1)] by blast
  ultimately show ?thesis
    using card_freed [OF assms(1)] by (intro exI conjI) (auto simp: view_def)
qed

theorem flush_of_full_ring_leaks_witness:
  "\<exists>m' d'. aesd_flush wrapped_mem wrapped_dev = Inr (m', d', 0) \<and> card (dom m') = 1 \<and> lines m' d' = []"
proof -
  have "dom wrapped_mem = {..<10}" by (auto simp: wrapped_mem_def split: if_splits)
  then have "card (dom wrapped_mem) = 10" by simp
  then show ?thesis
    using flush_of_full_ring_leaks [OF wrapped_inv] by (fastforce simp: wrapped_dev_def)
qed

text \<open>
  Request codes of another type, or with a number above 2, are answered with \<open>-ENOTTY\<close>, and
  a seek whose argument cannot be copied with \<open>-EINVAL\<close>; the heap and the device do not change.
\<close>

theorem ioctl_rejects_bad_requests:
  "(ioc_type c cmd \<noteq> AESD_IOC_MAGIC \<or> 2 < ioc_nr c cmd \<longrightarrow>
     aesd_ioctl c m d cmd copied = Inr (m, d, - ENOTTY)) \<and>
   (good_ioc c \<and> fst copied \<noteq> 0 \<longrightarrow>
     aesd_ioctl c m d (AESDCHAR_IOCSEEKTO c) copied = Inr (m, d, - EINVAL))"
  by (auto simp: aesd_ioctl_def good_ioc_def AESDCHAR_IOC_MAXNR_def)

text \<open>The packing of \<open>asm-generic/ioctl.h\<close>: number, type, size and direction from bit 0, 8, 16 and 30.\<close>

definition asm_generic :: ioc where
  "asm_generic = \<lparr>ioc_type = (\<lambda>cmd. cmd div 256 mod 256), ioc_nr = (\<lambda>cmd. cmd mod 256),
     ioc_io = (\<lambda>t n. t * 256 + n), ioc_iowr = (\<lambda>t n s. 3 * 2 ^ 30 + s * 2 ^ 16 + t * 256 + n)\<rparr>"

lemma good_asm_generic: "good_ioc asm_generic"
  by (simp add: good_ioc_def asm_generic_def AESDCHAR_IOCSEEKTO_def AESDCHAR_FLUSH_def AESD_IOC_MAGIC_def)

lemma asm_generic_differ: "AESDCHAR_IOCSEEKTO asm_generic \<noteq> AESDCHAR_FLUSH asm_generic"
  by (simp add: asm_generic_def AESDCHAR_IOCSEEKTO_def AESDCHAR_FLUSH_def AESD_IOC_MAGIC_def)

theorem ioctl_rejects_bad_requests_witness:
  "aesd_ioctl asm_generic demo_mem demo_dev 0x1603 (0, \<lparr>write_cmd = 0, write_cmd_offset = 0\<rparr>) =
     Inr (demo_mem, demo_dev, - 25) \<and>
   aesd_ioctl asm_generic demo_mem demo_dev (AESDCHAR_IOCSEEKTO asm_generic)
     (8, \<lparr>write_cmd = 0, write_cmd_offset = 0\<rparr>) = Inr (demo_mem, demo_dev, - 22)"
proof -
  have "2 < ioc_nr asm_generic 0x1603" by (simp add: asm_generic_def)
  then show ?thesis
    using ioctl_rejects_bad_requests [of asm_generic "0x1603" demo_mem demo_dev "(0, \<lparr>write_cmd = 0, write_cmd_offset = 0\<rparr>)"]
      ioctl_rejects_bad_requests [of asm_generic "0x1603" demo_mem demo_dev "(8, \<lparr>write_cmd = 0, write_cmd_offset = 0\<rparr>)"]
    by (simp add: good_asm_generic ENOTTY_def EINVAL_def)
qed

text \<open>The two requests of the driver reach their operations, also while the mutex is held.\<close>

theorem ioctl_dispatches:
  assumes "good_ioc c" and "AESDCHAR_IOCSEEKTO c \<noteq> AESDCHAR_FLUSH c"
  shows "aesd_ioctl c m d (AESDCHAR_IOCSEEKTO c) (0, s) =
      bnd (aesd_adjust_file_offset d s) (\<lambda>(d', r). Inr (m, d', r)) \<and>
    aesd_ioctl c m d (AESDCHAR_FLUSH c) copied = aesd_flush m d"
  using assms by (simp add: aesd_ioctl_def good_ioc_def AESDCHAR_IOC_MAXNR_def)

theorem ioctl_dispatches_witness:
  "\<exists>d'. aesd_ioctl asm_generic demo_mem (demo_dev\<lparr>mutex := True\<rparr>) (AESDCHAR_IOCSEEKTO asm_generic)
     (0, \<lparr>write_cmd = 1, write_cmd_offset = 1\<rparr>) = Inr (demo_mem, d', 0) \<and> seekto_position d' = 4"
  using ioctl_dispatches [OF good_asm_generic asm_generic_differ, of demo_mem "demo_dev\<lparr>mutex := True\<rparr>" "\<lparr>write_cmd = 1, write_cmd_offset = 1\<rparr>"]
  by (simp add: aesd_adjust_file_offset_def entry_at_def demo_two_def)

text \<open>
  \<open>aesd_llseek\<close> asks the kernel's helper with the number of bytes the device holds as the
  end of the file and 307200 as the greatest position, for the three ways of seeking it knows,
  and refuses any other with \<open>-EINVAL\<close>.
\<close>

theorem llseek_uses_device_size:
  assumes "dev_inv m d"
  shows "aesd_llseek generic d pos offset whence =
    (if whence \<in> {0, 1, 2}
     then generic pos offset whence 307200 (of_nat (length (concat (lines m d))))
     else (pos, - 22))"
proof -
  have "total_size (buffer d) = of_nat (length (concat (lines m d)))"
    using total_size_lines [OF assms] by (metis of_nat_unat ucast_id)
  then show ?thesis
    by (simp add: aesd_llseek_def SEEK_SET_def SEEK_CUR_def SEEK_END_def MAXW_eq EINVAL_def)
qed

text \<open>The helper as documented, for non-negative positions: seek to the end of five bytes.\<close>

definition generic_seek :: llseek_size where
  "generic_seek pos offset whence most eof =
     (let base = (if whence = SEEK_SET then 0 else if whence = SEEK_CUR then pos else eof);
          new = base + offset
      in if sint new < 0 \<or> sint most < sint new then (pos, - EINVAL) else (new, sint new))"

theorem llseek_uses_device_size_witness:
  "aesd_llseek generic_seek demo_dev 1 0 2 = (5, 5) \<and> aesd_llseek generic_seek demo_dev 1 0 3 = (1, - 22)"
  using llseek_uses_device_size [OF demo_inv, of generic_seek 1 0 2] llseek_uses_device_size [OF demo_inv, of generic_seek 1 0 3]
  by (simp add: demo_lines generic_seek_def SEEK_SET_def SEEK_CUR_def)

end
