(* ===== verification/Aesd_Module.thy ===== *)
theory Aesd_Module
  imports Aesd_Ioctl
begin

text \<open>
  Loading and unloading (\<open>aesd_setup_cdev\<close>, \<open>aesd_init_module\<close>, \<open>aesd_cleanup_module\<close> of
  \<open>main.c\<close>), and the driver as a transition system: from loading on, every call that does not
  fault keeps the device invariant.
\<close>

section \<open>Loading and unloading\<close>

text \<open>
  What the kernel answers while the module is loaded: \<open>alloc_chrdev_region\<close>, \<open>cdev_add\<close>, the
  sizes of its own mutex structure and of \<open>struct aesd_circular_buffer\<close>, and how the bytes of an
  allocated block read as a \<open>struct aesd_buffer_entry\<close>.
\<close>

record load_env =
  load_alloc :: allocator
  alloc_chrdev_region :: int
  cdev_add :: int
  sizeof_mutex :: u64
  sizeof_buffer :: u64
  decode_entry :: "u8 list \<Rightarrow> aesd_buffer_entry"

text \<open>The registrations the module holds with the kernel.\<close>

record registration =
  region :: bool
  cdev_live :: bool

definition aesd_setup_cdev :: "load_env \<Rightarrow> registration \<Rightarrow> registration \<times> int" where
  "aesd_setup_cdev le reg =
     (if cdev_add le = 0 then (reg\<lparr>cdev_live := True\<rparr>, 0) else (reg, cdev_add le))"

text \<open>Every slot is filled with what a fresh block happens to hold; the block stays behind.\<close>

fun fill_slots :: "load_env \<Rightarrow> kmem \<Rightarrow> aesd_circular_buffer \<Rightarrow> nat \<Rightarrow> nat \<Rightarrow>
    (kmem \<times> aesd_circular_buffer) res" where
  "fill_slots le m b 0 i = Inr (m, b)"
| "fill_slots le m b (Suc n) i =
     (let (m, add_entry) = kmalloc (load_alloc le) m 16
      in bnd (block m add_entry) (\<lambda>bs.
           fill_slots le m (b\<lparr>entry := (entry b)[i := decode_entry le bs]\<rparr>) n (Suc i)))"

text \<open>The result: heap, device if one was set up, registrations and return value.\<close>

definition aesd_init_module ::
  "load_env \<Rightarrow> kmem \<Rightarrow> registration \<Rightarrow> (kmem \<times> aesd_dev option \<times> registration \<times> int) res" where
  "aesd_init_module le m reg =
     (let (m, aesd_mutex) = kmalloc (load_alloc le) m (sizeof_mutex le);
          (m, aesd_buffer) = kmalloc (load_alloc le) m (sizeof_buffer le);
          (m, aesd_partial_entry) = kmalloc (load_alloc le) m 16;
          result = alloc_chrdev_region le
      in if result < 0 then Inr (m, None, reg, result)
         else
           let reg = reg\<lparr>region := True\<rparr>
           in bnd (block m aesd_mutex) (\<lambda>_.
              bnd (block m aesd_buffer) (\<lambda>_.
              bnd (block m aesd_partial_entry) (\<lambda>bs.
                let b = aesd_circular_buffer_init\<lparr>full := False, in_offs := 0, out_offs := 0, total_size := 0\<rparr>
                in bnd (fill_slots le m b MAXW 0) (\<lambda>(m, b).
                   let dev = \<lparr>mutex = False, buffer = b,
                         partial_entry = (decode_entry le bs)\<lparr>esize := 0\<rparr>, partial = False,
                         seekto_position = 0, seek = False, mutex_block = aesd_mutex,
                         buffer_block = aesd_buffer, partial_entry_block = aesd_partial_entry\<rparr>;
                       (reg, result) = aesd_setup_cdev le reg
                   in Inr (m, Some dev, if result \<noteq> 0 then reg\<lparr>region := False\<rparr> else reg, result))))))"

text \<open>
  \<open>cdev_del\<close> and \<open>mutex_destroy\<close> come first; the loop over the slots is the one of \<open>aesd_flush\<close>.
  The mutex's own block stays behind.
\<close>

definition aesd_cleanup_module ::
  "kmem \<Rightarrow> aesd_dev \<Rightarrow> registration \<Rightarrow> (kmem \<times> registration) res" where
  "aesd_cleanup_module m dev reg =
     bnd (flush_loop m (buffer dev) MAXW 0) (\<lambda>m.
     bnd (kfree m (buffer_block dev)) (\<lambda>m.
     bnd (kfree m (partial_entry_block dev)) (\<lambda>m.
       Inr (m, reg\<lparr>region := False, cdev_live := False\<rparr>))))"

section \<open>What loading sets up\<close>

lemma fill_slots_spec:
  assumes al: "good_alloc (load_alloc le)" "total_alloc (load_alloc le)"
  shows "finite (dom m) \<Longrightarrow> i + n = length (entry b) \<Longrightarrow>
    \<exists>m' es. fill_slots le m b n i = Inr (m', b\<lparr>entry := es\<rparr>) \<and> m \<subseteq>\<^sub>m m' \<and> finite (dom m') \<and>
      card (dom m') = card (dom m) + n \<and> length es = length (entry b) \<and>
      (\<forall>j < length es. es ! j = entry b ! j \<or> es ! j \<in> range (decode_entry le)) \<and>
      (\<forall>j < i. es ! j = entry b ! j)"
proof (induction n arbitrary: m b i)
  case 0
  have "entry b = entry (b\<lparr>entry := entry b\<rparr>)" "b = b\<lparr>entry := entry b\<rparr>" by simp_all
  with 0 show ?case by (intro exI [of _ m] exI [of _ "entry b"]) auto
next
  case (Suc n)
  obtain a bs where a: "load_alloc le m 16 = Some (a, bs)" "m a = None"
    by (rule total_allocE [OF al(2,1) Suc.prems(1), of 16]) auto
  let ?m = "m(a \<mapsto> bs)" and ?b = "b\<lparr>entry := (entry b)[i := decode_entry le bs]\<rparr>"
  have step: "fill_slots le m b (Suc n) i = fill_slots le ?m ?b n (Suc i)" using a by simp
  obtain m' es where IH: "fill_slots le ?m ?b n (Suc i) = Inr (m', ?b\<lparr>entry := es\<rparr>)" "?m \<subseteq>\<^sub>m m'"
      "finite (dom m')" "card (dom m') = card (dom ?m) + n" "length es = length (entry b)"
      "\<forall>j < length es. es ! j = entry ?b ! j \<or> es ! j \<in> range (decode_entry le)"
      "\<forall>j < Suc i. es ! j = entry ?b ! j"
    using Suc.IH [of ?m "Suc i" ?b] Suc.prems by fastforce
  have le: "m \<subseteq>\<^sub>m m'" using IH(2) map_le_fresh [of m a, OF a(2)] map_le_trans by blast
  have card: "card (dom m') = card (dom m) + Suc n"
    using IH(4) a(2) Suc.prems(1) by (simp add: domIff)
  have "es ! j = entry b ! j \<or> es ! j \<in> range (decode_entry le)" if "j < length es" for j
    using IH(5,6) that by (cases "j = i") auto
  moreover have "\<forall>j < i. es ! j = entry b ! j" using IH(7) by auto
  ultimately show ?case
    using step IH(1,3,5) le card by (intro exI [of _ m'] exI [of _ es]) auto
qed

text \<open>
  \<open>loadable\<close> is what loading needs of the kernel: blocks for the asking, of the sizes the two
  structures have. What the ten blocks hold, and how it reads as an entry, is left open.
\<close>

definition loadable :: "load_env \<Rightarrow> bool" where
  "loadable le \<longleftrightarrow> good_alloc (load_alloc le) \<and> total_alloc (load_alloc le) \<and>
     unat (sizeof_mutex le) < 2 ^ 31 \<and> unat (sizeof_buffer le) < 2 ^ 31"

lemma init_slots: "length (entry aesd_circular_buffer_init) = MAXW"
    "full aesd_circular_buffer_init = False" "in_offs aesd_circular_buffer_init = 0"
    "out_offs aesd_circular_buffer_init = 0" "total_size aesd_circular_buffer_init = 0"
  by (simp_all add: aesd_circular_buffer_init_def)

lemma empty_device_inv:
  assumes "finite (dom m)" and "length es = MAXW"
    and "buffer d = aesd_circular_buffer_init\<lparr>entry := es\<rparr>" and "\<not> partial d"
  shows "dev_inv m d \<and> view m d = ([], [])"
proof -
  have "entries (buffer d) = []" using assms(3) by (simp add: entries_def init_slots)
  then have "cb_inv (buffer d)" "lines m d = []"
    using assms(2,3) by (simp_all add: cb_inv_def init_slots MAXW_eq lines_def)
  then show ?thesis
    using assms \<open>entries (buffer d) = []\<close>
    by (auto simp: dev_inv_def owned_def view_def pending_def in_set_conv_nth)
qed

lemma aesd_init_module_spec:
  assumes ok: "loadable le" and fin: "finite (dom m)" and region: "0 \<le> alloc_chrdev_region le"
  shows "\<exists>m' d. aesd_init_module le m reg = Inr (m', Some d,
      reg\<lparr>region := (cdev_add le = 0), cdev_live := (cdev_add le = 0 \<or> cdev_live reg)\<rparr>, cdev_add le) \<and>
    dev_inv m' d \<and> view m' d = ([], []) \<and> \<not> mutex d \<and> \<not> partial d \<and> \<not> seek d \<and>
    card (dom m') = card (dom m) + 13 \<and> in_offs (buffer d) = 0 \<and>
    (\<exists>a b bs cs. buffer_block d = Ref a \<and> partial_entry_block d = Ref b \<and> a \<noteq> b \<and>
      m' a = Some bs \<and> m' b = Some cs)"
proof -
  have al: "good_alloc (load_alloc le)" "total_alloc (load_alloc le)" using ok by (simp_all add: loadable_def)
  obtain a1 b1 where a1: "load_alloc le m (sizeof_mutex le) = Some (a1, b1)" "m a1 = None"
    by (rule total_allocE [OF al(2,1) fin, of "sizeof_mutex le"]) (use ok in \<open>auto simp: loadable_def\<close>)
  let ?m1 = "m(a1 \<mapsto> b1)"
  obtain a2 b2 where a2: "load_alloc le ?m1 (sizeof_buffer le) = Some (a2, b2)" "?m1 a2 = None"
    by (rule total_allocE [OF al(2,1), of ?m1 "sizeof_buffer le"]) (use ok fin in \<open>auto simp: loadable_def\<close>)
  let ?m2 = "?m1(a2 \<mapsto> b2)"
  obtain a3 b3 where a3: "load_alloc le ?m2 16 = Some (a3, b3)" "?m2 a3 = None"
    by (rule total_allocE [OF al(2,1), of ?m2 16]) (use fin in auto)
  let ?m3 = "?m2(a3 \<mapsto> b3)"
  have ne: "a2 \<noteq> a1" "a3 \<noteq> a1" "a3 \<noteq> a2" "m a2 = None" "m a3 = None"
    using a2(2) a3(2) by (auto split: if_splits)
  have "dom ?m3 = insert a1 (insert a2 (insert a3 (dom m)))" by auto
  then have card3: "card (dom ?m3) = card (dom m) + 3"
    using fin a1(2) ne by (simp add: domIff)
  let ?b = "aesd_circular_buffer_init"
  obtain m' es where f: "fill_slots le ?m3 ?b MAXW 0 = Inr (m', ?b\<lparr>entry := es\<rparr>)"
      "?m3 \<subseteq>\<^sub>m m'" "finite (dom m')" "card (dom m') = card (dom ?m3) + MAXW" "length es = MAXW"
      "\<forall>j < length es. es ! j = entry ?b ! j \<or> es ! j \<in> range (decode_entry le)"
    using fill_slots_spec [OF al, of ?m3 0 MAXW ?b] fin init_slots(1) by auto
  have upd: "?b\<lparr>full := False, in_offs := 0, out_offs := 0, total_size := 0\<rparr> = ?b"
    by (simp add: aesd_circular_buffer_init_def)
  define d where "d = \<lparr>mutex = False, buffer = ?b\<lparr>entry := es\<rparr>,
      partial_entry = (decode_entry le b3)\<lparr>esize := 0\<rparr>, partial = False,
      seekto_position = 0, seek = False, mutex_block = Ref a1, buffer_block = Ref a2, partial_entry_block = Ref a3\<rparr>"
  have live: "m' a2 = Some b2" "m' a3 = Some b3"
    using f(2) ne by (auto simp: map_le_def)
  have "aesd_init_module le m reg = Inr (m', Some d,
      reg\<lparr>region := (cdev_add le = 0), cdev_live := (cdev_add le = 0 \<or> cdev_live reg)\<rparr>, cdev_add le)"
    using a1 a2 a3 f(1) region ne upd
    by (simp add: aesd_init_module_def aesd_setup_cdev_def d_def Let_def)
  moreover have "dev_inv m' d \<and> view m' d = ([], [])"
    using f(3,5) by (intro empty_device_inv) (simp_all add: d_def)
  ultimately show ?thesis
    using f(4) card3 live ne by (intro exI [of _ m'] exI [of _ d]) (simp add: d_def MAXW_eq init_slots)
qed

section \<open>Properties of loading and unloading\<close>

text \<open>A kernel whose fresh blocks hold a stray pointer and a size of all ones.\<close>

definition demo_load :: load_env where
  "demo_load = \<lparr>load_alloc = bump, alloc_chrdev_region = 0, cdev_add = 0, sizeof_mutex = 32,
     sizeof_buffer = 176, decode_entry = (\<lambda>bs. \<lparr>buffptr = Ref 1, esize = - 1\<rparr>)\<rparr>"

lemma demo_loadable: "loadable demo_load"
  by (simp add: loadable_def demo_load_def good_alloc_bump total_alloc_bump)

text \<open>
  Loading ends in the empty device, which satisfies the device invariant, even though the
  ten slots are filled with whatever the allocator's blocks hold. The region is kept exactly
  when \<open>cdev_add\<close> succeeds, and its result is returned.
\<close>

theorem init_module_establishes_invariant:
  assumes "loadable le" and "finite (dom m)" and "0 \<le> alloc_chrdev_region le"
  shows "\<exists>m' d reg'. aesd_init_module le m reg = Inr (m', Some d, reg', cdev_add le) \<and>
    dev_inv m' d \<and> view m' d = ([], []) \<and> \<not> mutex d \<and> \<not> seek d \<and>
    (region reg' \<longleftrightarrow> cdev_add le = 0)"
  using aesd_init_module_spec [OF assms, of reg] by fastforce

theorem init_module_establishes_invariant_witness:
  "\<exists>m' d reg'. aesd_init_module demo_load Map.empty \<lparr>region = False, cdev_live = False\<rparr> = Inr (m', Some d, reg', 0) \<and>
     dev_inv m' d \<and> view m' d = ([], []) \<and> region reg'"
proof -
  have p: "finite (dom Map.empty)" "0 \<le> alloc_chrdev_region demo_load" "cdev_add demo_load = 0"
    by (simp_all add: demo_load_def)
  show ?thesis
    using init_module_establishes_invariant [OF demo_loadable p(1,2), of "\<lparr>region = False, cdev_live = False\<rparr>"] p(3)
    by auto
qed

text \<open>
  Loading and at once unloading the module leaves eleven blocks allocated: that of the
  mutex, and the ten whose contents filled the slots.
\<close>

theorem load_unload_leaks_eleven:
  assumes "loadable le" and "finite (dom m)" and "0 \<le> alloc_chrdev_region le"
  shows "\<exists>m1 d reg1 m2 reg2. aesd_init_module le m reg = Inr (m1, Some d, reg1, cdev_add le) \<and>
    aesd_cleanup_module m1 d reg1 = Inr (m2, reg2) \<and>
    \<not> region reg2 \<and> \<not> cdev_live reg2 \<and> card (dom m2) = card (dom m) + 11"
proof -
  obtain m1 d reg1 a b bs cs where i: "aesd_init_module le m reg = Inr (m1, Some d, reg1, cdev_add le)"
      "dev_inv m1 d" "card (dom m1) = card (dom m) + 13" "in_offs (buffer d) = 0"
      "buffer_block d = Ref a" "partial_entry_block d = Ref b" "a \<noteq> b" "m1 a = Some bs" "m1 b = Some cs"
    using aesd_init_module_spec [OF assms, of reg] by metis
  let ?m2 = "m1(a := None, b := None)"
  have "flush_loop m1 (buffer d) MAXW 0 = Inr m1"
    using flush_loop_spec [of "buffer d" 0 MAXW m1] cb_invD(1) [OF dev_invD(2) [OF i(2)]] i(4) by simp
  then have c: "aesd_cleanup_module m1 d reg1 = Inr (?m2, reg1\<lparr>region := False, cdev_live := False\<rparr>)"
    using i(5-9) by (simp add: aesd_cleanup_module_def)
  have "dom ?m2 = dom m1 - {a, b}" by auto
  moreover have "{a, b} \<subseteq> dom m1" using i(8,9) by auto
  ultimately have "card (dom ?m2) = card (dom m) + 11"
    using i(3,7) by (simp add: card_Diff_subset)
  then show ?thesis using i(1) c by fastforce
qed

theorem load_unload_leaks_eleven_witness:
  "\<exists>m1 d reg1 m2 reg2. aesd_init_module demo_load Map.empty \<lparr>region = False, cdev_live = False\<rparr> = Inr (m1, Some d, reg1, 0) \<and>
     aesd_cleanup_module m1 d reg1 = Inr (m2, reg2) \<and> card (dom m2) = 11"
proof -
  have p: "finite (dom Map.empty)" "0 \<le> alloc_chrdev_region demo_load" "cdev_add demo_load = 0"
    by (simp_all add: demo_load_def)
  show ?thesis
    using load_unload_leaks_eleven [OF demo_loadable p(1,2), of "\<lparr>region = False, cdev_live = False\<rparr>"] p(3)
    by auto
qed

end
