(* ===== verification/Aesd_Driver.thy ===== *)
theory Aesd_Driver
  imports Aesd_Module
begin

text \<open>
  The driver as a transition system. A state is the kernel's answers, the heap and the device;
  a step is one call of an operation that does not fault, with any arguments, or another
  thread's release of the mutex. Every state reached from loading satisfies the device
  invariant.
\<close>

section \<open>A read leaves the device alone\<close>

lemma copy_bytes_frame:
  "copy_bytes m tmp data src rc n k j = Inr (m', j') \<Longrightarrow>
     dom m' = dom m \<and> (\<forall>a. Ref a \<noteq> tmp \<longrightarrow> Ref a \<noteq> data \<longrightarrow> m' a = m a)"
proof (induction n arbitrary: m k j)
  case (Suc n)
  then obtain c m1 c2 m2 where s: "store m tmp j c = Inr m1"
      "store m1 data (unat (rc + of_nat j)) c2 = Inr m2"
      "copy_bytes m2 tmp data src rc n (Suc k) (Suc j) = Inr (m', j')"
    by auto
  obtain a bs b bs' where "tmp = Ref a" "m a = Some bs" "m1 = m(a \<mapsto> bs[j := c])"
      "data = Ref b" "m1 b = Some bs'" "m2 = m1(b \<mapsto> bs'[unat (rc + of_nat j) := c2])"
    using store_Inr [OF s(1)] store_Inr [OF s(2)] by blast
  then have "dom m2 = dom m" "\<forall>a. Ref a \<noteq> tmp \<longrightarrow> Ref a \<noteq> data \<longrightarrow> m2 a = m a"
    by (auto split: if_splits)
  then show ?case using Suc.IH [OF s(3)] by simp
qed simp

lemma read_entries_frame:
  "read_entries m b tmp data count bo i2 i k rc = Inr (m', rc') \<Longrightarrow>
     dom m' = dom m \<and> (\<forall>a. Ref a \<noteq> tmp \<longrightarrow> Ref a \<noteq> data \<longrightarrow> m' a = m a)"
proof (induction m b tmp data count bo i2 i k rc rule: read_entries.induct)
  case (1 m b tmp data count bo i2 i k rc)
  show ?case
  proof (cases "i < i2")
    case False
    with 1(2) show ?thesis by (simp add: read_entries.simps [of m])
  next
    case True
    obtain e where e: "entry_at b i = Inr e"
      using 1(2) True by (auto simp: read_entries.simps [of m])
    show ?thesis
    proof (cases "esize e = 0 \<or> count - rc = 0")
      case True
      with 1(2) e show ?thesis by (auto simp: read_entries.simps [of m] split: if_splits)
    next
      case False
      let ?fin = "if rc + esize e < count then ucast (esize e) else ucast (count - rc + bo) :: u32"
      obtain m1 j where c: "copy_bytes m tmp data (buffptr e) rc (unat ?fin - k) k 0 = Inr (m1, j)"
          and r: "read_entries m1 b tmp data count bo i2 (Suc i) 0 (rc + of_nat j) = Inr (m', rc')"
        using 1(2) e True False by (auto simp: read_entries.simps [of m] Let_def)
      have "dom m' = dom m1 \<and> (\<forall>a. Ref a \<noteq> tmp \<longrightarrow> Ref a \<noteq> data \<longrightarrow> m' a = m1 a)"
        by (rule 1(1) [OF True False refl r])
      then show ?thesis using copy_bytes_frame [OF c] by metis
    qed
  qed
qed

lemma read_helper_frame:
  assumes al: "good_alloc al" and r: "aesd_circular_buffer_read_helper al m b i1 i2 data count bo = Inr (m', rc)"
  shows "\<exists>t. dom m' = dom m \<union> t \<and> t \<inter> dom m = {} \<and> finite t \<and> (\<forall>a \<in> dom m. Ref a \<noteq> data \<longrightarrow> m' a = m a)"
proof -
  obtain m1 tmp where k: "kmalloc al m count = (m1, tmp)" by fastforce
  have e: "dom m' = dom m1" "\<forall>a. Ref a \<noteq> tmp \<longrightarrow> Ref a \<noteq> data \<longrightarrow> m' a = m1 a"
    using r k read_entries_frame by (auto simp: aesd_circular_buffer_read_helper_def)
  show ?thesis
  proof (cases "al m count")
    case None
    then show ?thesis using k e by (intro exI [of _ "{}"]) auto
  next
    case (Some x)
    then obtain t ts where t: "al m count = Some (t, ts)" by (cases x) auto
    then have "m t = None" using good_allocD(1) [OF al] by blast
    then have ne: "a \<noteq> t" if "a \<in> dom m" for a using that by auto
    have "\<forall>a \<in> dom m. Ref a \<noteq> data \<longrightarrow> m' a = m a"
      using k t e(2) by (intro ballI impI) (auto dest!: ne simp del: domIff)
    moreover have "{t} \<inter> dom m = {}" using ne by blast
    moreover have "dom m' = dom m \<union> {t}" using k t e(1) by auto
    ultimately show ?thesis by (intro exI [of _ "{t}"]) simp
  qed
qed

lemma kfree_frame: "kfree m p = Inr m' \<Longrightarrow> (\<And>a. p = Ref a \<Longrightarrow> a \<notin> S) \<Longrightarrow>
    (\<forall>a \<in> S. m' a = m a) \<and> dom m' \<subseteq> dom m"
  using kfree_Inr [of m p m'] by (auto split: if_splits)

text \<open>Whatever a read does, short of a fault, every block that was in use is as it was.\<close>

lemma aesd_read_frame:
  assumes al: "good_alloc (alloc env)"
    and r: "aesd_read env m d count pos = Inr (m', d', pos', ret, user)"
  shows "m \<subseteq>\<^sub>m m' \<and> (finite (dom m) \<longrightarrow> finite (dom m')) \<and> (\<exists>x y. d' = d\<lparr>seek := x, mutex := y\<rparr>)"
proof -
  obtain m1 tmp where k1: "kmalloc (alloc env) m count = (m1, tmp)" by fastforce
  obtain m2 bo where k2: "kmalloc (alloc env) m1 8 = (m2, bo)" by fastforce
  note K1 = kmalloc_fresh [OF al k1] and K2 = kmalloc_fresh [OF al k2]
  have le2: "m \<subseteq>\<^sub>m m2" using K1(1) K2(1) by (rule map_le_trans)
  have same: "\<exists>x y. d = d\<lparr>seek := x, mutex := y\<rparr>" by (intro exI [of _ "seek d"] exI [of _ "mutex d"]) simp
  show ?thesis
  proof (cases "mutex d \<or> sint (total_size (buffer d)) \<le> sint pos")
    case True
    then have "m' = m1 \<and> d' = d" using r k1 by (auto simp: aesd_read_def split: if_splits)
    then show ?thesis using K1 same by auto
  next
    case False
    let ?pos = "if seek d then seekto_position d else pos" and ?d = "d\<lparr>seek := False\<rparr>"
    obtain i off m3 rc where h: "aesd_circular_buffer_read_helper (alloc env) m2 (buffer d) i
          (read_stop (buffer d) i) tmp count off = Inr (m3, rc)"
        and rest: "if relocked env then m' = m3 \<and> d' = ?d\<lparr>mutex := True\<rparr>
          else \<exists>m4. kfree m3 bo = Inr m4 \<and> kfree m4 tmp = Inr m' \<and> d' = ?d"
      using r k1 k2 False by (auto simp: aesd_read_def Let_def split: if_splits)
    obtain t where t: "dom m3 = dom m2 \<union> t" "t \<inter> dom m2 = {}" "finite t"
        "\<forall>a \<in> dom m2. Ref a \<noteq> tmp \<longrightarrow> m3 a = m2 a"
      using read_helper_frame [OF al h] by blast
    have fin3: "finite (dom m) \<longrightarrow> finite (dom m3)" using t(1,3) K1(3) K2(3) by simp
    have m3: "m3 a = m a" if "a \<in> dom m" for a
    proof -
      have "Ref a \<noteq> tmp" using K1(2) that by auto
      moreover have eq: "m2 a = m a" using le2 that unfolding map_le_def by metis
      moreover have "a \<in> dom m2" using that unfolding domIff eq .
      ultimately show ?thesis using t(4) by simp
    qed
    show ?thesis
    proof (cases "relocked env")
      case True
      then show ?thesis using rest m3 fin3 by (auto simp: map_le_def)
    next
      case False
      obtain m4 m5 where f: "kfree m3 bo = Inr m4" "kfree m4 tmp = Inr m5" "m' = m5" "d' = ?d"
        using rest False by auto
      have "a \<notin> dom m" if "bo = Ref a" for a
        using K2(2) [OF that] map_le_None [OF K1(1)] by (simp add: domIff)
      then have "(\<forall>a \<in> dom m. m4 a = m3 a) \<and> dom m4 \<subseteq> dom m3" using kfree_frame [OF f(1)] by blast
      moreover have "(\<forall>a \<in> dom m. m5 a = m4 a) \<and> dom m5 \<subseteq> dom m4" using kfree_frame [OF f(2)] K1(2) by blast
      ultimately have "\<forall>a \<in> dom m. m5 a = m a" "dom m5 \<subseteq> dom m3"
        using m3 by (metis, blast)
      then have "m \<subseteq>\<^sub>m m5" "finite (dom m) \<longrightarrow> finite (dom m5)"
        using fin3 finite_subset unfolding map_le_def by (metis, blast)
      moreover have "?d = d\<lparr>seek := False, mutex := mutex d\<rparr>" by simp
      ultimately show ?thesis using f(3,4) by blast
    qed
  qed
qed

text \<open>A heap that keeps every block in use keeps the device.\<close>

lemma owned_live: "dev_inv m d \<Longrightarrow> e \<in> set (owned d) \<Longrightarrow> \<exists>a. buffptr e = Ref a \<and> a \<in> dom m"
  by (fastforce simp: dev_inv_def stored_def)

lemma dev_inv_map_le:
  assumes inv: "dev_inv m d" and le: "m \<subseteq>\<^sub>m m'" and fin: "finite (dom m')"
  shows "dev_inv m' d" and "view m' d = view m d"
proof -
  have b: "bytes_of m' e = bytes_of m e" if e: "e \<in> set (owned d)" for e
  proof -
    obtain a where "buffptr e = Ref a" "a \<in> dom m" using owned_live [OF inv e] by blast
    moreover from this have "m' a = m a" using le unfolding map_le_def by metis
    ultimately show ?thesis by (simp add: bytes_of_def)
  qed
  have st: "stored m' e (bytes_of m' e)" if e: "e \<in> set (owned d)" for e
  proof -
    obtain a where a: "buffptr e = Ref a" "a \<in> dom m" using owned_live [OF inv e] by blast
    then have "m' a = m a" using le unfolding map_le_def by metis
    moreover have "stored m e (bytes_of m e)" using inv e by (simp add: dev_inv_def)
    ultimately show ?thesis using a b [OF e] by (simp add: stored_def)
  qed
  have l: "lines m' d = lines m d" using b by (simp add: lines_def owned_def)
  have p: "pending m' d = pending m d" using b by (simp add: pending_def owned_def)
  show "view m' d = view m d" using l p by (simp add: view_def)
  show "dev_inv m' d" using inv fin st unfolding dev_inv_def l p by blast
qed

section \<open>A write that does not fault keeps the invariant\<close>

lemma copy_loop_Null: "0 < n \<Longrightarrow> copy_loop m src Null at n 0 \<noteq> Inr y"
  by (subst copy_loop.simps) (cases "load m src 0"; simp)

lemma aesd_write_busy:
  assumes al: "good_alloc (alloc env)" and fin: "finite (dom m)" and mu: "mutex d"
    and w: "aesd_write env m d buf = Inr (m', d', ret)"
  shows "m \<subseteq>\<^sub>m m' \<and> finite (dom m') \<and> d' = d"
proof -
  let ?count = "of_nat (length buf) :: u64"
  obtain m1 e where k1: "kmalloc (alloc env) m 16 = (m1, e)" by fastforce
  obtain m2 x where k2: "kmalloc (alloc env) m1 ?count = (m2, x)" by fastforce
  obtain m3 t where k3: "kmalloc (alloc env) m2 (?count + esize (partial_entry d)) = (m3, t)" by fastforce
  note K1 = kmalloc_fresh [OF al k1] and K2 = kmalloc_fresh [OF al k2] and K3 = kmalloc_fresh [OF al k3]
  obtain a where a: "x = Ref a" "m' = m3(a \<mapsto> snd (from_user env buf))" "d' = d"
    using w mu k1 k2 k3 by (auto simp: aesd_write_def copy_in_def Let_def split: ptr.splits)
  have "m a = None" using K2(2) [OF a(1)] map_le_None [OF K1(1)] by blast
  moreover have "m \<subseteq>\<^sub>m m3" using K1(1) K2(1) K3(1) map_le_trans by blast
  ultimately have "m \<subseteq>\<^sub>m m'" unfolding a(2) by (intro map_le_fresh_trans)
  then show ?thesis using a(2,3) K1(3) K2(3) K3(3) fin by simp
qed

lemma aesd_write_too_long:
  assumes inv: "dev_inv m d" and al: "good_alloc (alloc env)" and free: "\<not> mutex d" and part: "partial d"
    and len: "length buf < 2 ^ 31" "2 ^ 31 \<le> length (pending m d) + length buf"
  shows "aesd_write env m d buf \<noteq> Inr r"
proof -
  let ?count = "of_nat (length buf) :: u64" and ?pe = "partial_entry d"
  have count: "unat ?count = length buf" using len(1) by (intro unat_of_nat_u64) simp
  have p: "unat (esize ?pe) = length (pending m d)" "length (pending m d) < 2 ^ 31" "pending m d \<noteq> []"
    using dev_invD(5) [OF inv part] by (auto simp: stored_def)
  have n: "unat (?count + esize ?pe) = length buf + length (pending m d)"
    using count p len(1) by (simp add: wsimps)
  obtain m1 e where k1: "kmalloc (alloc env) m 16 = (m1, e)" by fastforce
  obtain m2 x where k2: "kmalloc (alloc env) m1 ?count = (m2, x)" by fastforce
  have "alloc env m2 (?count + esize ?pe) = None"
  proof (cases "alloc env m2 (?count + esize ?pe)")
    case (Some y)
    then obtain a bs where "alloc env m2 (?count + esize ?pe) = Some (a, bs)" by (cases y) auto
    then show ?thesis using good_allocD(3) [OF al] n len(2) by fastforce
  qed
  then have k3: "kmalloc (alloc env) m2 (?count + esize ?pe) = (m2, Null)" by simp
  have "join_partial env m4 ?pe x Null ?count \<noteq> Inr s" for m4 s
    using copy_loop_Null p by (auto simp: join_partial_def)
  then show ?thesis
    using k1 k2 k3 free part by (auto simp: aesd_write_def Let_def)
qed

lemma aesd_write_keeps:
  assumes inv: "dev_inv m d" and al: "good_alloc (alloc env)" "total_alloc (alloc env)"
    and copy: "from_user env = Pair 0" and len: "length buf < 2 ^ 31"
    and w: "aesd_write env m d buf = Inr (m', d', ret)"
  shows "dev_inv m' d' \<and> view m' d' = (if mutex d then view m d else spec_write (view m d) buf)"
proof (cases "mutex d")
  case True
  then show ?thesis
    using aesd_write_busy [OF al(1) dev_invD(1) [OF inv] True w] dev_inv_map_le [OF inv] by auto
next
  case free: False
  have copy': "from_user env buf = (0, buf)" using copy by simp
  show ?thesis
  proof (cases "partial d")
    case np: False
    then have "buf \<noteq> []" using aesd_write_nothing [OF inv al _ free np] w copy by auto
    then show ?thesis using aesd_write_plain [OF inv al copy' free np _ len] w free by auto
  next
    case part: True
    then have small: "length (pending m d) + length buf < 2 ^ 31"
      using aesd_write_too_long [OF inv al(1) free part len] w by (meson not_le)
    let ?count = "of_nat (length buf) :: u64" and ?n = "of_nat (length buf) + esize (partial_entry d)"
    have count: "unat ?count = length buf" using len by (intro unat_of_nat_u64) simp
    have "unat (esize (partial_entry d)) = length (pending m d)"
      using dev_invD(5) [OF inv part] by (auto simp: stored_def)
    then have n: "unat ?n < 2 ^ 31" using small count by (simp add: wsimps)
    note fin = dev_invD(1) [OF inv]
    obtain e eb where e: "alloc env m 16 = Some (e, eb)"
      by (rule total_allocE [OF al(2,1) fin, of 16]) auto
    obtain x xb where x: "alloc env (m(e \<mapsto> eb)) ?count = Some (x, xb)"
      by (rule total_allocE [OF al(2,1), of "m(e \<mapsto> eb)" ?count]) (use fin count len in auto)
    obtain t tb where t: "alloc env (m(e \<mapsto> eb, x \<mapsto> xb)) ?n = Some (t, tb)"
      by (rule total_allocE [OF al(2,1), of "m(e \<mapsto> eb, x \<mapsto> xb)" ?n]) (use fin n in auto)
    show ?thesis
      using aesd_write_joins [OF inv al(1) copy' free part small refl e x t refl] w free
      by (auto split: option.splits if_splits)
  qed
qed

section \<open>The transition system\<close>

definition kernel_ok :: "kenv \<Rightarrow> bool" where
  "kernel_ok env \<longleftrightarrow> good_alloc (alloc env) \<and> total_alloc (alloc env) \<and> from_user env = Pair 0"

inductive driver_start :: "writer \<Rightarrow> bool" where
  loaded: "kernel_ok env \<Longrightarrow> loadable le \<Longrightarrow> finite (dom m) \<Longrightarrow>
    aesd_init_module le m reg = Inr (m', Some d, reg', ret) \<Longrightarrow> driver_start (env, m', d)"

text \<open>
  The kernel caps a request below 2 GiB (\<open>MAX_RW_COUNT\<close>). \<open>r\<close> says whether another thread
  takes the mutex right after the call releases it; \<open>other_unlocks\<close> is that thread letting go of it.
  \<open>aesd_open\<close>, \<open>aesd_release\<close> and \<open>aesd_llseek\<close> touch the file only.
\<close>

inductive driver_step :: "writer \<Rightarrow> writer \<Rightarrow> bool" where
  do_read: "aesd_read (env\<lparr>relocked := r\<rparr>) m d count pos = Inr (m', d', pos', ret, user) \<Longrightarrow>
    driver_step (env, m, d) (env, m', d')"
| do_write: "length buf < 2 ^ 31 \<Longrightarrow> aesd_write (env\<lparr>relocked := r\<rparr>) m d buf = Inr (m', d', ret) \<Longrightarrow>
    driver_step (env, m, d) (env, m', d')"
| do_ioctl: "aesd_ioctl c m d cmd copied = Inr (m', d', ret) \<Longrightarrow> driver_step (env, m, d) (env, m', d')"
| other_unlocks: "driver_step (env, m, d) (env, m, d\<lparr>mutex := False\<rparr>)"

inductive_cases driver_stepE: "driver_step (env, m, d) s"
inductive_cases driver_startE: "driver_start (env, m, d)"

fun driver_inv :: "writer \<Rightarrow> bool" where
  "driver_inv (env, m, d) \<longleftrightarrow> dev_inv m d \<and> kernel_ok env"

fun driver_view :: "writer \<Rightarrow> u8 list list \<times> u8 list" where
  "driver_view (env, m, d) = view m d"

text \<open>The abstract system: bytes are appended, or everything is cleared.\<close>

inductive log_step :: "u8 list list \<times> u8 list \<Rightarrow> u8 list list \<times> u8 list \<Rightarrow> bool" where
  append: "log_step s (spec_write s buf)"
| clear: "log_step s ([], [])"

lemma dev_inv_seek_mutex: "dev_inv m (d\<lparr>seek := x, mutex := y\<rparr>) = dev_inv m d"
    "view m (d\<lparr>seek := x, mutex := y\<rparr>) = view m d"
  by (simp_all add: view_def)

lemma aesd_read_keeps:
  assumes inv: "dev_inv m d" and al: "good_alloc (alloc env)"
    and r: "aesd_read env m d count pos = Inr (m', d', pos', ret, user)"
  shows "dev_inv m' d' \<and> view m' d' = view m d"
proof -
  obtain x y where "m \<subseteq>\<^sub>m m'" "finite (dom m')" "d' = d\<lparr>seek := x, mutex := y\<rparr>"
    using aesd_read_frame [OF al r] dev_invD(1) [OF inv] by blast
  then show ?thesis using dev_inv_map_le [OF inv] dev_inv_seek_mutex by metis
qed

lemma aesd_ioctl_keeps:
  assumes inv: "dev_inv m d" and i: "aesd_ioctl c m d cmd copied = Inr (m', d', ret)"
  shows "dev_inv m' d' \<and> (view m' d' = view m d \<or> view m' d' = ([], []))"
proof (cases "aesd_flush m d = Inr (m', d', ret)")
  case True
  then show ?thesis using aesd_flush_spec [OF inv] by auto
next
  case False
  then have "m' = m" "d' = d \<or> (\<exists>p. d' = d\<lparr>seekto_position := p, seek := True\<rparr>)"
    using i by (auto simp: aesd_ioctl_def aesd_adjust_file_offset_def split: if_splits)
  then show ?thesis using inv by (auto simp: view_def)
qed

lemma driver_start_inv: "driver_start s \<Longrightarrow> driver_inv s \<and> driver_view s = ([], [])"
proof (induction rule: driver_start.induct)
  case (loaded env le m reg m' d reg' ret)
  have "0 \<le> alloc_chrdev_region le"
    using loaded(4) by (auto simp: aesd_init_module_def Let_def split: prod.splits if_splits)
  then show ?case using aesd_init_module_spec [OF loaded(2,3), of reg] loaded by auto
qed

lemma driver_step_keeps:
  "driver_step s t \<Longrightarrow> driver_inv s \<Longrightarrow>
    driver_inv t \<and> (driver_view t = driver_view s \<or> log_step (driver_view s) (driver_view t))"
proof (induction rule: driver_step.induct)
  case (do_read r env m d count pos m' d' pos' ret user)
  then show ?case using aesd_read_keeps [of m d "env\<lparr>relocked := r\<rparr>"] by (auto simp: kernel_ok_def)
next
  case (do_write buf r env m d m' d' ret)
  then show ?case using aesd_write_keeps [of m d "env\<lparr>relocked := r\<rparr>" buf m' d' ret] log_step.append
    by (auto simp: kernel_ok_def split: if_splits)
next
  case (do_ioctl c m d cmd copied m' d' ret env)
  then show ?case using aesd_ioctl_keeps [OF _ do_ioctl(1)] log_step.clear by (metis driver_inv.simps driver_view.simps)
next
  case (other_unlocks env m d)
  then show ?case by (simp add: view_def)
qed

interpretation driver: simulation driver_start driver_step driver_inv driver_view "([], [])" log_step
  by unfold_locales (use driver_start_inv driver_step_keeps in blast)+

section \<open>Properties of every run\<close>

text \<open>
  C3. In every state the driver reaches from loading, by any calls in any order that do not
  fault, the device holds at most ten nonempty lines that end in a newline, \<open>total_size\<close> is
  their length, the whole invariant holds, and what the device holds is what the abstract log
  of lines can hold. The contents of the blocks that loading copies into the ten slots uninitialised
  are left open.
\<close>

theorem reachable_device_invariant:
  assumes "driver_start s" and "driver_step\<^sup>*\<^sup>* s (env, m, d)"
  shows "dev_inv m d \<and> length (lines m d) \<le> 10 \<and> (\<forall>l \<in> set (lines m d). l \<noteq> [] \<and> last l = newline) \<and>
    unat (total_size (buffer d)) = length (concat (lines m d)) \<and>
    log_step\<^sup>*\<^sup>* ([], []) (view m d)"
proof -
  have inv: "dev_inv m d" using driver.inv_reachable [OF assms] by simp
  moreover have "log_step\<^sup>*\<^sup>* ([], []) (view m d)" using driver.abs_reachable [OF assms] by simp
  moreover have "length (lines m d) \<le> 10"
    using length_entries_le [OF dev_invD(2) [OF inv]] by (simp add: length_lines MAXW_eq)
  ultimately show ?thesis
    using line_nonempty [OF inv] dev_invD(7) [OF inv] total_size_lines [OF inv] by blast
qed

lemma demo_kernel_ok: "kernel_ok demo_env"
  by (simp add: kernel_ok_def good_alloc_bump total_alloc_bump)

lemma demo_start:
  obtains m d where "driver_start (demo_env, m, d)" and "dev_inv m d" and "view m d = ([], [])"
    and "\<not> mutex d" and "\<not> partial d"
proof -
  have p: "finite (dom Map.empty)" "0 \<le> alloc_chrdev_region demo_load" by (simp_all add: demo_load_def)
  obtain m d where i: "aesd_init_module demo_load Map.empty \<lparr>region = False, cdev_live = False\<rparr> =
      Inr (m, Some d, \<lparr>region = (cdev_add demo_load = 0), cdev_live = (cdev_add demo_load = 0)\<rparr>, cdev_add demo_load)"
      and r: "dev_inv m d" "view m d = ([], [])" "\<not> mutex d" "\<not> partial d"
    using aesd_init_module_spec [OF demo_loadable p, of "\<lparr>region = False, cdev_live = False\<rparr>"] by auto
  have "driver_start (demo_env, m, d)"
    by (rule driver_start.loaded [OF demo_kernel_ok demo_loadable p(1) i])
  then show thesis using r by (rule that)
qed

text \<open>A state reached by writing one line after loading.\<close>

theorem reachable_device_invariant_witness:
  "\<exists>s m d. driver_start s \<and> driver_step\<^sup>*\<^sup>* s (demo_env, m, d) \<and> lines m d = [[100, 10]] \<and>
     unat (total_size (buffer d)) = 2"
proof -
  obtain m0 d0 where s: "driver_start (demo_env, m0, d0)" "dev_inv m0 d0" "view m0 d0 = ([], [])"
      "\<not> mutex d0" "\<not> partial d0" by (rule demo_start)
  have e: "demo_env\<lparr>relocked := False\<rparr> = demo_env" by (simp add: demo_env_def)
  obtain m d where w: "aesd_write demo_env m0 d0 [100, 10] = Inr (m, d, 2)" "view m d = ([[100, 10]], [])"
    using aesd_write_plain [OF s(2), of demo_env "[100, 10]"] s(3-5)
    by (auto simp: good_alloc_bump total_alloc_bump spec_write_def lastn_def MAXW_eq)
  have "driver_step (demo_env, m0, d0) (demo_env, m, d)"
    by (rule driver_step.do_write [where r = False and buf = "[100, 10]" and ret = 2]) (simp_all add: e w(1))
  then have r: "driver_step\<^sup>*\<^sup>* (demo_env, m0, d0) (demo_env, m, d)" by simp
  have "lines m d = [[100, 10]]" using w(2) by (simp add: view_def)
  moreover from this have "unat (total_size (buffer d)) = 2"
    using reachable_device_invariant [OF s(1) r] by simp
  ultimately show ?thesis using s(1) r by blast
qed

text \<open>
  A read that does not fault never changes what the device holds, whatever the request,
  the position, a pending seek or the state of the mutex.
\<close>

theorem read_never_changes_content:
  assumes "dev_inv m d" and "good_alloc (alloc env)"
    and "aesd_read env m d count pos = Inr (m', d', pos', ret, user)"
  shows "dev_inv m' d' \<and> view m' d' = view m d"
  using assms by (rule aesd_read_keeps)

theorem read_never_changes_content_witness:
  "\<exists>m' d'. aesd_read demo_env demo_mem (demo_dev\<lparr>mutex := True\<rparr>) 4 3 = Inr (m', d', 3, - 12, []) \<and>
     view m' d' = ([[97, 98, 10], [99, 10]], [])"
proof -
  obtain m1 p where k: "kmalloc bump demo_mem 4 = (m1, p)" by fastforce
  then have r: "aesd_read demo_env demo_mem (demo_dev\<lparr>mutex := True\<rparr>) 4 3 =
      Inr (m1, demo_dev\<lparr>mutex := True\<rparr>, 3, - 12, [])"
    by (simp add: aesd_read_def ENOMEM_def)
  have i: "dev_inv demo_mem (demo_dev\<lparr>mutex := True\<rparr>)" using demo_inv by simp
  have v: "view demo_mem (demo_dev\<lparr>mutex := True\<rparr>) = ([[97, 98, 10], [99, 10]], [])"
    by (simp add: view_def demo_lines pending_def)
  show ?thesis
    using read_never_changes_content [OF i _ r] r v by (simp add: good_alloc_bump)
qed

text \<open>
  A write that does not fault never loses the device invariant, with or without a pending
  line, and either is refused because the mutex is held, or appends its bytes to the log.
\<close>

theorem write_keeps_device_invariant:
  assumes "dev_inv m d" and "good_alloc (alloc env)" "total_alloc (alloc env)"
    and "from_user env = Pair 0" and "length buf < 2 ^ 31"
    and "aesd_write env m d buf = Inr (m', d', ret)"
  shows "dev_inv m' d' \<and> view m' d' = (if mutex d then view m d else spec_write (view m d) buf)"
  using assms by (rule aesd_write_keeps)

theorem write_keeps_device_invariant_witness:
  "\<exists>m' d'. aesd_write demo_env demo_mem demo_dev [100] = Inr (m', d', 1) \<and>
     view m' d' = ([[97, 98, 10], [99, 10]], [100])"
proof -
  have v: "view demo_mem demo_dev = ([[97, 98, 10], [99, 10]], [])"
    by (simp add: view_def demo_lines pending_def)
  obtain m d where w: "aesd_write demo_env demo_mem demo_dev [100] = Inr (m, d, 1)"
    using aesd_write_plain [OF demo_inv, of demo_env "[100]"]
    by (auto simp: good_alloc_bump total_alloc_bump)
  show ?thesis
    using write_keeps_device_invariant [OF demo_inv _ _ _ _ w] w v
    by (auto simp: good_alloc_bump total_alloc_bump spec_write_def)
qed

end
