(* ===== verification/C_Strings.thy ===== *)
theory C_Strings
  imports Aesd_Prelude
begin

text \<open>
  What the socket server uses of the C string library, on byte lists: strings up to the NUL,
  \<open>strtok\<close>, \<open>strchr\<close> and \<open>atoi\<close>, with decimal printing as the inverse of \<open>atoi\<close>.
\<close>

section \<open>Strings\<close>

text \<open>The string a buffer holds: the bytes before the first NUL.\<close>

definition cstr :: "u8 list \<Rightarrow> u8 list" where
  "cstr bs = takeWhile (\<lambda>b. b \<noteq> 0) bs"

text \<open>
  \<open>strtok\<close>: skip delimiters; None (NULL) at the end of the string, else the token and the string
  the next call continues with.
\<close>

definition strtok :: "u8 set \<Rightarrow> u8 list \<Rightarrow> (u8 list \<times> u8 list) option" where
  "strtok ds s =
     (let s = dropWhile (\<lambda>c. c \<in> ds) s
      in if s = [] then None
         else Some (takeWhile (\<lambda>c. c \<notin> ds) s, drop 1 (dropWhile (\<lambda>c. c \<notin> ds) s)))"

definition strchr_found :: "u8 list \<Rightarrow> u8 \<Rightarrow> bool" where
  "strchr_found s c \<longleftrightarrow> c \<in> set s"

lemma cstr_no_nul [simp]: "0 \<notin> set bs \<Longrightarrow> cstr (bs @ [0] @ rest) = bs"
  by (induction bs) (auto simp: cstr_def)

lemma cstr_append_nul: "cstr (bs @ 0 # rest) = cstr bs"
  by (induction bs) (auto simp: cstr_def)

lemma cstr_id: "0 \<notin> set bs \<Longrightarrow> cstr bs = bs"
  by (auto simp: cstr_def takeWhile_eq_all_conv)

lemma strtok_token:
  assumes "tok \<noteq> []" and "set tok \<inter> ds = {}" and "d \<in> ds"
  shows "strtok ds (tok @ d # rest) = Some (tok, rest)"
proof -
  have "dropWhile (\<lambda>c. c \<in> ds) (tok @ d # rest) = tok @ d # rest"
    using assms(1,2) by (cases tok) auto
  moreover have "takeWhile (\<lambda>c. c \<notin> ds) (tok @ d # rest) = tok"
    using assms(2,3) by (auto simp: takeWhile_append2 disjoint_iff)
  moreover have "dropWhile (\<lambda>c. c \<notin> ds) (tok @ d # rest) = d # rest"
    using assms(2,3) by (auto simp: dropWhile_append2 disjoint_iff)
  ultimately show ?thesis by (simp add: strtok_def)
qed

lemma strtok_last:
  assumes "tok \<noteq> []" and "set tok \<inter> ds = {}"
  shows "strtok ds tok = Some (tok, [])"
proof -
  have "dropWhile (\<lambda>c. c \<in> ds) tok = tok" using assms by (cases tok) auto
  moreover have "\<forall>c \<in> set tok. c \<notin> ds" using assms(2) by auto
  then have "takeWhile (\<lambda>c. c \<notin> ds) tok = tok" "dropWhile (\<lambda>c. c \<notin> ds) tok = []"
    by (simp_all add: takeWhile_eq_all_conv dropWhile_eq_Nil_conv)
  ultimately show ?thesis using assms(1) by (simp only: strtok_def Let_def) simp
qed

lemma strtok_None_iff: "strtok ds s = None \<longleftrightarrow> set s \<subseteq> ds"
  by (auto simp: strtok_def Let_def dropWhile_eq_Nil_conv)

section \<open>Numbers\<close>

definition is_digit :: "u8 \<Rightarrow> bool" where
  "is_digit c \<longleftrightarrow> 48 \<le> c \<and> c \<le> 57"

definition is_space :: "u8 \<Rightarrow> bool" where
  "is_space c \<longleftrightarrow> c = 32 \<or> 9 \<le> c \<and> c \<le> 13"

definition digits_value :: "u8 list \<Rightarrow> nat" where
  "digits_value ds = foldl (\<lambda>n c. 10 * n + unat (c - 48)) 0 ds"

text \<open>
  \<open>atoi\<close>: white space, an optional sign, digits; what follows is ignored. A value that is not an
  \<open>int\<close> is undefined.
\<close>

definition atoi :: "u8 list \<Rightarrow> int res" where
  "atoi s =
     (let s = dropWhile is_space s;
          neg = (s \<noteq> [] \<and> hd s = 45);
          s = (if s \<noteq> [] \<and> (hd s = 45 \<or> hd s = 43) then tl s else s);
          n = int (digits_value (takeWhile is_digit s));
          v = (if neg then - n else n)
      in if - (2 ^ 31) \<le> v \<and> v < 2 ^ 31 then Inr v else Inl Overflow)"

text \<open>Decimal printing.\<close>

fun decimal :: "nat \<Rightarrow> u8 list" where
  "decimal n = (if n < 10 then [of_nat n + 48] else decimal (n div 10) @ [of_nat (n mod 10) + 48])"

declare decimal.simps [simp del]

lemma digit_byte: "n < 10 \<Longrightarrow> is_digit (of_nat n + 48) \<and> unat (of_nat n + 48 - 48 :: u8) = n"
proof -
  assume "n < 10"
  then have u: "unat (of_nat n :: u8) = n" by (simp add: unat_of_nat take_bit_nat_eq_self)
  with \<open>n < 10\<close> have "unat (of_nat n + 48 :: u8) = n + 48" by (simp add: unat_word_ariths)
  with \<open>n < 10\<close> u show ?thesis by (simp add: is_digit_def word_le_nat_alt)
qed

lemma decimal_digits: "list_all is_digit (decimal n) \<and> decimal n \<noteq> []"
proof (induction n rule: decimal.induct)
  case (1 n)
  then show ?case using digit_byte [of n] digit_byte [of "n mod 10"]
    by (cases "n < 10") (auto simp: decimal.simps [of n])
qed

lemma digits_value_snoc: "digits_value (ds @ [c]) = 10 * digits_value ds + unat (c - 48)"
  by (simp add: digits_value_def)

lemma digits_value_decimal: "digits_value (decimal n) = n"
proof (induction n rule: decimal.induct)
  case (1 n)
  show ?case
  proof (cases "n < 10")
    case True
    then show ?thesis using digit_byte [OF True] by (simp add: decimal.simps [of n] digits_value_def)
  next
    case False
    then show ?thesis
      using 1 digit_byte [of "n mod 10"] by (simp add: decimal.simps [of n] digits_value_snoc)
  qed
qed

lemma digit_not_space: "is_digit c \<Longrightarrow> \<not> is_space c \<and> c \<noteq> 45 \<and> c \<noteq> 43 \<and> c \<noteq> 44 \<and> c \<noteq> 58 \<and> c \<noteq> 0"
  by (auto simp: is_digit_def is_space_def word_le_nat_alt)

lemma atoi_decimal:
  assumes "n < 2 ^ 31" and "rest = [] \<or> \<not> is_digit (hd rest)"
  shows "atoi (decimal n @ rest) = Inr (int n)"
proof -
  obtain c cs where c: "decimal n = c # cs" using decimal_digits [of n] by (cases "decimal n") auto
  have dig: "is_digit c" "list_all is_digit (decimal n)" using decimal_digits [of n] c by auto
  have sp: "dropWhile is_space (decimal n @ rest) = decimal n @ rest"
    using digit_not_space [OF dig(1)] by (simp add: c)
  have "takeWhile is_digit (decimal n @ rest) = decimal n"
    using dig(2) assms(2) by (cases rest) (auto simp: list_all_iff takeWhile_append takeWhile_eq_all_conv)
  then show ?thesis
    using assms(1) sp digit_not_space [OF dig(1)] digits_value_decimal [of n]
    by (simp add: atoi_def c)
qed

end
