(* ===== verification/Socket_Data.thy ===== *)
theory Socket_Data
  imports Aesd_Ioctl C_Strings
begin

text \<open>
  \<open>recieve_socket_data\<close> and \<open>return_socket_data\<close> of \<open>server/aesdsocket.c\<close>: what one connection
  brings is written to the output file or turned into a seek, and the file is sent back. The
  output file is an interface (\<open>file_ops\<close>), the network a list of events.
\<close>

section \<open>The interface to the output file\<close>

text \<open>
  The calls the server makes on \<open>OUTPUT_FILE\<close>, over a state that holds the file and what the
  kernel knows of it. A call on a device may fault inside the kernel. Descriptors are counted
  by the state; \<open>op_read\<close> is given the position of the descriptor and returns the bytes it
  puts in the buffer with its result.
\<close>

record 's file_ops =
  op_open :: "'s \<Rightarrow> 's \<times> int"
  op_close :: "'s \<Rightarrow> 's"
  op_write :: "'s \<Rightarrow> u8 list \<Rightarrow> ('s \<times> int) res"
  op_seekto :: "'s \<Rightarrow> aesd_seekto \<Rightarrow> ('s \<times> int) res"
  op_read :: "'s \<Rightarrow> u64 \<Rightarrow> u64 \<Rightarrow> ('s \<times> u64 \<times> int \<times> u8 list) res"

definition BUF_SIZE :: nat where "BUF_SIZE = 1024 * 30"

section \<open>Receiving\<close>

text \<open>One turn of the loop: what \<open>recv\<close> returned (None for -1), and whether \<open>malloc\<close> succeeded.\<close>

record recv_event =
  received :: "u8 list option"
  malloced :: bool

text \<open>"AESDCHAR_IOCSEEKTO", ':', ',' and the newline.\<close>

definition seekto_name :: "u8 list" where
  "seekto_name = [65, 69, 83, 68, 67, 72, 65, 82, 95, 73, 79, 67, 83, 69, 69, 75, 84, 79]"

abbreviation colon :: u8 where "colon \<equiv> 58"
abbreviation comma :: u8 where "comma \<equiv> 44"
abbreviation lf :: u8 where "lf \<equiv> 10"

text \<open>\<open>atoi(strtok(NULL, ","))\<close> twice; \<open>atoi(NULL)\<close> is a fault.\<close>

definition next_number :: "u8 list \<Rightarrow> (int \<times> u8 list) res" where
  "next_number s = (case strtok {comma} s of
     None \<Rightarrow> Inl NullDeref
   | Some (tok, rest) \<Rightarrow> bnd (atoi tok) (\<lambda>n. Inr (n, rest)))"

definition parse_seekto :: "u8 list \<Rightarrow> aesd_seekto res" where
  "parse_seekto s =
     bnd (next_number s) (\<lambda>(cmd, s).
     bnd (next_number s) (\<lambda>(offset, s).
       Inr \<lparr>write_cmd = word_of_int cmd, write_cmd_offset = word_of_int offset\<rparr>))"

text \<open>
  The loop. \<open>buf\<close> has \<open>BUF_SIZE + 1\<close> bytes; \<open>buf[nrecv] = 0\<close> comes before the test for an error.
  Every turn leaves a copy of the buffer allocated, counted by \<open>leaked\<close>. The result: the file,
  the copies left behind, and the value returned, or None while \<open>recv\<close> still waits.
\<close>

fun receive_loop :: "'s file_ops \<Rightarrow> recv_event list \<Rightarrow> u8 list \<Rightarrow> 's \<Rightarrow> nat \<Rightarrow> ('s \<times> nat \<times> int option) res" where
  "receive_loop ops [] buf s leaked = Inr (s, leaked, None)"
| "receive_loop ops (ev # evs) buf s leaked = (case received ev of
     None \<Rightarrow> Inl OutOfBounds
   | Some bs \<Rightarrow>
       if length buf \<le> length bs then Inl OutOfBounds
       else
         let nrecv = length bs;
             buf = (bs @ drop nrecv buf)[nrecv := 0]
         in if \<not> malloced ev then Inl NullDeref
            else (case strtok {colon} (cstr buf) of
                None \<Rightarrow> Inl NullDeref
              | Some (ptr, rest) \<Rightarrow>
                  if ptr = seekto_name then
                    bnd (parse_seekto rest) (\<lambda>seekto.
                    bnd (op_seekto ops s seekto) (\<lambda>(s, r).
                      if r \<noteq> 0 then Inr (op_close ops s, leaked + 1, Some (- 1))
                      else Inr (s, leaked + 1, Some 0)))
                  else
                    bnd (op_write ops s (take nrecv buf)) (\<lambda>(s, nwrit).
                      if nwrit < 0 then Inr (op_close ops s, leaked + 1, Some (- 1))
                      else if strchr_found (cstr buf) lf
                        then Inr (op_close ops s, leaked + 1, Some 0)
                        else receive_loop ops evs buf s (leaked + 1))))"

text \<open>\<open>buf\<close> is what the array on the stack happens to hold.\<close>

definition recieve_socket_data ::
  "'s file_ops \<Rightarrow> recv_event list \<Rightarrow> u8 list \<Rightarrow> 's \<Rightarrow> ('s \<times> nat \<times> int option) res" where
  "recieve_socket_data ops evs buf s =
     (let (s, output_file) = op_open ops s
      in if output_file < 0 then Inr (s, 0, Some (- 1)) else receive_loop ops evs buf s 0)"

section \<open>Sending back\<close>

text \<open>
  The loop, for at most \<open>fuel\<close> turns; None when that is not enough. \<open>sends i bs\<close> is what the
  \<open>i\<close>-th \<open>send\<close> returns for the bytes \<open>bs\<close>; \<open>sent\<close> are the bytes handed to it so far.
\<close>

fun return_loop :: "nat \<Rightarrow> 's file_ops \<Rightarrow> (nat \<Rightarrow> u8 list \<Rightarrow> int) \<Rightarrow> nat \<Rightarrow> 's \<Rightarrow> u64 \<Rightarrow> u8 list \<Rightarrow>
    ('s \<times> int \<times> u8 list) res option" where
  "return_loop 0 ops sends i s pos sent = None"
| "return_loop (Suc fuel) ops sends i s pos sent = (case op_read ops s pos (of_nat BUF_SIZE) of
     Inl e \<Rightarrow> Some (Inl e)
   | Inr (s, pos, nread, bs) \<Rightarrow>
       if nread < 0 then Some (Inr (op_close ops s, - 1, sent))
       else
         let out = take (nat nread) bs;
             nsend = sends i out
         in if nsend < 0 then Some (Inr (op_close ops s, - 1, sent))
            else if nsend = int BUF_SIZE
              then return_loop fuel ops sends (Suc i) s pos (sent @ take (nat nsend) out)
              else Some (Inr (op_close ops s, 0, sent @ take (nat nsend) out)))"

definition return_socket_data ::
  "nat \<Rightarrow> 's file_ops \<Rightarrow> (nat \<Rightarrow> u8 list \<Rightarrow> int) \<Rightarrow> 's \<Rightarrow> ('s \<times> int \<times> u8 list) res option" where
  "return_socket_data fuel ops sends s =
     (let (s, output_file) = op_open ops s
      in if output_file < 0 then Some (Inr (s, - 1, []))
         else return_loop fuel ops sends 0 s 0 [])"

declare receive_loop.simps(2) [simp del]

section \<open>The buffer after a receive\<close>

lemma buf_after_recv:
  assumes "length bs < length buf"
  shows "take (length bs) ((bs @ drop (length bs) buf)[length bs := 0]) = bs"
    and "cstr ((bs @ drop (length bs) buf)[length bs := 0]) = cstr bs"
    and "length ((bs @ drop (length bs) buf)[length bs := 0]) = length buf"
proof -
  obtain x rest where d: "drop (length bs) buf = x # rest" using assms by (cases "drop (length bs) buf") auto
  then show "take (length bs) ((bs @ drop (length bs) buf)[length bs := 0]) = bs" by simp
  show "cstr ((bs @ drop (length bs) buf)[length bs := 0]) = cstr bs"
    by (simp add: d list_update_append cstr_append_nul)
  show "length ((bs @ drop (length bs) buf)[length bs := 0]) = length buf" using assms by simp
qed

text \<open>The loop over a fresh buffer, with the buffer gone.\<close>

lemma receive_loop_step:
  assumes "received ev = Some bs" and "malloced ev" and "length bs < length buf"
  shows "receive_loop ops (ev # evs) buf s leaked = (case strtok {colon} (cstr bs) of
       None \<Rightarrow> Inl NullDeref
     | Some (ptr, rest) \<Rightarrow>
         if ptr = seekto_name then
           bnd (parse_seekto rest) (\<lambda>seekto.
           bnd (op_seekto ops s seekto) (\<lambda>(s, r).
             if r \<noteq> 0 then Inr (op_close ops s, leaked + 1, Some (- 1))
             else Inr (s, leaked + 1, Some 0)))
         else
           bnd (op_write ops s bs) (\<lambda>(s, nwrit).
             if nwrit < 0 then Inr (op_close ops s, leaked + 1, Some (- 1))
             else if strchr_found (cstr bs) lf then Inr (op_close ops s, leaked + 1, Some 0)
             else receive_loop ops evs ((bs @ drop (length bs) buf)[length bs := 0]) s (leaked + 1)))"
proof -
  note b = buf_after_recv [OF assms(3)]
  have "\<not> length buf \<le> length bs" using assms(3) by simp
  then show ?thesis
    unfolding receive_loop.simps assms(1) option.case Let_def b(1,2) using assms(2) by simp
qed

text \<open>A piece of input that arrives.\<close>

abbreviation arrives :: "u8 list \<Rightarrow> recv_event" where
  "arrives bs \<equiv> \<lparr>received = Some bs, malloced = True\<rparr>"

text \<open>A chunk that is not a command: something other than colons before its first NUL.\<close>

definition plain_chunk :: "u8 list \<Rightarrow> bool" where
  "plain_chunk bs \<longleftrightarrow> (\<exists>ptr rest. strtok {colon} (cstr bs) = Some (ptr, rest) \<and> ptr \<noteq> seekto_name)"

lemma receive_plain:
  assumes "received ev = Some bs" and "malloced ev" and "length bs < length buf" and "plain_chunk bs"
  shows "receive_loop ops (ev # evs) buf s leaked =
    bnd (op_write ops s bs) (\<lambda>(s, nwrit).
      if nwrit < 0 then Inr (op_close ops s, leaked + 1, Some (- 1))
      else if strchr_found (cstr bs) lf then Inr (op_close ops s, leaked + 1, Some 0)
      else receive_loop ops evs ((bs @ drop (length bs) buf)[length bs := 0]) s (leaked + 1))"
  using receive_loop_step [OF assms(1-3)] assms(4) by (auto simp: plain_chunk_def)

section \<open>The seek command\<close>

definition seek_command :: "nat \<Rightarrow> nat \<Rightarrow> u8 list" where
  "seek_command cmd offset = seekto_name @ [colon] @ decimal cmd @ [comma] @ decimal offset @ [lf]"

lemma decimal_set: "c \<in> set (decimal n) \<Longrightarrow> is_digit c"
  using decimal_digits [of n] by (auto simp: list_all_iff)

lemma parse_seekto_decimal:
  assumes "cmd < 2 ^ 31" and "offset < 2 ^ 31"
  shows "parse_seekto (decimal cmd @ [comma] @ decimal offset @ [lf]) =
    Inr \<lparr>write_cmd = of_nat cmd, write_cmd_offset = of_nat offset\<rparr>"
proof -
  have "set (decimal cmd) \<inter> {comma} = {}" using decimal_set digit_not_space by fastforce
  then have s1: "strtok {comma} (decimal cmd @ comma # decimal offset @ [lf]) = Some (decimal cmd, decimal offset @ [lf])"
    using decimal_digits by (intro strtok_token) auto
  have "set (decimal offset @ [lf]) \<inter> {comma} = {}" using decimal_set digit_not_space by fastforce
  then have s2: "strtok {comma} (decimal offset @ [lf]) = Some (decimal offset @ [lf], [])"
    by (intro strtok_last) auto
  have "\<not> is_digit lf" by (simp add: is_digit_def)
  then have "atoi (decimal cmd) = Inr (int cmd)" "atoi (decimal offset @ [lf]) = Inr (int offset)"
    using atoi_decimal [OF assms(1), of "[]"] atoi_decimal [OF assms(2), of "[lf]"] by simp_all
  then show ?thesis using s1 s2 by (simp add: parse_seekto_def next_number_def)
qed

lemma seek_command_tokens:
  "strtok {colon} (cstr (seek_command cmd offset)) =
    Some (seekto_name, decimal cmd @ [comma] @ decimal offset @ [lf])"
proof -
  have "0 \<notin> set (seek_command cmd offset)"
    using decimal_set digit_not_space by (fastforce simp: seek_command_def seekto_name_def)
  then have c: "cstr (seek_command cmd offset) = seekto_name @ colon # decimal cmd @ [comma] @ decimal offset @ [lf]"
    by (simp add: cstr_id seek_command_def)
  show ?thesis unfolding c by (intro strtok_token) (auto simp: seekto_name_def)
qed

end
