(* ===== verification/Socket_Device.thy ===== *)
theory Socket_Device
  imports Socket_Data Aesd_Driver
begin

text \<open>
  The socket server on the character device: the driver's handlers as the output file of the
  server, and what a client gets back. \<open>line_store\<close> is the contract the receiving side relies
  on; it is interpreted on the driver.
\<close>

section \<open>The contract of the output file\<close>

locale line_store =
  fixes ops :: "'s file_ops"
    and inv :: "'s \<Rightarrow> bool"
    and held :: "'s \<Rightarrow> u8 list list"
    and cap :: nat
  assumes open_ok: "inv s \<Longrightarrow> \<exists>s' fd. op_open ops s = (s', fd) \<and> 0 \<le> fd \<and> inv s' \<and> held s' = held s"
    and close_ok: "inv s \<Longrightarrow> inv (op_close ops s) \<and> held (op_close ops s) = held s"
    and write_ok: "inv s \<Longrightarrow> whole_line l \<Longrightarrow> \<exists>s' n. op_write ops s l = Inr (s', n) \<and> 0 \<le> n \<and> inv s' \<and>
      held s' = lastn cap (held s @ [l])"
begin

text \<open>A line that arrives in one piece is stored as the newest line, and a buffer copy is leaked.\<close>

lemma receive_line:
  assumes inv: "inv s" and l: "whole_line l" "plain_chunk l" "0 \<notin> set l" "length l < length buf"
    and ev: "received ev = Some l" "malloced ev"
  shows "\<exists>s'. recieve_socket_data ops (ev # evs) buf s = Inr (s', 1, Some 0) \<and> inv s' \<and>
    held s' = lastn cap (held s @ [l])"
proof -
  obtain s1 fd where o: "op_open ops s = (s1, fd)" "0 \<le> fd" "inv s1" "held s1 = held s"
    using open_ok [OF inv] by blast
  obtain s2 n where w: "op_write ops s1 l = Inr (s2, n)" "0 \<le> n" "inv s2" "held s2 = lastn cap (held s @ [l])"
    using write_ok [OF o(3) l(1)] o(4) by auto
  have "l \<noteq> []" "last l = newline" using l(1) by (auto simp: whole_line_def)
  then have "strchr_found (cstr l) lf"
    using l(3) last_in_set by (metis cstr_id strchr_found_def)
  then have "receive_loop ops (ev # evs) buf s1 0 = Inr (op_close ops s2, 1, Some 0)"
    using w(2) by (simp add: receive_plain [OF ev l(4,2)] w(1))
  then show ?thesis
    using o(1,2) close_ok [OF w(3)] w(4) by (auto simp: recieve_socket_data_def)
qed

end

section \<open>The driver as the output file\<close>

text \<open>The kernel's answers, the heap, the device, and the number of open descriptors.\<close>

type_synonym dev_file = "kenv \<times> kmem \<times> aesd_dev \<times> nat"

text \<open>
  \<open>aesd_open\<close> and \<open>aesd_release\<close> always succeed; a negative result of the driver reaches the
  server as -1.
\<close>

definition device_ops :: "ioc \<Rightarrow> dev_file file_ops" where
  "device_ops c = \<lparr>
     op_open = (\<lambda>(env, m, d, n). ((env, m, d, n + 1), 3)),
     op_close = (\<lambda>(env, m, d, n). (env, m, d, n - 1)),
     op_write = (\<lambda>(env, m, d, n) bs. bnd (aesd_write env m d bs) (\<lambda>(m, d, r).
       Inr ((env, m, d, n), if r < 0 then - 1 else r))),
     op_seekto = (\<lambda>(env, m, d, n) k. bnd (aesd_ioctl c m d (AESDCHAR_IOCSEEKTO c) (0, k)) (\<lambda>(m, d, r).
       Inr ((env, m, d, n), if r < 0 then - 1 else r))),
     op_read = (\<lambda>(env, m, d, n) pos count. bnd (aesd_read env m d count pos) (\<lambda>(m, d, pos, r, bs).
       Inr ((env, m, d, n), pos, if r < 0 then - 1 else r, bs)))\<rparr>"

fun file_ok :: "dev_file \<Rightarrow> bool" where
  "file_ok (env, m, d, n) \<longleftrightarrow> writer_ok (env, m, d)"

fun file_lines :: "dev_file \<Rightarrow> u8 list list" where
  "file_lines (env, m, d, n) = lines m d"

lemma device_op_write:
  assumes "file_ok (env, m, d, n)" and "whole_line l"
  shows "\<exists>m' d'. op_write (device_ops c) (env, m, d, n) l = Inr ((env, m', d', n), int (length l)) \<and>
    file_ok (env, m', d', n) \<and> lines m' d' = lastn MAXW (lines m d @ [l])"
  using write_whole_line [of env m d l] assms by (auto simp: device_ops_def simp del: writer_ok.simps)

interpretation device_file: line_store "device_ops c" file_ok file_lines MAXW for c
proof unfold_locales
  fix s :: dev_file and l
  assume ok: "file_ok s" and l: "whole_line l"
  obtain env m d n where s: "s = (env, m, d, n)" by (cases s)
  show "\<exists>s' n. op_write (device_ops c) s l = Inr (s', n) \<and> 0 \<le> n \<and> file_ok s' \<and>
      file_lines s' = lastn MAXW (file_lines s @ [l])"
    using device_op_write [of env m d n l c] ok l unfolding s by (auto simp del: writer_ok.simps)
qed (auto simp: device_ops_def split: prod.splits)

section \<open>What is sent back\<close>

lemma device_read_run:
  assumes ok: "writer_ok (env, m, d)" and small: "length (concat (lines m d)) < BUF_SIZE"
  shows "\<exists>m' pos' rest. aesd_read env m d (of_nat BUF_SIZE) 0 =
      Inr (m', d, pos', int (length (concat (take (wrap_at (buffer d)) (lines m d)))),
        concat (take (wrap_at (buffer d)) (lines m d)) @ rest) \<and>
    writer_ok (env, m', d) \<and> lines m' d = lines m d"
proof -
  let ?ls = "lines m d" and ?w = "wrap_at (buffer d)"
  have inv: "dev_inv m d" and al: "good_alloc (alloc env)" "total_alloc (alloc env)"
    and free: "\<not> mutex d" "\<not> relocked env" "\<not> seek d" using ok by auto
  have B: "unat (of_nat BUF_SIZE :: u64) = BUF_SIZE" by (intro unat_of_nat_u64) (simp add: BUF_SIZE_def)
  have pre: "concat ?ls = concat (take ?w ?ls) @ concat (drop ?w ?ls)"
    by (metis append_take_drop_id concat_append)
  show ?thesis
  proof (cases "?ls = []")
    case True
    obtain m' where "aesd_read env m d (of_nat BUF_SIZE) 0 = Inr (m', d, 0, 0, [])" "dev_inv m' d" "lines m' d = ?ls"
      using aesd_read_end [OF inv al(1) free(1), of 0 "of_nat BUF_SIZE"] True by auto
    with True ok show ?thesis by auto
  next
    case False
    have n0: "?ls ! 0 \<noteq> []" using line_nonempty [OF inv] False by simp
    have loc: "locate (map length ?ls) (unat (0 :: u64)) = Some (0, 0)"
      using locate_line_start [of 0 ?ls] n0 False by simp
    have "0 < ?w"
    proof (cases "full (buffer d)")
      case True
      then show ?thesis using cb_invD(3) [OF dev_invD(2) [OF inv]] by (simp add: wrap_at_def)
    next
      case nf: False
      have "0 < length ?ls" using False by simp
      then show ?thesis
        using nf unfolding length_lines length_entries [OF dev_invD(2) [OF inv]] by (simp add: wrap_at_def)
    qed
    then have "0 < length (concat (take ?w ?ls))" using n0 False by (cases ?ls; cases ?w) auto
    then have rl: "run_left ?w ?ls (unat (0 :: u64)) = length (concat (take ?w ?ls))" by (simp add: run_left_def)
    have "length (concat (take ?w ?ls)) < BUF_SIZE" using small pre by (metis add_lessD1 length_append)
    then have n: "length (concat (take ?w ?ls)) = min (unat (of_nat BUF_SIZE :: u64)) (run_left ?w ?ls (unat (0 :: u64)))"
      using rl B by simp
    have tk: "take (length (concat (take ?w ?ls))) (drop (unat (0 :: u64)) (concat ?ls)) = concat (take ?w ?ls)"
      by (subst pre) simp
    have c31: "unat (of_nat BUF_SIZE :: u64) < 2 ^ 31" unfolding B by (simp add: BUF_SIZE_def)
    show ?thesis
      using aesd_read_no_seek(1) [OF inv al free c31 loc n] ok unfolding tk by auto
  qed
qed

text \<open>Without an eviction a write does not move the start of the ring.\<close>

lemma aesd_write_buffer:
  "aesd_write env m d buf = Inr (m', d', ret) \<Longrightarrow>
     buffer d' = buffer d \<or> (\<exists>e. aesd_circular_buffer_add_entry (buffer d) e = Inr (buffer d'))"
  by (auto simp: aesd_write_def finish_line_def Let_def split: prod.splits if_splits)

lemma add_entry_wrap:
  assumes inv: "cb_inv b" "cb_inv b'" and nf: "\<not> full b" and a: "aesd_circular_buffer_add_entry b e = Inr b'"
  shows "wrap_at b' = length (entries b')"
proof -
  have "out_offs b' = 0"
    using a nf cb_invD(5) [OF inv(1)]
    by (auto simp: aesd_circular_buffer_add_entry_def entry_at_def split: if_splits)
  then show ?thesis using length_entries [OF inv(2)] by (simp add: wrap_at_def)
qed

text \<open>One reply: a single short read, sent whole.\<close>

definition all_sent :: "nat \<Rightarrow> u8 list \<Rightarrow> int" where
  "all_sent i bs = int (length bs)"

lemma return_short:
  assumes ok: "writer_ok (env, m, d)" and small: "length (concat (lines m d)) < BUF_SIZE"
  shows "\<exists>m'. return_socket_data (Suc fuel) (device_ops c) all_sent (env, m, d, n) =
      Some (Inr ((env, m', d, n), 0, concat (take (wrap_at (buffer d)) (lines m d)))) \<and>
    writer_ok (env, m', d) \<and> lines m' d = lines m d"
proof -
  let ?out = "concat (take (wrap_at (buffer d)) (lines m d))"
  obtain m' pos' rest where r: "aesd_read env m d (of_nat BUF_SIZE) 0 = Inr (m', d, pos', int (length ?out), ?out @ rest)"
      "writer_ok (env, m', d)" "lines m' d = lines m d"
    using device_read_run [OF ok small] by blast
  have "concat (lines m d) = ?out @ concat (drop (wrap_at (buffer d)) (lines m d))"
    by (metis append_take_drop_id concat_append)
  then have "length ?out < BUF_SIZE" using small by (metis add_lessD1 length_append)
  then have "return_socket_data (Suc fuel) (device_ops c) all_sent (env, m, d, n) =
      Some (Inr ((env, m', d, n), 0, ?out))"
    using r(1) by (simp add: return_socket_data_def device_ops_def all_sent_def)
  with r(2,3) show ?thesis by blast
qed

section \<open>One connection\<close>

text \<open>A line a client may send in one piece.\<close>

definition client_line :: "u8 list \<Rightarrow> bool" where
  "client_line l \<longleftrightarrow> whole_line l \<and> plain_chunk l \<and> 0 \<notin> set l \<and> length l \<le> BUF_SIZE"

lemma receive_device_line:
  assumes ok: "file_ok (env, m, d, n)" and l: "client_line l" and buf: "length buf = BUF_SIZE + 1"
  shows "\<exists>m' d'. recieve_socket_data (device_ops c) (arrives l # evs) buf (env, m, d, n) =
      Inr ((env, m', d', n), 1, Some 0) \<and> file_ok (env, m', d', n) \<and>
    lines m' d' = lastn MAXW (lines m d @ [l]) \<and>
    aesd_write env m d l = Inr (m', d', int (length l))"
proof -
  obtain m' d' where w: "aesd_write env m d l = Inr (m', d', int (length l))" "writer_ok (env, m', d')"
      "lines m' d' = lastn MAXW (lines m d @ [l])"
    using write_whole_line [of env m d l] ok l by (auto simp: client_line_def simp del: writer_ok.simps)
  have nul: "0 \<notin> set l" and "l \<noteq> []" "last l = newline" and plain: "plain_chunk l" and len: "length l < length buf"
    using l buf by (auto simp: client_line_def whole_line_def)
  then have lf: "strchr_found (cstr l) lf"
    using last_in_set by (metis cstr_id strchr_found_def)
  have "receive_loop (device_ops c) (arrives l # evs) buf (env, m, d, Suc n) 0 =
      Inr ((env, m', d', n), 1, Some 0)"
    using lf by (subst receive_plain [OF _ _ len plain]) (simp_all add: device_ops_def w(1))
  then have "recieve_socket_data (device_ops c) (arrives l # evs) buf (env, m, d, n) = Inr ((env, m', d', n), 1, Some 0)"
    by (simp add: recieve_socket_data_def device_ops_def)
  with w show ?thesis by (simp del: writer_ok.simps)
qed

lemma wrap_after_write:
  assumes ok: "writer_ok (env, m, d)" "writer_ok (env, m', d')" and nf: "\<not> full (buffer d)"
    and w: "aesd_write env m d l = Inr (m', d', r)"
  shows "wrap_at (buffer d') = length (lines m' d')"
proof -
  have inv: "cb_inv (buffer d)" "cb_inv (buffer d')" using ok dev_invD(2) by auto
  from aesd_write_buffer [OF w] show ?thesis
  proof
    assume "buffer d' = buffer d"
    then show ?thesis using nf length_entries [OF inv(2)] by (simp add: wrap_at_def length_lines)
  next
    assume "\<exists>e. aesd_circular_buffer_add_entry (buffer d) e = Inr (buffer d')"
    then show ?thesis using add_entry_wrap [OF inv nf] by (auto simp: length_lines)
  qed
qed

text \<open>While the ring is not full, a client that sends a line gets back all lines, its own last.\<close>

lemma echo_line:
  assumes "file_ok (env, m, d, n)" and "client_line l" and "length buf = BUF_SIZE + 1"
    and "\<not> full (buffer d)" and "length (concat (lines m d @ [l])) < BUF_SIZE"
  shows "\<exists>s' m'' d''. recieve_socket_data (device_ops c) (arrives l # evs) buf (env, m, d, n) = Inr (s', 1, Some 0) \<and>
    return_socket_data (Suc fuel) (device_ops c) all_sent s' =
      Some (Inr ((env, m'', d'', n), 0, concat (lines m d @ [l]))) \<and>
    file_ok (env, m'', d'', n) \<and> lines m'' d'' = lines m d @ [l]"
proof -
  obtain m' d' where r: "recieve_socket_data (device_ops c) (arrives l # evs) buf (env, m, d, n) =
        Inr ((env, m', d', n), 1, Some 0)"
      and ok': "writer_ok (env, m', d')" and l': "lines m' d' = lastn MAXW (lines m d @ [l])"
      and w: "aesd_write env m d l = Inr (m', d', int (length l))"
    using receive_device_line [OF assms(1-3), of c evs] by (auto simp del: writer_ok.simps)
  have ok: "writer_ok (env, m, d)" using assms(1) by simp
  have cb: "cb_inv (buffer d)" using ok dev_invD(2) by auto
  have "length (lines m d @ [l]) \<le> MAXW"
    using length_entries [OF cb] cb_invD(2) [OF cb] assms(4) by (simp add: length_lines)
  then have l'': "lines m' d' = lines m d @ [l]" using l' lastn_short by metis
  have w: "concat (take (wrap_at (buffer d')) (lines m' d')) = concat (lines m d @ [l])"
    unfolding wrap_after_write [OF ok ok' assms(4) w] l'' by (simp only: take_all order_refl)
  have "length (concat (lines m' d')) < BUF_SIZE" unfolding l'' by (rule assms(5))
  from return_short [OF ok' this, of fuel c n] obtain m'' where
    "return_socket_data (Suc fuel) (device_ops c) all_sent (env, m', d', n) =
      Some (Inr ((env, m'', d', n), 0, concat (lines m d @ [l])))"
    "writer_ok (env, m'', d')" "lines m'' d' = lines m d @ [l]"
    unfolding w unfolding l'' by blast
  with r show ?thesis unfolding file_ok.simps by blast
qed

section \<open>Properties of a connection\<close>

text \<open>
  A line that arrives in one piece is stored in the device as the newest of the last ten,
  whatever the state of the ring, and the call succeeds.
\<close>

theorem connection_stores_line:
  assumes "file_ok f" and "client_line l" and "length buf = BUF_SIZE + 1"
  shows "\<exists>f'. recieve_socket_data (device_ops c) (arrives l # evs) buf f = Inr (f', 1, Some 0) \<and>
    file_ok f' \<and> file_lines f' = lastn 10 (file_lines f @ [l])"
proof -
  have l: "whole_line l" "plain_chunk l" "0 \<notin> set l" "length l < length buf"
    using assms(2,3) by (auto simp: client_line_def)
  have ev: "received (arrives l) = Some l" "malloced (arrives l)" by simp_all
  show ?thesis using device_file.receive_line [OF assms(1) l ev, of c evs] by (simp add: MAXW_eq)
qed

lemma demo_file_ok: "file_ok (demo_env, demo_mem, demo_dev, 0)"
  using demo_writer_ok by simp

lemma demo_client_line: "client_line [100, 10]"
  by (auto simp: client_line_def whole_line_def plain_chunk_def cstr_def strtok_def BUF_SIZE_def seekto_name_def)

theorem connection_stores_line_witness:
  "\<exists>f'. recieve_socket_data (device_ops asm_generic) [arrives [100, 10]] (replicate 30721 0) (demo_env, demo_mem, demo_dev, 0) =
      Inr (f', 1, Some 0) \<and> file_lines f' = [[97, 98, 10], [99, 10], [100, 10]]"
proof -
  have b: "length (replicate 30721 (0 :: u8)) = BUF_SIZE + 1" by (simp add: BUF_SIZE_def)
  show ?thesis
    using connection_stores_line [OF demo_file_ok demo_client_line b, of asm_generic "[]"]
    by (auto simp: demo_lines lastn_def)
qed

text \<open>
  C34. The reply to a connection is what one read returns when the device holds less than a
  buffer: the lines before the wrap of the ring, oldest first. The lines after the wrap, which
  are the newest, are not sent.
\<close>

theorem reply_stops_at_wrap:
  assumes "writer_ok (env, m, d)" and "length (concat (lines m d)) < BUF_SIZE"
  shows "\<exists>m'. return_socket_data (Suc fuel) (device_ops c) all_sent (env, m, d, n) =
      Some (Inr ((env, m', d, n), 0, concat (take (wrap_at (buffer d)) (lines m d)))) \<and>
    lines m' d = lines m d"
  using return_short [OF assms, of fuel c n] by blast

text \<open>Of ten two-byte lines in a ring that wraps after the first, the client receives one.\<close>

theorem reply_stops_at_wrap_witness:
  "\<exists>m'. return_socket_data 1 (device_ops asm_generic) all_sent (demo_env, wrapped_mem, wrapped_dev, 1) =
     Some (Inr ((demo_env, m', wrapped_dev, 1), 0, [74, 10])) \<and> length (lines m' wrapped_dev) = 10"
proof -
  have ok: "writer_ok (demo_env, wrapped_mem, wrapped_dev)"
    using wrapped_inv by (simp add: good_alloc_bump total_alloc_bump wrapped_dev_def)
  have small: "length (concat (lines wrapped_mem wrapped_dev)) < BUF_SIZE"
    unfolding wrapped_content by (simp add: BUF_SIZE_def)
  have w: "wrap_at (buffer wrapped_dev) = 1" by (simp add: wrapped_dev_def wrap_at_def MAXW_eq)
  have "take 1 (lines wrapped_mem wrapped_dev) = [[74, 10]]" "length (lines wrapped_mem wrapped_dev) = 10"
    unfolding wrapped_lines by simp_all
  then show ?thesis
    using reply_stops_at_wrap [OF ok small, of 0 asm_generic 1] unfolding w by auto
qed

text \<open>
  C32. The text "AESDCHAR_IOCSEEKTO:\<open>x\<close>,\<open>y\<close>" and a newline, printed in decimal, is turned back
  into a seek request with exactly \<open>x\<close> and \<open>y\<close>, whatever the output file is. When the request
  succeeds the function returns 0 without closing its descriptor; when it fails it closes it
  and returns -1.
\<close>

theorem seek_command_roundtrip:
  assumes "x < 2 ^ 31" and "y < 2 ^ 31" and "length (seek_command x y) < length buf"
    and "op_open ops s = (s1, fd)" and "0 \<le> fd"
  shows "recieve_socket_data ops (arrives (seek_command x y) # evs) buf s =
    bnd (op_seekto ops s1 \<lparr>write_cmd = of_nat x, write_cmd_offset = of_nat y\<rparr>) (\<lambda>(s2, r).
      if r = 0 then Inr (s2, 1, Some 0) else Inr (op_close ops s2, 1, Some (- 1)))"
proof -
  have "receive_loop ops (arrives (seek_command x y) # evs) buf s1 0 =
    bnd (op_seekto ops s1 \<lparr>write_cmd = of_nat x, write_cmd_offset = of_nat y\<rparr>) (\<lambda>(s2, r).
      if r = 0 then Inr (s2, 1, Some 0) else Inr (op_close ops s2, 1, Some (- 1)))"
    by (subst receive_loop_step [where bs = "seek_command x y"],
        use assms(3) in \<open>simp_all add: seek_command_tokens parse_seekto_decimal [OF assms(1,2), simplified]\<close>)
      (cases "op_seekto ops s1 \<lparr>write_cmd = of_nat x, write_cmd_offset = of_nat y\<rparr>", auto)
  then show ?thesis using assms(4,5) by (simp add: recieve_socket_data_def)
qed

text \<open>On the driver: the seek is made, and one descriptor more stays open.\<close>

theorem seek_command_roundtrip_witness:
  "\<exists>d'. recieve_socket_data (device_ops asm_generic) [arrives (seek_command 1 0)] (replicate 30721 0)
      (demo_env, demo_mem, demo_dev, 0) = Inr ((demo_env, demo_mem, d', 1), 1, Some 0) \<and>
    seekto_position d' = 3 \<and> seek d'"
proof -
  have "op_open (device_ops asm_generic) (demo_env, demo_mem, demo_dev, 0) = ((demo_env, demo_mem, demo_dev, 1), 3)"
    by (simp add: device_ops_def)
  moreover have "length (seek_command 1 0) < length (replicate 30721 (0 :: u8))"
    by (simp add: seek_command_def seekto_name_def decimal.simps)
  moreover have "aesd_ioctl asm_generic demo_mem demo_dev (AESDCHAR_IOCSEEKTO asm_generic) (0, \<lparr>write_cmd = 1, write_cmd_offset = 0\<rparr>) =
      Inr (demo_mem, demo_dev\<lparr>seekto_position := 3, seek := True\<rparr>, 0)"
    using good_asm_generic
    by (simp add: aesd_ioctl_def good_ioc_def AESDCHAR_IOC_MAXNR_def aesd_adjust_file_offset_def entry_at_def demo_two_def)
  ultimately show ?thesis
    using seek_command_roundtrip [of 1 0 "replicate 30721 0" "device_ops asm_generic" "(demo_env, demo_mem, demo_dev, 0)"
        "(demo_env, demo_mem, demo_dev, 1)" 3 "[]"]
    by (simp add: device_ops_def)
qed

text \<open>
  A client that sends the seek command for line \<open>k\<close> gets back the lines from the \<open>k\<close>-th on,
  as long as nothing has been evicted, no slot shows garbage for a size, and the device holds less
  than a buffer.
\<close>

theorem seek_session:
  assumes "file_ok (env, m, d, n)" and "good_ioc c" and "\<not> full (buffer d)"
    and "k < length (lines m d)" and "length (concat (lines m d)) < BUF_SIZE"
    and "length buf = BUF_SIZE + 1" and "slots_sane (buffer d)"
  shows "\<exists>s' s''. recieve_socket_data (device_ops c) (arrives (seek_command k 0) # evs) buf (env, m, d, n) =
      Inr (s', 1, Some 0) \<and>
    return_socket_data (Suc fuel) (device_ops c) all_sent s' = Some (Inr (s'', 0, concat (drop k (lines m d))))"
proof -
  have ok: "dev_inv m d" "good_alloc (alloc env)" "total_alloc (alloc env)" "\<not> mutex d" "\<not> relocked env"
    using assms(1) by auto
  have k10: "k < 10" using assms(4) length_entries_le [OF dev_invD(2) [OF ok(1)]] by (simp add: length_lines MAXW_eq)
  let ?s = "\<lparr>write_cmd = of_nat k, write_cmd_offset = 0\<rparr>" and ?B = "of_nat BUF_SIZE :: u64"
  have B: "unat ?B = BUF_SIZE" by (intro unat_of_nat_u64) (simp add: BUF_SIZE_def)
  have kw: "unat (write_cmd ?s) = k" using k10 by (simp add: unat_of_nat_u32)
  have "lines m d ! k \<noteq> []" using line_nonempty [OF ok(1)] assms(4) by simp
  then have "concat (lines m d) \<noteq> []" using assms(4) by (auto simp: concat_eq_Nil_conv)
  then have pos: "unat (0 :: u64) < length (concat (lines m d))" by simp
  have c31: "unat ?B < 2 ^ 31" unfolding B by (simp add: BUF_SIZE_def)
  have "concat (lines m d) = concat (take k (lines m d)) @ concat (drop k (lines m d))"
    by (metis append_take_drop_id concat_append)
  then have out: "length (concat (drop k (lines m d))) < BUF_SIZE"
    using assms(5) by (metis add_lessD1 add.commute length_append)
  obtain d1 m' d2 pos' rest where adj: "aesd_adjust_file_offset d ?s = Inr (d1, 0)"
      and rd: "aesd_read env m d1 ?B 0 = Inr (m', d2, pos', int (length (concat (drop k (lines m d)))),
        concat (drop k (lines m d)) @ rest)"
    using seek_read [OF ok c31 pos assms(3), of ?s] assms(4,7) out unfolding kw B by auto
  have "seek_command k 0 = seekto_name @ [colon, of_nat k + 48, comma, 48, lf]"
    using k10 by (simp add: seek_command_def decimal.simps)
  then have len: "length (seek_command k 0) < length buf" using assms(6) by (simp add: seekto_name_def BUF_SIZE_def)
  have "receive_loop (device_ops c) (arrives (seek_command k 0) # evs) buf (env, m, d, Suc n) 0 =
      Inr ((env, m, d1, Suc n), 1, Some 0)"
    using adj k10 assms(2) parse_seekto_decimal [of k 0]
    by (subst receive_loop_step [OF _ _ len])
      (simp_all add: seek_command_tokens device_ops_def aesd_ioctl_def good_ioc_def AESDCHAR_IOC_MAXNR_def)
  then have "recieve_socket_data (device_ops c) (arrives (seek_command k 0) # evs) buf (env, m, d, n) =
      Inr ((env, m, d1, Suc n), 1, Some 0)"
    by (simp add: recieve_socket_data_def device_ops_def)
  moreover have "return_socket_data (Suc fuel) (device_ops c) all_sent (env, m, d1, Suc n) =
      Some (Inr ((env, m', d2, Suc n), 0, concat (drop k (lines m d))))"
    using rd out by (simp add: return_socket_data_def device_ops_def all_sent_def)
  ultimately show ?thesis by blast
qed

theorem seek_session_witness:
  "\<exists>s' s''. recieve_socket_data (device_ops asm_generic) [arrives (seek_command 1 0)] (replicate 30721 0)
      (demo_env, demo_mem, demo_dev, 0) = Inr (s', 1, Some 0) \<and>
    return_socket_data 1 (device_ops asm_generic) all_sent s' = Some (Inr (s'', 0, [99, 10]))"
proof -
  have b: "length (replicate 30721 (0 :: u8)) = BUF_SIZE + 1" by (simp add: BUF_SIZE_def)
  have nf: "\<not> full (buffer demo_dev)" by (simp add: demo_two_def)
  have k: "1 < length (lines demo_mem demo_dev)" and c: "length (concat (lines demo_mem demo_dev)) < BUF_SIZE"
    unfolding demo_lines by (simp_all add: BUF_SIZE_def)
  show ?thesis
    using seek_session [OF demo_file_ok good_asm_generic nf k c b, of "[]" 0]
    by (simp add: demo_lines)
qed

text \<open>An allocator that always goes up never hands out a block it has just been given back.\<close>

definition ascending_alloc :: "allocator \<Rightarrow> bool" where
  "ascending_alloc al \<longleftrightarrow> (\<forall>m n a bs. al m n = Some (a, bs) \<longrightarrow> (\<forall>b \<in> dom m. b < a))"

lemma ascending_bump: "ascending_alloc bump"
  unfolding ascending_alloc_def bump_def
  by (auto simp: less_Suc_eq_le split: if_splits intro!: Max_ge)

lemma pending_write_faults:
  assumes inv: "dev_inv m d" and al: "good_alloc (alloc env)" "total_alloc (alloc env)" "ascending_alloc (alloc env)"
    and copy: "from_user env buf = (0, buf)" and free: "\<not> mutex d" and part: "partial d"
    and len: "length (pending m d) + length buf < 2 ^ 31"
  shows "aesd_write env m d buf = Inl Dangling"
proof -
  let ?count = "of_nat (length buf) :: u64" and ?n = "of_nat (length buf) + esize (partial_entry d)"
  have count: "unat ?count = length buf" using len by (intro unat_of_nat_u64) simp
  have "unat (esize (partial_entry d)) = length (pending m d)"
    using dev_invD(5) [OF inv part] by (auto simp: stored_def)
  then have n: "unat ?n < 2 ^ 31" using len count by (simp add: wsimps)
  note fin = dev_invD(1) [OF inv]
  obtain e eb where e: "alloc env m 16 = Some (e, eb)"
    by (rule total_allocE [OF al(2,1) fin, of 16]) auto
  obtain x xb where x: "alloc env (m(e \<mapsto> eb)) ?count = Some (x, xb)"
    by (rule total_allocE [OF al(2,1), of "m(e \<mapsto> eb)" ?count]) (use fin count len in auto)
  obtain t tb where t: "alloc env (m(e \<mapsto> eb, x \<mapsto> xb)) ?n = Some (t, tb)"
    by (rule total_allocE [OF al(2,1), of "m(e \<mapsto> eb, x \<mapsto> xb)" ?n]) (use fin n in auto)
  have xt: "x < t" using al(3) [unfolded ascending_alloc_def, rule_format, OF t, of x] by simp
  let ?joined = "m(e \<mapsto> eb, t \<mapsto> pending m d @ buf)"
  have "a \<noteq> x" if "alloc env ?joined ?n = Some (a, yb)" for a yb
    using al(3) [unfolded ascending_alloc_def, rule_format, OF that, of t] xt by simp
  then show ?thesis
    using aesd_write_joins [OF inv al(1) copy free part len refl e x t refl] by (auto split: option.splits)
qed

text \<open>
  A message that arrives in two pieces, the first without a newline, makes the kernel write
  to freed memory, whatever is held, with any allocator that does not hand the freed block
  back at once.
\<close>

theorem split_message_faults:
  assumes "file_ok (env, m, d, n)" and "ascending_alloc (alloc env)"
    and "plain_chunk l1" "l1 \<noteq> []" "length l1 \<le> BUF_SIZE" "lf \<notin> set l1"
    and "plain_chunk l2" "length l2 \<le> BUF_SIZE"
    and "length buf = BUF_SIZE + 1"
  shows "recieve_socket_data (device_ops c) (arrives l1 # arrives l2 # evs) buf (env, m, d, n) = Inl Dangling"
proof -
  have ok: "dev_inv m d" "good_alloc (alloc env)" "total_alloc (alloc env)" "\<not> mutex d" "\<not> relocked env"
      "\<not> partial d" "from_user env = Pair 0"
    using assms(1) by auto
  have B: "length l1 < 2 ^ 31" "length l1 + length l2 < 2 ^ 31" using assms(5,8) by (simp_all add: BUF_SIZE_def)
  have "last l1 \<noteq> newline" using assms(4,6) last_in_set by metis
  moreover have "pending m d = []" using ok(6) by (simp add: pending_def)
  moreover have "from_user env l1 = (0, l1)" using ok(7) by simp
  ultimately obtain m1 d1 where w1: "aesd_write env m d l1 = Inr (m1, d1, int (length l1))" "dev_inv m1 d1"
      "view m1 d1 = (lines m d, l1)" "\<not> mutex d1"
    using aesd_write_plain [OF ok(1-3) _ ok(4,6) assms(4) B(1)] ok(5) by (auto simp: spec_write_def view_def)
  then have p1: "pending m1 d1 = l1" by (simp add: view_def)
  then have part1: "partial d1" using assms(4) by (auto simp: pending_def split: if_splits)
  have w2: "aesd_write env m1 d1 l2 = Inl Dangling"
    by (rule pending_write_faults [OF w1(2) ok(2,3) assms(2) _ w1(4) part1]) (use ok(7) p1 B in simp_all)
  have nolf: "\<not> strchr_found (cstr l1) lf"
    using assms(6) set_takeWhileD by (fastforce simp: strchr_found_def cstr_def)
  have len1: "length l1 < length buf" using assms(5,9) by simp
  have len2: "length l2 < length ((l1 @ drop (length l1) buf)[length l1 := 0])"
    using buf_after_recv(3) [OF len1] assms(8,9) by simp
  have "receive_loop (device_ops c) (arrives l1 # arrives l2 # evs) buf (env, m, d, Suc n) 0 =
      receive_loop (device_ops c) (arrives l2 # evs) ((l1 @ drop (length l1) buf)[length l1 := 0]) (env, m1, d1, Suc n) 1"
    using nolf by (subst receive_plain [OF _ _ len1 assms(3)]) (simp_all add: device_ops_def w1(1))
  also have "\<dots> = Inl Dangling"
    by (subst receive_plain [OF _ _ len2 assms(7)]) (simp_all add: device_ops_def w2)
  finally show ?thesis by (simp add: recieve_socket_data_def device_ops_def)
qed

lemma demo_plain: "plain_chunk [97]" "plain_chunk [98, 10]"
  by (auto simp: plain_chunk_def cstr_def strtok_def seekto_name_def)

text \<open>"a" and then "b" with a newline.\<close>

theorem split_message_faults_witness:
  "recieve_socket_data (device_ops asm_generic) [arrives [97], arrives [98, 10]] (replicate 30721 0)
     (demo_env, demo_mem, demo_dev, 0) = Inl Dangling"
proof -
  have b: "length (replicate 30721 (0 :: u8)) = BUF_SIZE + 1" by (simp add: BUF_SIZE_def)
  have "ascending_alloc (alloc demo_env)" using ascending_bump by simp
  then show ?thesis
    using split_message_faults [OF demo_file_ok _ demo_plain(1) _ _ _ demo_plain(2) _ b, of asm_generic "[]"]
    by (simp add: BUF_SIZE_def)
qed

end
