(* ===== verification/Slist.thy ===== *)
theory Slist
  imports Kernel_Memory "HOL-Library.Multiset"
begin

text \<open>
  The singly-linked list macros of \<open>server/queue.h\<close> on a heap of cells. \<open>slist h p xs\<close> says that
  the cells reached from \<open>p\<close> are \<open>xs\<close>, in order, ending in NULL; \<open>removable_table\<close> is the contract
  the server's list of threads relies on.
\<close>

section \<open>Cells and macros\<close>

text \<open>The field of type \<open>SLIST_ENTRY\<close> and the rest of the structure, called \<open>payload\<close> here.\<close>

record 'a scell =
  payload :: 'a
  sle_next :: ptr

type_synonym 'a sheap = "nat \<Rightarrow> 'a scell option"

definition cell :: "'a sheap \<Rightarrow> ptr \<Rightarrow> 'a scell res" where
  "cell h p = (case p of Null \<Rightarrow> Inl NullDeref
     | Ref a \<Rightarrow> (case h a of None \<Rightarrow> Inl Dangling | Some c \<Rightarrow> Inr c))"

definition set_next :: "'a sheap \<Rightarrow> ptr \<Rightarrow> ptr \<Rightarrow> 'a sheap res" where
  "set_next h p q = (case p of Null \<Rightarrow> Inl NullDeref
     | Ref a \<Rightarrow> (case h a of None \<Rightarrow> Inl Dangling | Some c \<Rightarrow> Inr (h(a \<mapsto> c\<lparr>sle_next := q\<rparr>))))"

definition SLIST_NEXT :: "'a sheap \<Rightarrow> ptr \<Rightarrow> ptr res" where
  "SLIST_NEXT h elm = bnd (cell h elm) (\<lambda>c. Inr (sle_next c))"

text \<open>The head is the pointer \<open>slh_first\<close>.\<close>

definition SLIST_INIT :: ptr where
  "SLIST_INIT = Null"

definition SLIST_FIRST :: "ptr \<Rightarrow> ptr" where
  "SLIST_FIRST head = head"

definition SLIST_EMPTY :: "ptr \<Rightarrow> bool" where
  "SLIST_EMPTY head \<longleftrightarrow> head = Null"

definition SLIST_INSERT_HEAD :: "'a sheap \<Rightarrow> ptr \<Rightarrow> ptr \<Rightarrow> ('a sheap \<times> ptr) res" where
  "SLIST_INSERT_HEAD h head elm = bnd (set_next h elm head) (\<lambda>h. Inr (h, elm))"

definition SLIST_INSERT_AFTER :: "'a sheap \<Rightarrow> ptr \<Rightarrow> ptr \<Rightarrow> 'a sheap res" where
  "SLIST_INSERT_AFTER h slistelm elm =
     bnd (SLIST_NEXT h slistelm) (\<lambda>n. bnd (set_next h elm n) (\<lambda>h. set_next h slistelm elm))"

definition SLIST_REMOVE_HEAD :: "'a sheap \<Rightarrow> ptr \<Rightarrow> ptr res" where
  "SLIST_REMOVE_HEAD h head = SLIST_NEXT h head"

definition SLIST_REMOVE_AFTER :: "'a sheap \<Rightarrow> ptr \<Rightarrow> 'a sheap res" where
  "SLIST_REMOVE_AFTER h slistelm =
     bnd (SLIST_NEXT h slistelm) (\<lambda>n. bnd (SLIST_NEXT h n) (\<lambda>nn. set_next h slistelm nn))"

definition SLIST_SWAP :: "ptr \<Rightarrow> ptr \<Rightarrow> ptr \<times> ptr" where
  "SLIST_SWAP head1 head2 = (head2, head1)"

text \<open>The search of \<open>SLIST_REMOVE\<close>, which may go round for ever in a cycle.\<close>

partial_function (option) find_before :: "'a sheap \<Rightarrow> ptr \<Rightarrow> ptr \<Rightarrow> ptr res option" where
  "find_before h curelm elm = (case SLIST_NEXT h curelm of
     Inl e \<Rightarrow> Some (Inl e)
   | Inr n \<Rightarrow> if n \<noteq> elm then find_before h n elm else Some (Inr curelm))"

declare find_before.simps [code]

definition SLIST_REMOVE :: "'a sheap \<Rightarrow> ptr \<Rightarrow> ptr \<Rightarrow> ('a sheap \<times> ptr) res" where
  "SLIST_REMOVE h head elm =
     (if head = elm then bnd (SLIST_REMOVE_HEAD h head) (\<lambda>head. Inr (h, head))
      else case find_before h head elm of
          None \<Rightarrow> Inl Diverges
        | Some r \<Rightarrow> bnd r (\<lambda>curelm.
            bnd (SLIST_NEXT h curelm) (\<lambda>n.
            bnd (SLIST_NEXT h n) (\<lambda>nn.
            bnd (set_next h curelm nn) (\<lambda>h. Inr (h, head))))))"

section \<open>The list a pointer stands for\<close>

fun slist :: "'a sheap \<Rightarrow> ptr \<Rightarrow> nat list \<Rightarrow> bool" where
  "slist h p [] \<longleftrightarrow> p = Null"
| "slist h p (a # as) \<longleftrightarrow> p = Ref a \<and> (\<exists>c. h a = Some c \<and> slist h (sle_next c) as)"

lemma cell_Ref [simp]: "h a = Some c \<Longrightarrow> cell h (Ref a) = Inr c" "cell h Null = Inl NullDeref"
  by (simp_all add: cell_def)

lemma next_Ref [simp]: "h a = Some c \<Longrightarrow> SLIST_NEXT h (Ref a) = Inr (sle_next c)" "SLIST_NEXT h Null = Inl NullDeref"
  by (simp_all add: SLIST_NEXT_def)

lemma set_next_Ref [simp]: "h a = Some c \<Longrightarrow> set_next h (Ref a) q = Inr (h(a \<mapsto> c\<lparr>sle_next := q\<rparr>))"
  by (simp add: set_next_def)

lemma slist_frame: "a \<notin> set xs \<Longrightarrow> slist (h(a := x)) p xs = slist h p xs"
  by (induction xs arbitrary: p) auto

lemma slist_unique: "slist h p xs \<Longrightarrow> slist h p ys \<Longrightarrow> xs = ys"
proof (induction xs arbitrary: p ys)
  case Nil
  then show ?case by (cases ys) auto
next
  case (Cons x xs)
  then show ?case by (cases ys) auto
qed

lemma slist_append: "slist h p (xs @ a # ys) \<Longrightarrow> slist h (Ref a) (a # ys)"
  by (induction xs arbitrary: p) auto

text \<open>A list that ends has no cell twice.\<close>

lemma slist_distinct: "slist h p xs \<Longrightarrow> distinct xs"
proof (induction xs arbitrary: p)
  case (Cons a xs)
  then obtain c where c: "p = Ref a" "h a = Some c" "slist h (sle_next c) xs" by auto
  have "a \<notin> set xs"
  proof
    assume "a \<in> set xs"
    then obtain us vs where xs: "xs = us @ a # vs" by (meson split_list)
    have "slist h (Ref a) (a # vs)" using c(3) unfolding xs by (rule slist_append)
    moreover have "slist h (Ref a) (a # xs)" using Cons.prems c(1) by simp
    ultimately have "a # vs = a # xs" by (rule slist_unique)
    then show False unfolding xs by (simp add: append_eq_conv_conj)
  qed
  with Cons.IH [OF c(3)] show ?case by simp
qed simp

lemma slist_cells: "slist h p xs \<Longrightarrow> a \<in> set xs \<Longrightarrow> \<exists>c. h a = Some c"
  by (induction xs arbitrary: p) auto

section \<open>The macros on lists\<close>

lemma insert_head_slist:
  assumes "slist h head xs" and "h a = Some c" and "a \<notin> set xs"
  shows "SLIST_INSERT_HEAD h head (Ref a) = Inr (h(a \<mapsto> c\<lparr>sle_next := head\<rparr>), Ref a) \<and>
    slist (h(a \<mapsto> c\<lparr>sle_next := head\<rparr>)) (Ref a) (a # xs)"
  using assms by (simp add: SLIST_INSERT_HEAD_def slist_frame)

lemma remove_head_slist:
  "slist h head (a # xs) \<Longrightarrow> \<exists>head'. SLIST_REMOVE_HEAD h head = Inr head' \<and> slist h head' xs"
  by (auto simp: SLIST_REMOVE_HEAD_def)

lemma find_before_slist:
  "slist h p (x # xs) \<Longrightarrow> a \<noteq> x \<Longrightarrow>
    find_before h p (Ref a) = Some (if a \<in> set xs then Inr (Ref (last (takeWhile (\<lambda>b. b \<noteq> a) (x # xs)))) else Inl NullDeref)"
proof (induction xs arbitrary: p x)
  case Nil
  have "find_before h Null (Ref a) = Some (Inl NullDeref)"
    by (subst find_before.simps) simp
  with Nil show ?case by (subst find_before.simps) auto
next
  case (Cons y ys)
  then obtain c where c: "p = Ref x" "h x = Some c" "slist h (sle_next c) (y # ys)" by auto
  then have n: "sle_next c = Ref y" by simp
  show ?case
  proof (cases "y = a")
    case True
    then show ?thesis using c n Cons.prems(2) by (subst find_before.simps) auto
  next
    case False
    have "find_before h p (Ref a) = find_before h (Ref y) (Ref a)"
      using c n False by (subst find_before.simps) simp
    then show ?thesis
      using Cons.IH [of "sle_next c" y] c(3) n False Cons.prems(2) by auto
  qed
qed

lemma slist_split: "slist h p (xs @ a # ys) \<Longrightarrow> xs \<noteq> [] \<Longrightarrow> \<exists>c. h (last xs) = Some c \<and> sle_next c = Ref a"
proof (induction xs arbitrary: p)
  case (Cons x xs)
  then show ?case by (cases xs) auto
qed simp

text \<open>Linking the last cell of a prefix past the next cell takes that cell out.\<close>

lemma slist_unlink:
  assumes "slist h p (xs @ a # ys)" and "xs \<noteq> []" and "h (last xs) = Some c" and "h a = Some ca"
  shows "slist (h(last xs \<mapsto> c\<lparr>sle_next := sle_next ca\<rparr>)) p (xs @ ys)"
  using assms
proof (induction xs arbitrary: p)
  case (Cons x xs)
  have d: "distinct (x # xs @ a # ys)" using slist_distinct [OF Cons.prems(1)] by simp
  obtain cx where cx: "p = Ref x" "h x = Some cx" "slist h (sle_next cx) (xs @ a # ys)"
    using Cons.prems(1) by auto
  show ?case
  proof (cases "xs = []")
    case True
    then have "slist h (sle_next ca) ys" using cx(3) Cons.prems(4) by auto
    moreover have "x \<notin> set ys" using d by auto
    ultimately have "slist (h(x \<mapsto> c\<lparr>sle_next := sle_next ca\<rparr>)) (sle_next ca) ys"
      by (simp add: slist_frame)
    then show ?thesis using True cx(1,2) Cons.prems(3) by (simp add: fun_upd_def)
  next
    case False
    then have "last xs \<noteq> x" using d last_in_set [OF False] by auto
    then show ?thesis using Cons.IH [OF cx(3) False] Cons.prems(3,4) cx(1,2) False by auto
  qed
qed simp

lemma remove_slist:
  assumes xs: "slist h head xs" and a: "a \<in> set xs"
  shows "\<exists>h' head'. SLIST_REMOVE h head (Ref a) = Inr (h', head') \<and> slist h' head' (remove1 a xs) \<and> dom h' = dom h"
proof -
  obtain x rest where x: "xs = x # rest" using a by (cases xs) auto
  show ?thesis
  proof (cases "a = x")
    case True
    then obtain head' where "SLIST_REMOVE_HEAD h head = Inr head'" "slist h head' rest"
      using remove_head_slist xs x by blast
    then show ?thesis using True xs x by (auto simp: SLIST_REMOVE_def)
  next
    case False
    then have "a \<in> set rest" using a x by simp
    then obtain us vs where rest: "rest = us @ a # vs" "a \<notin> set us" by (meson split_list_first)
    let ?pre = "x # us"
    have split: "slist h head (?pre @ a # vs)" using xs x rest by simp
    have "takeWhile (\<lambda>b. b \<noteq> a) (x # rest) = ?pre"
      using False rest by (simp add: takeWhile_append2 takeWhile_tail) (metis takeWhile_eq_all_conv append_Nil2 takeWhile_append2)
    then have fb: "find_before h head (Ref a) = Some (Inr (Ref (last ?pre)))"
      using find_before_slist [of h head x rest a] xs x False \<open>a \<in> set rest\<close> by simp
    obtain c where c: "h (last ?pre) = Some c" "sle_next c = Ref a" using slist_split [OF split] by auto
    obtain ca where ca: "h a = Some ca" using slist_cells [OF xs a] by blast
    have "slist (h(last ?pre \<mapsto> c\<lparr>sle_next := sle_next ca\<rparr>)) head (?pre @ vs)"
      by (rule slist_unlink [OF split _ c(1) ca]) simp
    moreover have "remove1 a xs = ?pre @ vs" using x rest False by (simp add: remove1_append)
    moreover have "SLIST_REMOVE h head (Ref a) = Inr (h(last ?pre \<mapsto> c\<lparr>sle_next := sle_next ca\<rparr>), head)"
      using False xs x fb c ca by (simp add: SLIST_REMOVE_def)
    moreover have "dom (h(last ?pre \<mapsto> c\<lparr>sle_next := sle_next ca\<rparr>)) = dom h" using c(1) by auto
    ultimately show ?thesis by auto
  qed
qed

lemma remove_absent:
  assumes "slist h head xs" and "a \<notin> set xs"
  shows "SLIST_REMOVE h head (Ref a) = Inl NullDeref"
proof (cases xs)
  case Nil
  have "find_before h Null (Ref a) = Some (Inl NullDeref)" by (subst find_before.simps) simp
  with Nil assms show ?thesis by (simp add: SLIST_REMOVE_def)
next
  case (Cons x rest)
  then show ?thesis
    using assms find_before_slist [of h head x rest a] by (auto simp: SLIST_REMOVE_def)
qed

section \<open>The contract of a table one removes from\<close>

locale removable_table =
  fixes rep :: "'s \<Rightarrow> nat list \<Rightarrow> bool"
    and remove :: "'s \<Rightarrow> nat \<Rightarrow> 's res"
  assumes remove_ok: "rep s xs \<Longrightarrow> a \<in> set xs \<Longrightarrow> \<exists>s'. remove s a = Inr s' \<and> rep s' (remove1 a xs)"
begin

fun remove_each :: "'s \<Rightarrow> nat list \<Rightarrow> 's res" where
  "remove_each s [] = Inr s"
| "remove_each s (a # as) = bnd (remove s a) (\<lambda>s. remove_each s as)"

text \<open>Taking out the entries one by one, in any order, empties the table.\<close>

lemma remove_each_empties:
  "rep s xs \<Longrightarrow> mset as = mset xs \<Longrightarrow> \<exists>s'. remove_each s as = Inr s' \<and> rep s' []"
proof (induction as arbitrary: s xs)
  case (Cons a as)
  then have a: "a \<in> set xs" by (metis list.set_intros(1) mset_eq_setD)
  obtain s1 where s1: "remove s a = Inr s1" "rep s1 (remove1 a xs)" using remove_ok [OF Cons.prems(1) a] by blast
  have "mset as = mset (remove1 a xs)" using Cons.prems(2) by (metis add_mset_remove_trivial mset.simps(2) mset_remove1)
  then show ?case using Cons.IH [OF s1(2)] s1(1) by auto
qed auto

end

fun table_rep :: "'a sheap \<times> ptr \<Rightarrow> nat list \<Rightarrow> bool" where
  "table_rep (h, head) xs \<longleftrightarrow> slist h head xs"

fun table_remove :: "'a sheap \<times> ptr \<Rightarrow> nat \<Rightarrow> ('a sheap \<times> ptr) res" where
  "table_remove (h, head) a = SLIST_REMOVE h head (Ref a)"

interpretation slist_table: removable_table table_rep table_remove
proof unfold_locales
  fix s :: "'a sheap \<times> ptr" and xs a
  assume r: "table_rep s xs" and a: "a \<in> set xs"
  obtain h head where s: "s = (h, head)" by (cases s)
  show "\<exists>s'. table_remove s a = Inr s' \<and> table_rep s' (remove1 a xs)"
    using remove_slist [of h head xs a] r a unfolding s by auto
qed

section \<open>What \<open>SLIST_REMOVE\<close> does\<close>

text \<open>
  On a well-formed list \<open>SLIST_REMOVE\<close> always terminates: it takes out exactly the given
  element when the list holds it and keeps the order of the others, and it dereferences NULL
  when the list does not hold it. The elements taken out one by one in any order leave the
  empty list.
\<close>

theorem slist_remove_takes_out:
  fixes h :: "'a sheap"
  assumes "slist h head xs"
  shows "(a \<in> set xs \<longrightarrow> (\<exists>h' head'. SLIST_REMOVE h head (Ref a) = Inr (h', head') \<and>
      slist h' head' (remove1 a xs))) \<and>
    (a \<notin> set xs \<longrightarrow> SLIST_REMOVE h head (Ref a) = Inl NullDeref) \<and>
    (mset as = mset xs \<longrightarrow> (\<exists>h'. slist_table.remove_each (h, head) as = Inr (h', Null)))"
proof (intro conjI impI)
  show "\<exists>h' head'. SLIST_REMOVE h head (Ref a) = Inr (h', head') \<and> slist h' head' (remove1 a xs)" if "a \<in> set xs"
    using remove_slist [OF assms that] by blast
  show "SLIST_REMOVE h head (Ref a) = Inl NullDeref" if "a \<notin> set xs"
    using remove_absent [OF assms that] .
  assume as: "mset as = mset xs"
  have "table_rep (h, head) xs" using assms by simp
  from slist_table.remove_each_empties [OF this as]
  show "\<exists>h'. slist_table.remove_each (h, head) as = Inr (h', Null)" by auto
qed

text \<open>A list of three.\<close>

definition three_cells :: "unit sheap" where
  "three_cells = [1 \<mapsto> \<lparr>payload = (), sle_next = Ref 2\<rparr>, 2 \<mapsto> \<lparr>payload = (), sle_next = Ref 3\<rparr>,
     3 \<mapsto> \<lparr>payload = (), sle_next = Null\<rparr>]"

theorem slist_remove_takes_out_witness:
  "(\<exists>h' head'. SLIST_REMOVE three_cells (Ref 1) (Ref 2) = Inr (h', head') \<and> slist h' head' [1, 3]) \<and>
   SLIST_REMOVE three_cells (Ref 1) (Ref 4) = Inl NullDeref"
proof -
  have l: "slist three_cells (Ref 1) [1, 2, 3]" by (simp add: three_cells_def)
  show ?thesis
    using slist_remove_takes_out [OF l, of 2] slist_remove_takes_out [OF l, of 4] by simp
qed

end
