(* ===== verification/Socket_Main.thy ===== *)
theory Socket_Main
  imports Slist Socket_Data
begin

text \<open>
  The rest of \<open>server/aesdsocket.c\<close>: signals, opening the socket, the thread of a connection,
  the list of threads, the accept loop and the shutdown. What the system calls return is an
  event; what happens to other threads is a log.
\<close>

section \<open>Signals\<close>

record sigs =
  caught_a_signal :: bool
  caught_sigint :: bool
  caught_sigterm :: bool
  caught_sigalrm :: bool
  should_continue :: bool

definition SIGINT :: int where "SIGINT = 2"
definition SIGTERM :: int where "SIGTERM = 15"
definition SIGALRM :: int where "SIGALRM = 14"

lemmas signal_defs = SIGINT_def SIGTERM_def SIGALRM_def

definition no_signals :: sigs where
  "no_signals = \<lparr>caught_a_signal = False, caught_sigint = False, caught_sigterm = False,
     caught_sigalrm = False, should_continue = True\<rparr>"

definition signal_handler :: "int \<Rightarrow> sigs \<Rightarrow> sigs" where
  "signal_handler signal_number s =
     (let s = (if signal_number = SIGINT
               then s\<lparr>caught_sigint := True, caught_a_signal := True, should_continue := False\<rparr> else s);
          s = (if signal_number = SIGTERM
               then s\<lparr>caught_sigterm := True, caught_a_signal := True, should_continue := False\<rparr> else s)
      in if signal_number = SIGALRM then s\<lparr>caught_sigalrm := True\<rparr> else s)"

text \<open>The signals handled afterwards, or the status the process exits with.\<close>

definition set_signal_handling :: "(int \<Rightarrow> int) \<Rightarrow> int + int list" where
  "set_signal_handling sigaction =
     (if sigaction SIGINT \<noteq> 0 then Inl (- 1)
      else if sigaction SIGTERM \<noteq> 0 then Inl (- 1)
      else if sigaction SIGALRM \<noteq> 0 then Inl (- 1)
      else Inr [SIGINT, SIGTERM, SIGALRM])"

section \<open>Opening the socket\<close>

text \<open>The results of the calls. \<open>serverinfo\<close> is set by a \<open>getaddrinfo\<close> that succeeds.\<close>

record socket_env =
  getaddrinfo :: int
  socket_fd :: int
  setsockopt :: int
  bind_result :: int

text \<open>The descriptor, or the status the process exits with.\<close>

definition open_socket :: "socket_env \<Rightarrow> (int + int) res" where
  "open_socket e =
     (if getaddrinfo e \<noteq> 0 then Inl Uninitialised
      else if socket_fd e = - 1 then Inr (Inl (- 1))
      else if setsockopt e = - 1 then Inr (Inl (- 1))
      else if bind_result e \<noteq> 0 then Inr (Inl (- 1))
      else Inr (Inr (socket_fd e)))"

section \<open>The thread of a connection\<close>

text \<open>
  \<open>thread_data\<close> without its mutex, and what the thread is doing to the mutex of the output file.
  \<open>recieve\<close> and \<open>return\<close> are the two functions of \<open>Socket_Data\<close> applied to this connection.
\<close>

record thread_data =
  thread_complete_success :: bool
  pfd :: int

datatype thread_end = Thread_returns | Process_exits int | Thread_waits

text \<open>The result: the file, whether the mutex is held, the thread's data, and how the thread ends.\<close>

definition accept_connection_thread ::
  "int \<Rightarrow> int \<Rightarrow> ('s \<Rightarrow> int \<Rightarrow> ('s \<times> int option) res) \<Rightarrow> ('s \<Rightarrow> int \<Rightarrow> ('s \<times> int) res) \<Rightarrow> 's \<Rightarrow> thread_data \<Rightarrow>
   ('s \<times> bool \<times> thread_data \<times> thread_end) res" where
  "accept_connection_thread lock_result unlock_result recieve return_data s data =
     (if lock_result \<noteq> 0 then Inr (s, False, data, Process_exits (- 1))
      else
        bnd (recieve s (pfd data)) (\<lambda>(s, res). case res of
          None \<Rightarrow> Inr (s, True, data, Thread_waits)
        | Some res \<Rightarrow>
            if res = - 1 then Inr (s, unlock_result \<noteq> 0, data, Process_exits (- 1))
            else
              bnd (return_data s (pfd data)) (\<lambda>(s, res).
                if res = - 1 then Inr (s, unlock_result \<noteq> 0, data, Process_exits (- 1))
                else if unlock_result \<noteq> 0 then Inr (s, True, data, Process_exits (- 1))
                else Inr (s, False, data\<lparr>thread_complete_success := True\<rparr>, Thread_returns))))"

section \<open>The list of threads\<close>

text \<open>An element of the list (\<open>slist_data_t\<close>): the thread and its data.\<close>

record slist_data =
  thread_id :: nat
  tdata :: thread_data

text \<open>
  \<open>SLIST_FOREACH_SAFE\<close> over the list. The condition of the body is an assignment, so it always
  holds and sets the flag; the body joins the thread and takes its element out. \<open>joined\<close> is the
  threads joined so far.
\<close>

partial_function (option) reap :: "slist_data sheap \<Rightarrow> ptr \<Rightarrow> ptr \<Rightarrow> nat list \<Rightarrow>
    (slist_data sheap \<times> ptr \<times> nat list) res option" where
  "reap h head datap joined =
     (if datap = Null then Some (Inr (h, head, joined))
      else case cell h datap of
        Inl e \<Rightarrow> Some (Inl e)
      | Inr c \<Rightarrow>
          (let datap_temp = sle_next c;
               c = c\<lparr>payload := (payload c)\<lparr>tdata := (tdata (payload c))\<lparr>thread_complete_success := True\<rparr>\<rparr>\<rparr>;
               h = (case datap of Null \<Rightarrow> h | Ref a \<Rightarrow> h(a \<mapsto> c))
           in case SLIST_REMOVE h head datap of
                Inl e \<Rightarrow> Some (Inl e)
              | Inr (h, head) \<Rightarrow> reap h head datap_temp (joined @ [thread_id (payload c)])))"

text \<open>
  The loop of \<open>graceful_socket_shutdown\<close>: cancel the first thread and take its element out.
  \<open>datap\<close> is None as long as it is the block the function allocates before the loop.
\<close>

partial_function (option) cancel_all :: "slist_data sheap \<Rightarrow> ptr \<Rightarrow> ptr option \<Rightarrow> nat list \<Rightarrow>
    (ptr \<times> ptr option \<times> nat list) res option" where
  "cancel_all h head datap cancelled =
     (if SLIST_EMPTY head then Some (Inr (head, datap, cancelled))
      else case cell h (SLIST_FIRST head) of
        Inl e \<Rightarrow> Some (Inl e)
      | Inr c \<Rightarrow> (case SLIST_REMOVE_HEAD h head of
            Inl e \<Rightarrow> Some (Inl e)
          | Inr head' \<Rightarrow> cancel_all h head' (Some (SLIST_FIRST head)) (cancelled @ [thread_id (payload c)])))"

text \<open>\<open>free\<close> of the block of the function itself, of NULL and of a list element.\<close>

definition free_cell :: "'a sheap \<Rightarrow> ptr option \<Rightarrow> 'a sheap res" where
  "free_cell h datap = (case datap of
     None \<Rightarrow> Inr h
   | Some Null \<Rightarrow> Inr h
   | Some (Ref a) \<Rightarrow> if h a = None then Inl BadFree else Inr (h(a := None)))"

section \<open>The accept loop\<close>

record server =
  sig :: sigs
  threads :: "slist_data sheap"
  head :: ptr
  counter :: nat
  joined :: "nat list"
  cancelled :: "nat list"
  socket_open :: bool

datatype main_end = Running server | Exited int server

definition graceful_socket_shutdown :: "server \<Rightarrow> server res" where
  "graceful_socket_shutdown s = (case cancel_all (threads s) (head s) None (cancelled s) of
     None \<Rightarrow> Inl Diverges
   | Some r \<Rightarrow> bnd r (\<lambda>(hd, datap, c).
       bnd (free_cell (threads s) datap) (\<lambda>h.
         Inr (s\<lparr>threads := h, head := hd, cancelled := c, socket_open := False\<rparr>))))"

text \<open>
  One turn of the loop: what \<open>listen\<close>, \<open>accept\<close> (with \<open>errno\<close>) and \<open>pthread_create\<close> return, the new
  thread, the address of its list element, whether the two calls of \<open>malloc\<close> that are written
  through succeed, and the signals that arrive during the turn.
\<close>

record accept_event =
  listen_result :: int
  accepted :: int
  errno :: int
  create_result :: int
  new_thread :: nat
  node :: nat
  data_malloced :: bool
  node_malloced :: bool
  arriving :: "int list"

definition main_exit :: "int \<Rightarrow> server \<Rightarrow> main_end res" where
  "main_exit status s = bnd (graceful_socket_shutdown s) (\<lambda>s. Inr (Exited status s))"

text \<open>What follows the loop.\<close>

definition main_finish :: "server \<Rightarrow> main_end res" where
  "main_finish s =
     (if caught_sigint (sig s) \<or> caught_sigterm (sig s) then main_exit 0 s else Inr (Exited 0 s))"

definition main_turn :: "server \<Rightarrow> accept_event \<Rightarrow> main_end res" where
  "main_turn s ev =
     (let s = s\<lparr>sig := foldl (\<lambda>g n. signal_handler n g) (sig s) (arriving ev)\<rparr>
      in if listen_result ev \<noteq> 0 then main_exit (- 1) s
         else if accepted ev = - 1 then
           (if errno ev = 4 then main_finish s else main_exit (- 1) s)
         else if \<not> data_malloced ev then Inl NullDeref
         else if create_result ev \<noteq> 0 then main_exit (- 1) s
         else if \<not> node_malloced ev then Inl NullDeref
         else
           let data = \<lparr>thread_complete_success = False, pfd = accepted ev\<rparr>;
               datap = Ref (node ev);
               h = (threads s)(node ev \<mapsto> \<lparr>payload = \<lparr>thread_id = new_thread ev, tdata = data\<rparr>, sle_next = Null\<rparr>)
           in bnd (SLIST_INSERT_HEAD h (head s) datap) (\<lambda>(h, hd).
                let s = s\<lparr>threads := h, head := hd, counter := counter s + 1\<rparr>
                in bnd (if 1 < counter s then
                          (case reap (threads s) (head s) (SLIST_FIRST (head s)) (joined s) of
                             None \<Rightarrow> Inl Diverges
                           | Some r \<Rightarrow> bnd r (\<lambda>(h, hd, j). Inr (s\<lparr>threads := h, head := hd, joined := j\<rparr>)))
                        else Inr s) (\<lambda>s.
                     if caught_a_signal (sig s) then main_finish s else Inr (Running s))))"

fun main_loop :: "server \<Rightarrow> accept_event list \<Rightarrow> main_end res" where
  "main_loop s [] = Inr (Running s)"
| "main_loop s (ev # evs) = bnd (main_turn s ev) (\<lambda>e. case e of
     Running s \<Rightarrow> main_loop s evs
   | Exited status s \<Rightarrow> Inr (Exited status s))"

section \<open>The start of \<open>main\<close>\<close>

text \<open>What the process finds before the loop: the calls, and the option for a daemon.\<close>

record startup =
  sigaction_result :: "int \<Rightarrow> int"
  mutex_init :: int
  sockets :: socket_env
  daemon :: bool
  fork_result :: int

definition start_server :: server where
  "start_server = \<lparr>sig = no_signals, threads = Map.empty, head = SLIST_INIT, counter = 0,
     joined = [], cancelled = [], socket_open = True\<rparr>"

text \<open>The descriptor and the state the loop starts in, or the status the process exits with.\<close>

definition main_start :: "startup \<Rightarrow> (int + int \<times> server) res" where
  "main_start e = (case set_signal_handling (sigaction_result e) of
     Inl status \<Rightarrow> Inr (Inl status)
   | Inr _ \<Rightarrow>
       if mutex_init e \<noteq> 0 then Inr (Inl (- 1))
       else bnd (open_socket (sockets e)) (\<lambda>r. case r of
           Inl status \<Rightarrow> Inr (Inl status)
         | Inr sfd \<Rightarrow>
             if daemon e \<and> fork_result e < 0 then Inr (Inl (- 1))
             else if daemon e \<and> 0 < fork_result e then Inr (Inl 0)
             else Inr (Inr (sfd, start_server))))"

section \<open>What the loops over the list do\<close>

definition ids :: "slist_data sheap \<Rightarrow> nat list \<Rightarrow> nat list" where
  "ids h xs = map (\<lambda>a. case h a of None \<Rightarrow> 0 | Some c \<Rightarrow> thread_id (payload c)) xs"

lemma ids_Cons: "h a = Some c \<Longrightarrow> ids h (a # xs) = thread_id (payload c) # ids h xs"
  by (simp add: ids_def)

lemma ids_frame: "a \<notin> set xs \<Longrightarrow> ids (h(a := x)) xs = ids h xs"
  by (auto simp: ids_def)

text \<open>Reaping joins every thread, whatever its flag says, and unlinks every element.\<close>

lemma reap_all:
  "slist h p xs \<Longrightarrow> \<exists>h'. reap h p p j = Some (Inr (h', Null, j @ ids h xs)) \<and> dom h' = dom h"
proof (induction xs arbitrary: h p j)
  case Nil
  then show ?case by (subst reap.simps) (simp add: ids_def)
next
  case (Cons a xs)
  then obtain c where c: "p = Ref a" "h a = Some c" "slist h (sle_next c) xs" by auto
  have a: "a \<notin> set xs" using slist_distinct [OF Cons.prems] by simp
  let ?c = "c\<lparr>payload := (payload c)\<lparr>tdata := (tdata (payload c))\<lparr>thread_complete_success := True\<rparr>\<rparr>\<rparr>"
  let ?h = "h(a \<mapsto> ?c)"
  have "SLIST_REMOVE ?h (Ref a) (Ref a) = Inr (?h, sle_next c)"
    by (simp add: SLIST_REMOVE_def SLIST_REMOVE_HEAD_def)
  then have step: "reap h p p j = reap ?h (sle_next c) (sle_next c) (j @ [thread_id (payload c)])"
    using c by (subst reap.simps) (simp add: Let_def)
  have "slist ?h (sle_next c) xs" using c(3) a by (simp add: slist_frame)
  from Cons.IH [OF this, of "j @ [thread_id (payload c)]"] obtain h' where
    "reap ?h (sle_next c) (sle_next c) (j @ [thread_id (payload c)]) =
       Some (Inr (h', Null, (j @ [thread_id (payload c)]) @ ids ?h xs))" "dom h' = dom ?h"
    by blast
  then show ?case using step ids_frame [OF a, of h] ids_Cons [of h a, OF c(2)] c(2) by auto
qed

lemma cancel_all_list:
  "slist h p xs \<Longrightarrow>
    cancel_all h p d k = Some (Inr (Null, if xs = [] then d else Some (Ref (last xs)), k @ ids h xs))"
proof (induction xs arbitrary: p d k)
  case Nil
  then show ?case by (subst cancel_all.simps) (simp add: SLIST_EMPTY_def ids_def)
next
  case (Cons a xs)
  then obtain c where c: "p = Ref a" "h a = Some c" "slist h (sle_next c) xs" by auto
  have "cancel_all h p d k = cancel_all h (sle_next c) (Some (Ref a)) (k @ [thread_id (payload c)])"
    using c by (subst cancel_all.simps) (simp add: SLIST_EMPTY_def SLIST_FIRST_def SLIST_REMOVE_HEAD_def)
  then show ?case using Cons.IH [OF c(3)] ids_Cons [of h a, OF c(2)] by simp
qed

text \<open>Of the elements, only the last one is freed.\<close>

lemma shutdown_list:
  assumes "slist (threads s) (head s) xs"
  shows "graceful_socket_shutdown s =
    Inr (s\<lparr>threads := (if xs = [] then threads s else (threads s)(last xs := None)),
      head := Null, cancelled := cancelled s @ ids (threads s) xs, socket_open := False\<rparr>)"
proof (cases "xs = []")
  case True
  then show ?thesis using cancel_all_list [OF assms] by (simp add: graceful_socket_shutdown_def free_cell_def)
next
  case False
  then obtain c where "threads s (last xs) = Some c" using slist_cells [OF assms] last_in_set by blast
  with False show ?thesis using cancel_all_list [OF assms] by (simp add: graceful_socket_shutdown_def free_cell_def)
qed

section \<open>Signals\<close>

lemma handler_cases:
  "signal_handler n g = (if n = SIGINT then g\<lparr>caught_sigint := True, caught_a_signal := True, should_continue := False\<rparr>
    else if n = SIGTERM then g\<lparr>caught_sigterm := True, caught_a_signal := True, should_continue := False\<rparr>
    else if n = SIGALRM then g\<lparr>caught_sigalrm := True\<rparr> else g)"
  by (auto simp: signal_handler_def signal_defs)

lemma handlers_caught:
  "caught_sigint (foldl (\<lambda>g n. signal_handler n g) g ns) \<longleftrightarrow> caught_sigint g \<or> SIGINT \<in> set ns"
  "caught_sigterm (foldl (\<lambda>g n. signal_handler n g) g ns) \<longleftrightarrow> caught_sigterm g \<or> SIGTERM \<in> set ns"
  "caught_a_signal (foldl (\<lambda>g n. signal_handler n g) g ns) \<longleftrightarrow>
     caught_a_signal g \<or> SIGINT \<in> set ns \<or> SIGTERM \<in> set ns"
  by (induction ns arbitrary: g) (auto simp: handler_cases signal_defs)

section \<open>The server as a transition system\<close>

abbreviation mallocs :: "accept_event \<Rightarrow> bool" where
  "mallocs ev \<equiv> data_malloced ev \<and> node_malloced ev"

inductive server_step :: "server \<Rightarrow> server \<Rightarrow> bool" where
  turn: "node ev \<notin> dom (threads s) \<Longrightarrow> mallocs ev \<Longrightarrow> main_turn s ev = Inr (Running t) \<Longrightarrow> server_step s t"

inductive_cases server_stepE: "server_step s t"

text \<open>The list is well formed and holds the thread of the first connection at most.\<close>

definition server_inv :: "server \<Rightarrow> bool" where
  "server_inv s \<longleftrightarrow> (\<exists>xs. slist (threads s) (head s) xs \<and> length xs \<le> 1 \<and> (counter s = 0 \<longrightarrow> xs = [])) \<and>
     \<not> caught_a_signal (sig s) \<and> \<not> caught_sigint (sig s) \<and> \<not> caught_sigterm (sig s) \<and> socket_open s"

definition turn_sigs :: "server \<Rightarrow> accept_event \<Rightarrow> sigs" where
  "turn_sigs s ev = foldl (\<lambda>g n. signal_handler n g) (sig s) (arriving ev)"

text \<open>A turn that accepts a connection, up to the test of the loop.\<close>

lemma insert_new:
  "SLIST_INSERT_HEAD (h(a \<mapsto> \<lparr>payload = d, sle_next = Null\<rparr>)) q (Ref a) =
    Inr (h(a \<mapsto> \<lparr>payload = d, sle_next = q\<rparr>), Ref a)"
  by (simp add: SLIST_INSERT_HEAD_def)

definition new_data :: "accept_event \<Rightarrow> slist_data" where
  "new_data ev = \<lparr>thread_id = new_thread ev,
     tdata = \<lparr>thread_complete_success = False, pfd = accepted ev\<rparr>\<rparr>"

definition with_new :: "server \<Rightarrow> accept_event \<Rightarrow> slist_data sheap" where
  "with_new s ev = (threads s)(node ev \<mapsto> \<lparr>payload = new_data ev, sle_next = head s\<rparr>)"

definition after_turn :: "server \<Rightarrow> main_end res" where
  "after_turn s = (if caught_a_signal (sig s) then main_finish s else Inr (Running s))"

lemma accepting_turn:
  assumes "listen_result ev = 0" "accepted ev \<noteq> - 1" "create_result ev = 0" "mallocs ev"
  shows "main_turn s ev =
    (let s' = s\<lparr>sig := turn_sigs s ev, threads := with_new s ev, head := Ref (node ev), counter := counter s + 1\<rparr>
     in if counter s = 0 then after_turn s'
        else case reap (with_new s ev) (Ref (node ev)) (Ref (node ev)) (joined s) of
            None \<Rightarrow> Inl Diverges
          | Some r \<Rightarrow> bnd r (\<lambda>(h, hd, j). after_turn (s'\<lparr>threads := h, head := hd, joined := j\<rparr>)))"
  using assms
  by (simp add: main_turn_def insert_new turn_sigs_def with_new_def new_data_def after_turn_def
      SLIST_FIRST_def Let_def bnd_assoc split: option.split)
    (simp add: split_def bnd_assoc)

lemma turn_accepts:
  assumes xs: "slist (threads s) (head s) xs" and fresh: "node ev \<notin> dom (threads s)"
    and ev: "listen_result ev = 0" "accepted ev \<noteq> - 1" "create_result ev = 0" "mallocs ev"
  obtains h q j where
    "main_turn s ev = after_turn
      (s\<lparr>sig := turn_sigs s ev, threads := h, head := q, counter := counter s + 1, joined := j\<rparr>)"
    and "dom h = insert (node ev) (dom (threads s))"
    and "counter s = 0 \<Longrightarrow> slist h q (node ev # xs) \<and> j = joined s"
    and "counter s \<noteq> 0 \<Longrightarrow> q = Null \<and> j = joined s @ new_thread ev # ids (threads s) xs"
proof -
  have nx: "node ev \<notin> set xs" using slist_cells [OF xs] fresh by auto
  have lst: "slist (with_new s ev) (Ref (node ev)) (node ev # xs)"
    using xs nx by (simp add: slist_frame with_new_def)
  have dm: "dom (with_new s ev) = insert (node ev) (dom (threads s))" by (auto simp: with_new_def)
  show thesis
  proof (cases "counter s = 0")
    case True
    have m: "main_turn s ev = after_turn (s\<lparr>sig := turn_sigs s ev, threads := with_new s ev,
        head := Ref (node ev), counter := counter s + 1, joined := joined s\<rparr>)"
      using True by (simp add: accepting_turn [OF ev] Let_def)
    show thesis by (rule that [OF m dm]) (use True lst in auto)
  next
    case False
    obtain h' where r: "reap (with_new s ev) (Ref (node ev)) (Ref (node ev)) (joined s) =
        Some (Inr (h', Null, joined s @ ids (with_new s ev) (node ev # xs)))" "dom h' = dom (with_new s ev)"
      using reap_all [OF lst] by blast
    have "ids (with_new s ev) (node ev # xs) = new_thread ev # ids (threads s) xs"
      using nx by (simp add: ids_def with_new_def new_data_def)
    with r have r': "reap (with_new s ev) (Ref (node ev)) (Ref (node ev)) (joined s) =
        Some (Inr (h', Null, joined s @ new_thread ev # ids (threads s) xs))" by simp
    have m: "main_turn s ev = after_turn (s\<lparr>sig := turn_sigs s ev, threads := h', head := Null,
        counter := counter s + 1, joined := joined s @ new_thread ev # ids (threads s) xs\<rparr>)"
      using False by (simp add: accepting_turn [OF ev] r' Let_def) (cases s; simp)
    show thesis by (rule that [OF m]) (use False r(2) dm in auto)
  qed
qed

text \<open>Every other turn leaves the program, with or without the shutdown.\<close>

lemma leaving_turn:
  assumes "listen_result ev \<noteq> 0 \<or> accepted ev = - 1 \<or> create_result ev \<noteq> 0" and "mallocs ev"
  shows "main_turn s ev =
    (if listen_result ev = 0 \<and> accepted ev = - 1 \<and> errno ev = 4
     then main_finish (s\<lparr>sig := turn_sigs s ev\<rparr>) else main_exit (- 1) (s\<lparr>sig := turn_sigs s ev\<rparr>))"
  using assms
  by (cases "listen_result ev = 0"; cases "accepted ev = - 1"; cases "errno ev = 4")
    (simp_all add: main_turn_def turn_sigs_def)

lemma main_exit_list:
  "slist (threads s) (head s) xs \<Longrightarrow> \<exists>t. main_exit st s = Inr (Exited st t)"
  by (simp add: main_exit_def shutdown_list)

lemma main_finish_list:
  "slist (threads s) (head s) xs \<Longrightarrow> \<exists>t. main_finish s = Inr (Exited 0 t)"
  by (simp add: main_finish_def main_exit_list)

lemma turn_leaves:
  assumes xs: "slist (threads s) (head s) xs" and ev: "listen_result ev \<noteq> 0 \<or> accepted ev = - 1 \<or> create_result ev \<noteq> 0"
    and m: "mallocs ev"
  shows "\<exists>status t. main_turn s ev = Inr (Exited status t)"
proof -
  have "slist (threads (s\<lparr>sig := turn_sigs s ev\<rparr>)) (head (s\<lparr>sig := turn_sigs s ev\<rparr>)) xs" using xs by simp
  from main_exit_list [OF this] main_finish_list [OF this] show ?thesis
    unfolding leaving_turn [OF ev m] by (metis (full_types))
qed

lemma after_turn_list:
  "slist (threads s) (head s) xs \<Longrightarrow> \<exists>e. after_turn s = Inr e"
  using main_finish_list [of s xs] by (auto simp: after_turn_def)

lemma after_turn_Running:
  "slist (threads s) (head s) xs \<Longrightarrow> after_turn s = Inr (Running t) \<longleftrightarrow> \<not> caught_a_signal (sig s) \<and> t = s"
  using main_finish_list [of s xs] by (auto simp: after_turn_def)

lemma turn_sigs_caught:
  "caught_sigint (turn_sigs s ev) \<longleftrightarrow> caught_sigint (sig s) \<or> SIGINT \<in> set (arriving ev)"
  "caught_sigterm (turn_sigs s ev) \<longleftrightarrow> caught_sigterm (sig s) \<or> SIGTERM \<in> set (arriving ev)"
  "caught_a_signal (turn_sigs s ev) \<longleftrightarrow>
     caught_a_signal (sig s) \<or> SIGINT \<in> set (arriving ev) \<or> SIGTERM \<in> set (arriving ev)"
  by (simp_all add: turn_sigs_def handlers_caught)

text \<open>A turn never faults, and one that goes on keeps the invariant.\<close>

lemma turn_total:
  assumes inv: "server_inv s" and fresh: "node ev \<notin> dom (threads s)" and mal: "mallocs ev"
  obtains e where "main_turn s ev = Inr e" and "\<And>t. e = Running t \<Longrightarrow> server_inv t"
proof -
  obtain xs where xs: "slist (threads s) (head s) xs" "length xs \<le> 1" "counter s = 0 \<longrightarrow> xs = []"
    using inv by (auto simp: server_inv_def)
  show thesis
  proof (cases "listen_result ev = 0 \<and> accepted ev \<noteq> - 1 \<and> create_result ev = 0")
    case False
    then obtain st t where "main_turn s ev = Inr (Exited st t)"
      using turn_leaves [OF xs(1) _ mal] by blast
    then show thesis by (rule that) simp
  next
    case True
    then obtain h q j where m: "main_turn s ev = after_turn
        (s\<lparr>sig := turn_sigs s ev, threads := h, head := q, counter := counter s + 1, joined := j\<rparr>)"
      (is "_ = after_turn ?t")
      and zero: "counter s = 0 \<Longrightarrow> slist h q (node ev # xs) \<and> j = joined s"
      and pos: "counter s \<noteq> 0 \<Longrightarrow> q = Null \<and> j = joined s @ new_thread ev # ids (threads s) xs"
      using turn_accepts [OF xs(1) fresh _ _ _ mal] by metis
    obtain ys where ys: "slist h q ys" "length ys \<le> 1"
    proof (cases "counter s = 0")
      case True
      then show thesis using zero xs(3) by (intro that [of "[node ev]"]) auto
    next
      case False
      then show thesis using pos by (intro that [of "[]"]) auto
    qed
    then have l: "slist (threads ?t) (head ?t) ys" by simp
    obtain e where e: "after_turn ?t = Inr e" using after_turn_list [OF l] by blast
    show thesis
    proof (rule that [of e])
      show "main_turn s ev = Inr e" using m e by simp
      show "server_inv t" if r: "e = Running t" for t
      proof -
        have *: "\<not> caught_a_signal (turn_sigs s ev) \<and> t = ?t"
          using after_turn_Running [OF l, of t] e r by simp
        then show ?thesis using l ys(2) inv by (auto simp: server_inv_def turn_sigs_caught)
      qed
    qed
  qed
qed

interpretation server: invariant_system "\<lambda>s. s = start_server" server_step server_inv
proof unfold_locales
  show "server_inv s" if "s = start_server" for s
    using that by (auto simp: server_inv_def start_server_def no_signals_def SLIST_INIT_def intro: exI [of _ "[]"])
  show "server_inv t" if i: "server_inv s" and st: "server_step s t" for s t
    using st
  proof cases
    case (turn ev)
    then show ?thesis using turn_total [OF i turn(1,2)] turn(3) by auto
  qed
qed

section \<open>Properties of the accept loop\<close>

text \<open>A turn that accepts a connection and during which no signal ends the server.\<close>

definition accepts :: "accept_event \<Rightarrow> bool" where
  "accepts ev \<longleftrightarrow> listen_result ev = 0 \<and> accepted ev \<noteq> - 1 \<and> create_result ev = 0 \<and> mallocs ev \<and>
     SIGINT \<notin> set (arriving ev) \<and> SIGTERM \<notin> set (arriving ev)"

lemma accepts_turn:
  assumes xs: "slist (threads s) (head s) xs" and ev: "accepts ev" and fresh: "node ev \<notin> dom (threads s)"
    and "\<not> caught_a_signal (sig s)"
  obtains t where "main_turn s ev = Inr (Running t)" and "counter t = counter s + 1"
    and "dom (threads t) = insert (node ev) (dom (threads s))" and "cancelled t = cancelled s"
    and "\<not> caught_a_signal (sig t)"
    and "counter s = 0 \<Longrightarrow> slist (threads t) (head t) (node ev # xs) \<and> joined t = joined s \<and>
      ids (threads t) (node ev # xs) = new_thread ev # ids (threads s) xs"
    and "counter s \<noteq> 0 \<Longrightarrow> head t = Null \<and> joined t = joined s @ new_thread ev # ids (threads s) xs"
proof (cases "counter s = 0")
  case True
  have e: "listen_result ev = 0" "accepted ev \<noteq> - 1" "create_result ev = 0" "mallocs ev" using ev by (auto simp: accepts_def)
  have nx: "node ev \<notin> set xs" using slist_cells [OF xs] fresh by auto
  have c: "\<not> caught_a_signal (turn_sigs s ev)" using ev assms(4) by (simp add: accepts_def turn_sigs_caught)
  have l: "slist (with_new s ev) (Ref (node ev)) (node ev # xs)"
    using xs nx by (simp add: slist_frame with_new_def)
  have "ids (with_new s ev) (node ev # xs) = new_thread ev # ids (threads s) xs"
    using nx by (simp add: ids_def with_new_def new_data_def)
  with True l c show thesis
    by (intro that [of "s\<lparr>sig := turn_sigs s ev, threads := with_new s ev, head := Ref (node ev), counter := counter s + 1\<rparr>"])
      (auto simp: accepting_turn [OF e] after_turn_def Let_def with_new_def)
next
  case False
  have e: "listen_result ev = 0" "accepted ev \<noteq> - 1" "create_result ev = 0" "mallocs ev" using ev by (auto simp: accepts_def)
  have c: "\<not> caught_a_signal (turn_sigs s ev)" using ev assms(4) by (simp add: accepts_def turn_sigs_caught)
  obtain h q j where "main_turn s ev = after_turn
      (s\<lparr>sig := turn_sigs s ev, threads := h, head := q, counter := counter s + 1, joined := j\<rparr>)"
      "dom h = insert (node ev) (dom (threads s))" "q = Null" "j = joined s @ new_thread ev # ids (threads s) xs"
    using turn_accepts [OF xs fresh e] False by metis
  with False c show thesis
    by (intro that [of "s\<lparr>sig := turn_sigs s ev, threads := h, head := q, counter := counter s + 1, joined := j\<rparr>"])
      (auto simp: after_turn_def)
qed

text \<open>Once two connections were made the list is empty between turns, and every thread has been joined.\<close>

lemma loop_joins:
  assumes "head s = Null" and "counter s \<noteq> 0" and "\<not> caught_a_signal (sig s)"
    and "\<And>ev. ev \<in> set evs \<Longrightarrow> accepts ev" and "distinct (map node evs)"
    and "set (map node evs) \<inter> dom (threads s) = {}"
  shows "\<exists>t. main_loop s evs = Inr (Running t) \<and> head t = Null \<and> joined t = joined s @ map new_thread evs \<and>
    dom (threads t) = dom (threads s) \<union> set (map node evs)"
  using assms
proof (induction evs arbitrary: s)
  case (Cons ev evs)
  have l: "slist (threads s) (head s) []" using Cons.prems(1) by simp
  have a: "accepts ev" using Cons.prems(4) by simp
  have f: "node ev \<notin> dom (threads s)" using Cons.prems(6) by simp
  obtain t where t: "main_turn s ev = Inr (Running t)" "counter t = counter s + 1"
      "dom (threads t) = insert (node ev) (dom (threads s))" "\<not> caught_a_signal (sig t)"
      "head t = Null" "joined t = joined s @ [new_thread ev]"
    by (rule accepts_turn [OF l a f Cons.prems(3)]) (use Cons.prems(2) in \<open>auto simp: ids_def\<close>)
  have d: "set (map node evs) \<inter> dom (threads t) = {}" using Cons.prems(5,6) t(3) by auto
  have "\<exists>u. main_loop t evs = Inr (Running u) \<and> head u = Null \<and> joined u = joined t @ map new_thread evs \<and>
      dom (threads u) = dom (threads t) \<union> set (map node evs)"
    using t(2,4,5) d Cons.prems(4,5) by (intro Cons.IH) auto
  then show ?case using t by auto
qed simp

lemma two_accepted:
  assumes "accepts e1" and "accepts e2" and "node e1 \<noteq> node e2"
  obtains s t where "main_turn start_server e1 = Inr (Running s)" and "main_turn s e2 = Inr (Running t)"
    and "head t = Null" and "counter t \<noteq> 0" and "\<not> caught_a_signal (sig t)"
    and "joined t = [new_thread e2, new_thread e1]" and "dom (threads t) = {node e1, node e2}"
proof -
  have i: "slist (threads start_server) (head start_server) []" "\<not> caught_a_signal (sig start_server)"
      "counter start_server = 0" "threads start_server = Map.empty" "joined start_server = []"
    by (simp_all add: start_server_def SLIST_INIT_def no_signals_def)
  obtain s where s: "main_turn start_server e1 = Inr (Running s)" "counter s = 1"
      "dom (threads s) = {node e1}" "\<not> caught_a_signal (sig s)" "slist (threads s) (head s) [node e1]"
      "joined s = []" "ids (threads s) [node e1] = [new_thread e1]"
    by (rule accepts_turn [OF i(1) assms(1) _ i(2)]) (use i in \<open>auto simp: ids_def\<close>)
  have f: "node e2 \<notin> dom (threads s)" using s(3) assms(3) by simp
  obtain t where "main_turn s e2 = Inr (Running t)" "counter t = counter s + 1"
      "dom (threads t) = insert (node e2) (dom (threads s))" "\<not> caught_a_signal (sig t)"
      "head t = Null" "joined t = joined s @ new_thread e2 # ids (threads s) [node e1]"
    by (rule accepts_turn [OF s(5) assms(2) f s(4)]) (use s(2) in auto)
  with s show thesis by (intro that [of s t]) auto
qed

text \<open>
  C29. The completion flag plays no role in the accept loop, because its test is an assignment:
  of any two or more connections, the thread of the second and that of the first are joined as
  soon as the second is accepted, and every later thread in the turn that creates it. Between
  turns the list is then empty, and no list element is ever freed.
\<close>

theorem accept_loop_joins_at_once:
  assumes "\<And>ev. ev \<in> set (e1 # e2 # evs) \<Longrightarrow> accepts ev" and "distinct (map node (e1 # e2 # evs))"
  shows "\<exists>t. main_loop start_server (e1 # e2 # evs) = Inr (Running t) \<and> head t = Null \<and>
    joined t = [new_thread e2, new_thread e1] @ map new_thread evs \<and>
    dom (threads t) = set (map node (e1 # e2 # evs))"
proof -
  obtain s t where st: "main_turn start_server e1 = Inr (Running s)" "main_turn s e2 = Inr (Running t)"
      "head t = Null" "counter t \<noteq> 0" "\<not> caught_a_signal (sig t)"
      "joined t = [new_thread e2, new_thread e1]" "dom (threads t) = {node e1, node e2}"
    using two_accepted [of e1 e2] assms by (metis distinct_length_2_or_more list.set_intros list.simps(9))
  have "set (map node evs) \<inter> dom (threads t) = {}" using assms(2) st(7) by auto
  then have "\<exists>u. main_loop t evs = Inr (Running u) \<and> head u = Null \<and> joined u = joined t @ map new_thread evs \<and>
      dom (threads u) = dom (threads t) \<union> set (map node evs)"
    using assms st(3-5) by (intro loop_joins) auto
  then show ?thesis using st by auto
qed

definition demo_accept :: "nat \<Rightarrow> accept_event" where
  "demo_accept n = \<lparr>listen_result = 0, accepted = 4, errno = 0, create_result = 0,
     new_thread = 100 + n, node = n, data_malloced = True, node_malloced = True, arriving = []\<rparr>"

lemma demo_accepts: "accepts (demo_accept n)" "node (demo_accept n) = n" "new_thread (demo_accept n) = 100 + n"
  by (simp_all add: accepts_def demo_accept_def)

theorem accept_loop_joins_at_once_witness:
  "\<exists>t. main_loop start_server [demo_accept 1, demo_accept 2, demo_accept 3] = Inr (Running t) \<and>
    head t = Null \<and> joined t = [102, 101, 103] \<and> dom (threads t) = {1, 2, 3}"
proof -
  have a: "accepts ev" if "ev \<in> set [demo_accept 1, demo_accept 2, demo_accept 3]" for ev
    using that by (auto simp: demo_accepts)
  have d: "distinct (map node [demo_accept 1, demo_accept 2, demo_accept 3])" by (simp add: demo_accepts)
  show ?thesis using accept_loop_joins_at_once [OF a d] by (simp add: demo_accepts del: main_loop.simps)
qed

text \<open>
  While \<open>malloc\<close> succeeds, no turn of the accept loop faults or goes round for ever in the list, in any state the
  server reaches: the turn ends in an exit or in a next state, where the list is well formed,
  has one element at most, and the socket is open.
\<close>

theorem accept_turn_never_faults:
  assumes "server_step\<^sup>*\<^sup>* start_server s" and "node ev \<notin> dom (threads s)" and "mallocs ev"
  shows "\<exists>e. main_turn s ev = Inr e \<and> (\<forall>t. e = Running t \<longrightarrow>
    (\<exists>xs. slist (threads t) (head t) xs \<and> length xs \<le> 1) \<and> socket_open t)"
proof -
  have "server_inv s" by (rule server.inv_reachable [OF refl assms(1)])
  from turn_total [OF this assms(2,3)] show ?thesis unfolding server_inv_def by metis
qed

theorem accept_turn_never_faults_witness:
  "\<exists>e. main_turn start_server (demo_accept 1) = Inr e \<and> (\<forall>t. e = Running t \<longrightarrow>
    (\<exists>xs. slist (threads t) (head t) xs \<and> length xs \<le> 1) \<and> socket_open t)"
  by (rule accept_turn_never_faults) (simp_all add: start_server_def demo_accept_def)

text \<open>
  A signal that interrupts \<open>accept\<close> ends the server with status 0. The socket is shut
  down and the threads of the list are cancelled exactly when SIGINT or SIGTERM has arrived; a
  SIGALRM ends the server without any of that. Any other failure of \<open>listen\<close>, \<open>accept\<close> or
  \<open>pthread_create\<close> shuts down and exits with -1.
\<close>

theorem server_ends:
  assumes "server_step\<^sup>*\<^sup>* start_server s"
    and "listen_result ev \<noteq> 0 \<or> accepted ev = - 1 \<or> create_result ev \<noteq> 0" and "mallocs ev"
  shows "\<exists>status t xs. main_turn s ev = Inr (Exited status t) \<and> slist (threads s) (head s) xs \<and>
    (if listen_result ev = 0 \<and> accepted ev = - 1 \<and> errno ev = 4
     then status = 0 \<and> (socket_open t \<longleftrightarrow> SIGINT \<notin> set (arriving ev) \<and> SIGTERM \<notin> set (arriving ev))
     else status = - 1 \<and> \<not> socket_open t) \<and>
    (if socket_open t then t = s\<lparr>sig := sig t\<rparr>
     else head t = Null \<and> cancelled t = cancelled s @ ids (threads s) xs)"
proof -
  have inv: "server_inv s" by (rule server.inv_reachable [OF refl assms(1)])
  then obtain xs where xs: "slist (threads s) (head s) xs" by (auto simp: server_inv_def)
  have nc: "\<not> caught_sigint (sig s)" "\<not> caught_sigterm (sig s)" "socket_open s"
    using inv by (auto simp: server_inv_def)
  let ?s = "s\<lparr>sig := turn_sigs s ev\<rparr>"
  have l: "slist (threads ?s) (head ?s) xs" using xs by simp
  obtain u where u: "graceful_socket_shutdown ?s = Inr u" "\<not> socket_open u" "head u = Null"
      "cancelled u = cancelled s @ ids (threads s) xs"
    using shutdown_list [OF l] by simp
  have ex: "main_exit st ?s = Inr (Exited st u)" for st by (simp add: main_exit_def u(1))
  have fin: "main_finish ?s = Inr (Exited 0 (if SIGINT \<in> set (arriving ev) \<or> SIGTERM \<in> set (arriving ev) then u else ?s))"
    using nc by (simp add: main_finish_def ex turn_sigs_caught)
  show ?thesis
    using xs u(2-4) nc(3) by (auto simp: leaving_turn [OF assms(2,3)] ex fin)
qed

text \<open>SIGALRM alone, before the first connection.\<close>

theorem server_ends_witness:
  "\<exists>t. main_turn start_server \<lparr>listen_result = 0, accepted = - 1, errno = 4, create_result = 0,
      new_thread = 0, node = 0, data_malloced = True, node_malloced = True, arriving = [SIGALRM]\<rparr> = Inr (Exited 0 t) \<and> socket_open t"
proof -
  let ?ev = "\<lparr>listen_result = 0, accepted = - 1, errno = 4, create_result = 0,
      new_thread = 0, node = 0, data_malloced = True, node_malloced = True, arriving = [SIGALRM]\<rparr>"
  have r: "server_step\<^sup>*\<^sup>* start_server start_server" by simp
  have e: "listen_result ?ev \<noteq> 0 \<or> accepted ?ev = - 1 \<or> create_result ?ev \<noteq> 0" by simp
  show ?thesis using server_ends [OF r e] by (auto simp: signal_defs)
qed

end
