(* ===== verification/Socket_Server.thy ===== *)
theory Socket_Server
  imports Socket_Device Socket_Main
begin

text \<open>
  The threads of the server on the character device: one connection from the lock of the mutex
  to its release, and any sequence of connections in the order in which they get the mutex.
\<close>

section \<open>One thread\<close>

text \<open>The file and the bytes sent to the client so far.\<close>

type_synonym session = "dev_file \<times> u8 list"

definition thread_receive ::
  "ioc \<Rightarrow> recv_event list \<Rightarrow> u8 list \<Rightarrow> session \<Rightarrow> int \<Rightarrow> (session \<times> int option) res" where
  "thread_receive c evs buf s fd =
     bnd (recieve_socket_data (device_ops c) evs buf (fst s)) (\<lambda>(f, leaked, r). Inr ((f, snd s), r))"

definition thread_reply :: "ioc \<Rightarrow> nat \<Rightarrow> session \<Rightarrow> int \<Rightarrow> (session \<times> int) res" where
  "thread_reply c fuel s fd = (case return_socket_data fuel (device_ops c) all_sent (fst s) of
     None \<Rightarrow> Inl Diverges
   | Some r \<Rightarrow> bnd r (\<lambda>(f, r, out). Inr ((f, snd s @ out), r)))"

text \<open>A client: its line, what the stack of its thread holds, and its descriptor.\<close>

record client =
  line :: "u8 list"
  stack :: "u8 list"
  fd :: int

definition serve :: "ioc \<Rightarrow> dev_file \<Rightarrow> client \<Rightarrow> (session \<times> bool \<times> thread_data \<times> thread_end) res" where
  "serve c f k =
     accept_connection_thread 0 0 (thread_receive c [arrives (line k)] (stack k)) (thread_reply c 1)
       (f, []) \<lparr>thread_complete_success = False, pfd = fd k\<rparr>"

text \<open>
  The clients in turn, as long as each thread releases the mutex: for each what it was sent,
  with the completion flag of its thread.
\<close>

fun serve_all :: "ioc \<Rightarrow> dev_file \<Rightarrow> client list \<Rightarrow> (dev_file \<times> (u8 list \<times> bool) list) res" where
  "serve_all c f [] = Inr (f, [])"
| "serve_all c f (k # ks) = bnd (serve c f k) (\<lambda>((f, out), locked, data, e).
     if locked then Inr (f, [(out, thread_complete_success data)])
     else bnd (serve_all c f ks) (\<lambda>(f, outs). Inr (f, (out, thread_complete_success data) # outs)))"

lemma serve_line:
  assumes "file_ok (env, m, d, n)" and "client_line (line k)" and "length (stack k) = BUF_SIZE + 1"
    and "\<not> full (buffer d)" and "length (concat (lines m d @ [line k])) < BUF_SIZE"
  shows "\<exists>m' d'. serve c (env, m, d, n) k =
      Inr (((env, m', d', n), concat (lines m d @ [line k])), False,
        \<lparr>thread_complete_success = True, pfd = fd k\<rparr>, Thread_returns) \<and>
    file_ok (env, m', d', n) \<and> lines m' d' = lines m d @ [line k]"
proof -
  obtain s' m'' d'' where
    "recieve_socket_data (device_ops c) [arrives (line k)] (stack k) (env, m, d, n) = Inr (s', 1, Some 0)"
    "return_socket_data (Suc 0) (device_ops c) all_sent s' =
      Some (Inr ((env, m'', d'', n), 0, concat (lines m d @ [line k])))"
    "file_ok (env, m'', d'', n)" "lines m'' d'' = lines m d @ [line k]"
    using echo_line [OF assms, of c "[]" 0] by blast
  then show ?thesis
    by (simp add: serve_def accept_connection_thread_def thread_receive_def thread_reply_def del: file_ok.simps)
qed

lemma serve_all_history:
  assumes "file_ok (env, m, d, n)" and "\<And>k. k \<in> set ks \<Longrightarrow> client_line (line k) \<and> length (stack k) = BUF_SIZE + 1"
    and "length (lines m d) + length ks \<le> MAXW"
    and "length (concat (lines m d @ map line ks)) < BUF_SIZE"
  shows "\<exists>m' d'. serve_all c (env, m, d, n) ks =
      Inr ((env, m', d', n), map (\<lambda>i. (concat (lines m d @ map line (take (Suc i) ks)), True)) [0..<length ks]) \<and>
    file_ok (env, m', d', n) \<and> lines m' d' = lines m d @ map line ks"
  using assms
proof (induction ks arbitrary: m d)
  case (Cons k ks)
  have cb: "cb_inv (buffer d)" using Cons.prems(1) dev_invD(2) by auto
  have nf: "\<not> full (buffer d)" using Cons.prems(3) full_iff_length [OF cb] by (simp add: length_lines)
  have small: "length (concat (lines m d @ [line k])) < BUF_SIZE" using Cons.prems(4) by simp
  obtain m1 d1 where s: "serve c (env, m, d, n) k =
      Inr (((env, m1, d1, n), concat (lines m d @ [line k])), False,
        \<lparr>thread_complete_success = True, pfd = fd k\<rparr>, Thread_returns)"
      and ok: "file_ok (env, m1, d1, n)" and l: "lines m1 d1 = lines m d @ [line k]"
    using serve_line [OF Cons.prems(1) _ _ nf small] Cons.prems(2) by (meson list.set_intros(1))
  have "\<exists>m' d'. serve_all c (env, m1, d1, n) ks =
      Inr ((env, m', d', n), map (\<lambda>i. (concat (lines m1 d1 @ map line (take (Suc i) ks)), True)) [0..<length ks]) \<and>
    file_ok (env, m', d', n) \<and> lines m' d' = lines m1 d1 @ map line ks"
    using Cons.prems(2-4) l by (intro Cons.IH ok) auto
  moreover have "map (\<lambda>i. (concat (lines m d @ map line (take (Suc i) (k # ks))), True)) [0..<length (k # ks)] =
      (concat (lines m d @ [line k]), True) #
      map (\<lambda>i. (concat (lines m1 d1 @ map line (take (Suc i) ks)), True)) [0..<length ks]"
    unfolding length_Cons upt_conv_Cons [OF zero_less_Suc] map_Suc_upt [symmetric] by (simp add: l)
  ultimately show ?case using s l by auto
qed simp

section \<open>Properties of the server\<close>

text \<open>
  From a device that holds fewer lines than ten, any clients that fit into the ring, each
  with one line, are served one after the other: the \<open>i\<close>-th gets back everything the device
  held followed by the lines of all clients up to itself, every thread completes and releases
  the mutex, and the device holds all lines afterwards.
\<close>

theorem clients_get_history:
  assumes "file_ok (env, m, d, n)" and "\<And>k. k \<in> set ks \<Longrightarrow> client_line (line k) \<and> length (stack k) = BUF_SIZE + 1"
    and "length (lines m d) + length ks \<le> 10"
    and "length (concat (lines m d @ map line ks)) < BUF_SIZE"
  shows "\<exists>m' d'. serve_all c (env, m, d, n) ks =
      Inr ((env, m', d', n), map (\<lambda>i. (concat (lines m d @ map line (take (Suc i) ks)), True)) [0..<length ks]) \<and>
    lines m' d' = lines m d @ map line ks"
  using serve_all_history [OF assms(1,2) _ assms(4), of c] assms(3) by (auto simp: MAXW_eq)

definition demo_client :: client where
  "demo_client = \<lparr>line = [100, 10], stack = replicate 30721 0, fd = 4\<rparr>"

text \<open>Two clients that send "d".\<close>

theorem clients_get_history_witness:
  "\<exists>f'. serve_all asm_generic (demo_env, demo_mem, demo_dev, 0) [demo_client, demo_client] =
    Inr (f', [([97, 98, 10, 99, 10, 100, 10], True), ([97, 98, 10, 99, 10, 100, 10, 100, 10], True)])"
proof -
  have b: "length (replicate 30721 (0 :: u8)) = BUF_SIZE + 1" by (simp add: BUF_SIZE_def)
  have k: "client_line (line k) \<and> length (stack k) = BUF_SIZE + 1" if "k \<in> set [demo_client, demo_client]" for k
    using that demo_client_line b by (auto simp: demo_client_def)
  have h: "length (lines demo_mem demo_dev) + length [demo_client, demo_client] \<le> 10"
    "length (concat (lines demo_mem demo_dev @ map line [demo_client, demo_client])) < BUF_SIZE"
    unfolding demo_lines by (simp_all add: demo_client_def BUF_SIZE_def)
  show ?thesis
    using clients_get_history [OF demo_file_ok k h, of asm_generic]
    by (auto simp: demo_lines demo_client_def upt_rec simp del: serve_all.simps)
qed

text \<open>
  Whatever receiving and replying do, as long as they do not fault: the thread of a
  connection holds the mutex of the output file only while it waits for its client. It sets its
  completion flag exactly when both succeed and the mutex is free again, and ends the process
  when one of them fails.
\<close>

theorem connection_thread_releases_mutex:
  assumes "accept_connection_thread 0 0 recieve return_data s data = Inr (s', locked, data', e)"
    and "\<not> thread_complete_success data"
  shows "(locked \<longleftrightarrow> e = Thread_waits) \<and>
    (thread_complete_success data' \<longleftrightarrow> e = Thread_returns) \<and>
    (e = Thread_returns \<longleftrightarrow> (\<exists>s1 r1 r2. recieve s (pfd data) = Inr (s1, Some r1) \<and> r1 \<noteq> - 1 \<and>
       return_data s1 (pfd data) = Inr (s', r2) \<and> r2 \<noteq> - 1)) \<and>
    (e = Thread_waits \<longleftrightarrow> recieve s (pfd data) = Inr (s', None))"
  using assms by (auto simp: accept_connection_thread_def split: prod.splits option.splits if_splits)

text \<open>A client that never sends keeps the mutex.\<close>

theorem connection_thread_releases_mutex_witness:
  "\<exists>s' data'. accept_connection_thread 0 0 (thread_receive asm_generic [] [0]) (thread_reply asm_generic 1)
      ((demo_env, demo_mem, demo_dev, 0), []) \<lparr>thread_complete_success = False, pfd = 4\<rparr> =
      Inr (s', True, data', Thread_waits) \<and> \<not> thread_complete_success data'"
proof -
  let ?d = "\<lparr>thread_complete_success = False, pfd = 4\<rparr>"
  have r: "accept_connection_thread 0 0 (thread_receive asm_generic [] [0]) (thread_reply asm_generic 1)
      ((demo_env, demo_mem, demo_dev, 0), []) ?d =
      Inr (((demo_env, demo_mem, demo_dev, 1), []), True, ?d, Thread_waits)"
    by (simp add: accept_connection_thread_def thread_receive_def recieve_socket_data_def device_ops_def)
  show ?thesis using connection_thread_releases_mutex [OF r] r by simp
qed

end
