(* ===== verification/Systemcalls.thy ===== *)
theory Systemcalls
  imports Aesd_Prelude
begin

text \<open>
  \<open>examples/systemcalls/systemcalls.c\<close>: running a command through \<open>system\<close> or through
  \<open>fork\<close>, \<open>execv\<close> and \<open>waitpid\<close>, with and without the redirection of standard output. The
  answers of the kernel are a record; what the caller's standard output is connected to is part of
  the state, None when it is closed.
\<close>

unbundle bit_operations_syntax

section \<open>Wait statuses\<close>

text \<open>The encoding of \<open>sys/wait.h\<close>: the low seven bits say how, the next byte what was passed to \<open>exit\<close>.\<close>

definition WIFEXITED :: "u32 \<Rightarrow> bool" where
  "WIFEXITED status \<longleftrightarrow> status AND 0x7F = 0"

definition WEXITSTATUS :: "u32 \<Rightarrow> u32" where
  "WEXITSTATUS status = drop_bit 8 (status AND 0xFF00)"

definition exit_status :: "u32 \<Rightarrow> u32" where
  "exit_status code = push_bit 8 (code AND 0xFF)"

section \<open>The functions\<close>

text \<open>
  \<open>execv\<close> is the status the new program ends with, or None when it cannot be executed;
  \<open>waited\<close> is what \<open>waitpid\<close> returns.
\<close>

record 'a proc_env =
  system_result :: "'a \<Rightarrow> int"
  fork_result :: int
  execv :: "'a list \<Rightarrow> u32 option"
  waited :: int
  open_result :: int
  dup2_result :: int

definition do_system :: "'a proc_env \<Rightarrow> 'a \<Rightarrow> bool" where
  "do_system env cmd =
     (let status = (system_result env cmd \<noteq> 0)
      in if status = False then True else False)"

text \<open>\<open>count\<close> arguments are taken from those passed, and NULL is stored after them.\<close>

definition arguments :: "int \<Rightarrow> 'a list \<Rightarrow> 'a list res" where
  "arguments count args =
     (if count < 0 \<or> int (length args) < count then Inl OutOfBounds else Inr (take (nat count) args))"

text \<open>The child: the program, or \<open>exit(-1)\<close> when \<open>execv\<close> comes back.\<close>

definition child_status :: "'a proc_env \<Rightarrow> 'a list \<Rightarrow> u32" where
  "child_status env command = (case execv env command of Some status \<Rightarrow> status | None \<Rightarrow> exit_status (- 1))"

definition do_exec :: "'a proc_env \<Rightarrow> int \<Rightarrow> 'a list \<Rightarrow> bool res" where
  "do_exec env count args =
     bnd (arguments count args) (\<lambda>command.
       if fork_result env = - 1 then Inr False
       else if waited env = - 1 then Inr False
       else let status = child_status env command
            in if WIFEXITED status then Inr (WEXITSTATUS status = 0) else Inr False)"

text \<open>What the caller's standard output is, and how the call ends.\<close>

datatype call_end = Returns bool | Aborts

text \<open>
  \<open>status\<close> has no value until \<open>waitpid\<close> stores one. \<open>dup2\<close> connects descriptor 1 to the file;
  \<open>close\<close> of the descriptor the file was opened on leaves that alone, unless it is descriptor 1 itself,
  which \<open>open\<close> may return to a process whose standard output is closed.
\<close>

definition do_exec_redirect ::
  "'a proc_env \<Rightarrow> 'f \<Rightarrow> int \<Rightarrow> 'a list \<Rightarrow> 'f option \<Rightarrow> ('f option \<times> call_end) res" where
  "do_exec_redirect env outputfile count args stdout =
     bnd (arguments count args) (\<lambda>command.
       if open_result env < 0 then Inr (stdout, Aborts)
       else if dup2_result env < 0 then Inr (stdout, Aborts)
       else
         let stdout = Some outputfile;
             stdout = (if open_result env = 1 then None else stdout)
         in if fork_result env = - 1 then Inr (stdout, Returns False)
            else if waited env = 1 then Inr (stdout, Returns False)
            else if waited env = - 1 then Inl Uninitialised
            else let status = child_status env command
                 in if WIFEXITED status then Inr (stdout, Returns (WEXITSTATUS status = 0))
                    else Inr (stdout, Returns False))"

lemma exit_minus_one: "WIFEXITED (exit_status (- 1))" "WEXITSTATUS (exit_status (- 1)) = 255"
  by (simp_all add: WIFEXITED_def WEXITSTATUS_def exit_status_def push_bit_eq_mult drop_bit_eq_div)

section \<open>Properties\<close>

text \<open>
  C39. As documented, \<open>do_exec\<close> reports success exactly when the fork, the wait and the execution
  succeed and the command exits with status zero; a command that cannot be executed is reported
  as a failure, through the status 255 of the child.
\<close>

theorem do_exec_true_iff:
  assumes "0 \<le> count" and "count \<le> int (length args)"
  shows "\<exists>b. do_exec env count args = Inr b \<and>
    (b \<longleftrightarrow> fork_result env \<noteq> - 1 \<and> waited env \<noteq> - 1 \<and>
      (\<exists>status. execv env (take (nat count) args) = Some status \<and> WIFEXITED status \<and> WEXITSTATUS status = 0))"
  using assms exit_minus_one
  by (auto simp: do_exec_def arguments_def child_status_def Let_def split: option.splits)

definition demo_proc :: "nat proc_env" where
  "demo_proc = \<lparr>system_result = (\<lambda>_. 0), fork_result = 17, execv = (\<lambda>c. if c = [5, 6] then Some 0 else None),
     waited = 17, open_result = 3, dup2_result = 1\<rparr>"

theorem do_exec_true_iff_witness:
  "do_exec demo_proc 2 [5, 6] = Inr True \<and> do_exec demo_proc 1 [7] = Inr False"
proof -
  have "WIFEXITED 0" "WEXITSTATUS 0 = 0" by (simp_all add: WIFEXITED_def WEXITSTATUS_def)
  then show ?thesis
    using do_exec_true_iff [of 2 "[5, 6]" demo_proc] do_exec_true_iff [of 1 "[7]" demo_proc]
    by (auto simp: demo_proc_def)
qed

text \<open>
  C40. \<open>do_exec_redirect\<close> redirects the standard output of its caller, not of the child. When the file
  cannot be opened or duplicated the caller is aborted with its output as it was. After every call
  that returns, the caller's output is the file, or closed if the file was opened on descriptor 1.
  A failing fork, and a wait that returns 1, give false. When the wait fails the
  code reads a status that was never set instead of returning false, since it compares with 1
  instead of -1. In every other case the result is that of \<open>do_exec\<close>.
\<close>

theorem redirect_stays:
  fixes env :: "'a proc_env" and count :: int and args :: "'a list" and outputfile :: 'f and stdout :: "'f option"
  assumes "0 \<le> count" and "count \<le> int (length args)"
  defines "opened \<equiv> 0 \<le> open_result env \<and> 0 \<le> dup2_result env"
    and "left \<equiv> if open_result env = 1 then None else Some outputfile"
    and "result \<equiv> do_exec_redirect env outputfile count args stdout"
  shows "(\<not> opened \<longrightarrow> result = Inr (stdout, Aborts)) \<and>
    (\<forall>out b. result = Inr (out, Returns b) \<longrightarrow> out = left) \<and>
    (opened \<and> (fork_result env = - 1 \<or> waited env = 1) \<longrightarrow> result = Inr (left, Returns False)) \<and>
    (opened \<and> fork_result env \<noteq> - 1 \<and> waited env = - 1 \<longrightarrow>
      result = Inl Uninitialised \<and> do_exec env count args = Inr False) \<and>
    (opened \<and> fork_result env \<noteq> - 1 \<and> waited env \<noteq> - 1 \<and> waited env \<noteq> 1 \<longrightarrow>
      result = bnd (do_exec env count args) (\<lambda>b. Inr (left, Returns b)))"
  using assms(1,2) unfolding opened_def left_def result_def
  by (auto simp: do_exec_redirect_def do_exec_def arguments_def Let_def split: if_splits)

text \<open>A command that cannot be executed, and the same for a caller whose output was closed.\<close>

theorem redirect_stays_witness:
  "do_exec_redirect demo_proc ''out.txt'' 1 [7] (Some ''tty'') = Inr (Some ''out.txt'', Returns False) \<and>
   do_exec_redirect (demo_proc\<lparr>open_result := 1\<rparr>) ''out.txt'' 1 [7] None = Inr (None, Returns False)"
  using redirect_stays [of 1 "[7]" demo_proc "''out.txt''" "Some ''tty''"]
    redirect_stays [of 1 "[7]" "demo_proc\<lparr>open_result := 1\<rparr>" "''out.txt''" None] exit_minus_one
  by (simp add: demo_proc_def do_exec_def arguments_def child_status_def)

end
