(* ===== verification/Threading.thy ===== *)
theory Threading
  imports Aesd_Prelude
begin

text \<open>
  \<open>examples/threading/threading.c\<close>: a thread that waits, holds a mutex for a while and releases
  it. What the thread does is a list of actions; the results of the pthread calls are arguments.
\<close>

section \<open>The thread\<close>

record timed_thread_data =
  obtain_wait :: int
  release_wait :: int
  complete_success :: bool

datatype action = Sleep nat | Lock | Unlock

text \<open>The product is computed in \<open>int\<close>, and \<open>usleep\<close> takes an unsigned 32-bit number.\<close>

definition usleep_ms :: "int \<Rightarrow> action res" where
  "usleep_ms ms =
     (if - (2 ^ 31) \<le> ms * 1000 \<and> ms * 1000 < 2 ^ 31 then Inr (Sleep (unat (word_of_int (ms * 1000) :: u32)))
      else Inl Overflow)"

definition threadfunc :: "int \<Rightarrow> int \<Rightarrow> timed_thread_data \<Rightarrow> (timed_thread_data \<times> action list) res" where
  "threadfunc lock_result unlock_result data =
     bnd (usleep_ms (obtain_wait data)) (\<lambda>s1.
       let data = (if lock_result \<noteq> 0 then data\<lparr>complete_success := False\<rparr> else data)
       in bnd (usleep_ms (release_wait data)) (\<lambda>s2.
            let data = (if unlock_result \<noteq> 0 then data\<lparr>complete_success := False\<rparr> else data);
                data = (if unlock_result = 0 then data\<lparr>complete_success := True\<rparr> else data)
            in Inr (data, [s1, Lock, s2, Unlock])))"

text \<open>The data of the new thread, or None when \<open>malloc\<close> failed, and the result.\<close>

definition start_thread_obtaining_mutex ::
  "bool \<Rightarrow> int \<Rightarrow> int \<Rightarrow> int \<Rightarrow> (timed_thread_data option \<times> bool) res" where
  "start_thread_obtaining_mutex malloced create_result wait_to_obtain_ms wait_to_release_ms =
     (if \<not> malloced then Inl NullDeref
      else
        let data = \<lparr>obtain_wait = wait_to_obtain_ms, release_wait = wait_to_release_ms, complete_success = False\<rparr>
        in Inr (if create_result = 0 then Some data else None, True))"

section \<open>Properties\<close>

lemma usleep_ms_nonneg:
  assumes "0 \<le> ms"
  shows "usleep_ms ms = (if ms \<le> 2147483 then Inr (Sleep (nat ms * 1000)) else Inl Overflow)"
proof (cases "ms \<le> 2147483")
  case True
  have "uint (word_of_int (ms * 1000) :: u32) = ms * 1000"
    unfolding uint_word_of_int_eq using assms True by (intro take_bit_int_eq_self) auto
  then have "unat (word_of_int (ms * 1000) :: u32) = nat (ms * 1000)" by (simp only: unat_eq_nat_uint)
  then show ?thesis using assms True by (simp add: usleep_ms_def nat_mult_distrib)
qed (simp add: usleep_ms_def)

text \<open>
  A thread with waits that are not negative sleeps, locks, sleeps and unlocks, for exactly
  these times, if both are at most 2147483 milliseconds; a longer wait overflows. It reports
  success whenever the unlock succeeds, also when the lock failed, and
  \<open>start_thread_obtaining_mutex\<close> reports success also when no thread was created.
\<close>

theorem timed_thread_behaviour:
  assumes "0 \<le> obtain_wait data" and "0 \<le> release_wait data"
  shows "threadfunc lock_result unlock_result data =
      (if obtain_wait data \<le> 2147483 \<and> release_wait data \<le> 2147483
       then Inr (data\<lparr>complete_success := (unlock_result = 0)\<rparr>,
         [Sleep (nat (obtain_wait data) * 1000), Lock, Sleep (nat (release_wait data) * 1000), Unlock])
       else Inl Overflow) \<and>
    (\<exists>d. start_thread_obtaining_mutex True create_result a b = Inr (d, True))"
  using assms
  by (cases data) (simp add: threadfunc_def usleep_ms_nonneg start_thread_obtaining_mutex_def Let_def)

text \<open>The lock fails (EDEADLK), and the thread still reports success.\<close>

theorem timed_thread_behaviour_witness:
  "threadfunc 35 0 \<lparr>obtain_wait = 10, release_wait = 20, complete_success = False\<rparr> =
     Inr (\<lparr>obtain_wait = 10, release_wait = 20, complete_success = True\<rparr>, [Sleep 10000, Lock, Sleep 20000, Unlock])"
  using timed_thread_behaviour [of "\<lparr>obtain_wait = 10, release_wait = 20, complete_success = False\<rparr>" 35 0 0 0 0]
  by simp

end
