(* ===== verification/Writer.thy ===== *)
theory Writer
  imports Aesd_Prelude
begin

text \<open>
  \<open>finder-app/writer.c\<close>: creates a file and writes its second argument into it. The file system
  is a map from paths to contents.
\<close>

section \<open>The program\<close>

type_synonym files = "string \<Rightarrow> u8 list option"

text \<open>
  What the kernel may answer beyond the contents: an error of \<open>open\<close> other than EEXIST, and how
  many bytes \<open>write\<close> takes (None for -1).
\<close>

record writer_env =
  open_error :: "string \<Rightarrow> bool"
  takes :: "u8 list \<Rightarrow> nat option"

text \<open>\<open>open\<close> with O_CREAT and O_EXCL: the files, and whether there is a descriptor.\<close>

definition open_excl :: "writer_env \<Rightarrow> files \<Rightarrow> string \<Rightarrow> files \<times> bool" where
  "open_excl env fs path =
     (if open_error env path \<or> path \<in> dom fs then (fs, False) else (fs(path \<mapsto> []), True))"

text \<open>\<open>write\<close> to a new file; without a descriptor it fails.\<close>

definition write_text :: "writer_env \<Rightarrow> files \<Rightarrow> string \<Rightarrow> bool \<Rightarrow> u8 list \<Rightarrow> files" where
  "write_text env fs path fd text =
     (case takes env text of
        Some n \<Rightarrow> if fd then fs(path \<mapsto> take n text) else fs
      | None \<Rightarrow> fs)"

text \<open>The arguments after the program's name; the files afterwards and the exit status.\<close>

fun writer_main :: "writer_env \<Rightarrow> files \<Rightarrow> (string \<times> u8 list) option \<Rightarrow> files \<times> int" where
  "writer_main env fs None = (fs, 1)"
| "writer_main env fs (Some (path, text)) =
     (let (fs, fd) = open_excl env fs path
      in (write_text env fs path fd text, 0))"

section \<open>Properties\<close>

text \<open>
  \<open>writer\<close> writes only to files it creates: a file that exists keeps its contents, although
  the log says it is written over, and the exit status is 0 all the same. A path that does not
  exist holds the text afterwards when \<open>write\<close> takes all of it. Nothing else is touched.
\<close>

theorem writer_never_overwrites:
  "(path \<in> dom fs \<longrightarrow> writer_main env fs (Some (path, text)) = (fs, 0)) \<and>
   (path \<notin> dom fs \<and> \<not> open_error env path \<and> takes env text = Some (length text) \<longrightarrow>
     writer_main env fs (Some (path, text)) = (fs(path \<mapsto> text), 0)) \<and>
   (q \<noteq> path \<longrightarrow> fst (writer_main env fs (Some (path, text))) q = fs q)"
  by (auto simp: open_excl_def write_text_def split: option.split)

theorem writer_never_overwrites_witness:
  "writer_main \<lparr>open_error = (\<lambda>_. False), takes = (\<lambda>t. Some (length t))\<rparr> [''a'' \<mapsto> [1]] (Some (''a'', [2, 3])) =
     ([''a'' \<mapsto> [1]], 0)"
  using writer_never_overwrites [of "''a''" "[''a'' \<mapsto> [1]]"] by simp

end
