(* ===== verification/Aesd_Contract.thy ===== *)
theory Aesd_Contract
  imports Aesd_Driver
begin

text \<open>
  The contract of the file operations of the kernel, for every outcome of the handlers that is
  not a fault: which results a call may return, how it moves the file position, and that a read
  never counts more bytes than were asked for.
\<close>

section \<open>How far the copying loops get\<close>

text \<open>The blocks \<open>p\<close> may point to have at most \<open>l\<close> bytes.\<close>

definition room :: "kmem \<Rightarrow> ptr \<Rightarrow> nat \<Rightarrow> bool" where
  "room m p l \<longleftrightarrow> (\<forall>a bs. p = Ref a \<longrightarrow> m a = Some bs \<longrightarrow> length bs \<le> l)"

lemma store_room: "store m q i c = Inr m' \<Longrightarrow> room m p l \<Longrightarrow> room m' p l"
  by (auto simp: room_def dest!: store_Inr split: if_splits)

lemma store_inside: "store m p i c = Inr m' \<Longrightarrow> room m p l \<Longrightarrow> i < l"
  by (auto simp: store_def block_def room_def split: ptr.splits option.splits if_splits)

lemma copy_bytes_room:
  assumes "copy_bytes m tmp data src rc n k j = Inr (m', j')" and "room m data l"
  shows "j' = j + n \<and> room m' data l \<and> (\<forall>i < n. unat (rc + of_nat (j + i)) < l)"
  using assms
proof (induction n arbitrary: m k j)
  case (Suc n)
  then obtain c m1 c2 m2 where s: "store m tmp j c = Inr m1"
      "store m1 data (unat (rc + of_nat j)) c2 = Inr m2"
      "copy_bytes m2 tmp data src rc n (Suc k) (Suc j) = Inr (m', j')"
    by auto
  have r: "room m1 data l" "room m2 data l" using store_room s Suc.prems(2) by blast+
  have 0: "unat (rc + of_nat j) < l" by (rule store_inside [OF s(2) r(1)])
  have ih: "j' = Suc j + n \<and> room m' data l \<and> (\<forall>i < n. unat (rc + of_nat (Suc j + i)) < l)"
    by (rule Suc.IH [OF s(3) r(2)])
  have "unat (rc + of_nat (j + i)) < l" if "i < Suc n" for i
    using that ih 0 by (cases i) auto
  with ih show ?case by simp
qed simp

text \<open>Indices that start at most at the bound and never leave it do not wrap.\<close>

lemma no_wrap:
  fixes rc :: u64
  assumes "unat rc \<le> l" and "l < 2 ^ 63" and "\<forall>i < n. unat (rc + of_nat i) < l"
  shows "unat (rc + of_nat n) \<le> l"
proof -
  have "unat rc + n \<le> l"
  proof (rule ccontr)
    assume "\<not> unat rc + n \<le> l"
    then have i: "l - unat rc < n" using assms(1) by linarith
    have "unat (of_nat (l - unat rc) :: u64) = l - unat rc" using assms(2) by (intro unat_of_nat_u64) simp
    then have "unat (rc + of_nat (l - unat rc)) = unat rc + (l - unat rc)"
      using assms(1,2) by (subst unat_plus_u64) (simp_all del: of_nat_diff)
    then have "unat (rc + of_nat (l - unat rc)) = l" using assms(1) by (simp del: of_nat_diff)
    then show False using assms(3) i by (metis less_irrefl)
  qed
  moreover have "unat (of_nat n :: u64) = n" using calculation assms(2) by (intro unat_of_nat_u64) simp
  ultimately show ?thesis using assms(2) by (simp add: unat_plus_u64)
qed

lemma read_entries_room:
  "read_entries m b tmp data count bo i2 i k rc = Inr (m', rc') \<Longrightarrow> room m data l \<Longrightarrow> unat rc \<le> l \<Longrightarrow>
     l < 2 ^ 63 \<Longrightarrow> unat rc' \<le> l"
proof (induction m b tmp data count bo i2 i k rc rule: read_entries.induct)
  case (1 m b tmp data count bo i2 i k rc)
  show ?case
  proof (cases "i < i2")
    case False
    with 1(2,4) show ?thesis by (simp add: read_entries.simps [of m])
  next
    case True
    obtain e where e: "entry_at b i = Inr e"
      using 1(2) True by (auto simp: read_entries.simps [of m])
    show ?thesis
    proof (cases "esize e = 0 \<or> count - rc = 0")
      case True
      with 1(2,4) e show ?thesis by (auto simp: read_entries.simps [of m] split: if_splits)
    next
      case False
      let ?fin = "if rc + esize e < count then ucast (esize e) else ucast (count - rc + bo) :: u32"
      obtain m1 j where c: "copy_bytes m tmp data (buffptr e) rc (unat ?fin - k) k 0 = Inr (m1, j)"
          and r: "read_entries m1 b tmp data count bo i2 (Suc i) 0 (rc + of_nat j) = Inr (m', rc')"
        using 1(2) e True False by (auto simp: read_entries.simps [of m] Let_def)
      have j: "j = unat ?fin - k" "room m1 data l" "\<forall>i < j. unat (rc + of_nat i) < l"
        using copy_bytes_room [OF c 1(3)] by auto
      have "unat (rc + of_nat j) \<le> l" by (rule no_wrap [OF 1(4,5) j(3)])
      then show ?thesis using 1(1) [OF True False refl r j(2) _ 1(5)] by simp
    qed
  qed
qed

lemma kmalloc_room:
  assumes "good_alloc al" and "kmalloc al m n = (m', p)"
  shows "room m' p (if unat n < 2 ^ 31 then unat n else 0)"
    and "q = Null \<or> (\<exists>a. q = Ref a \<and> m a \<noteq> None) \<Longrightarrow> room m q l \<Longrightarrow> room m' q l"
  using assms good_allocD [OF assms(1)]
  by (fastforce simp: kmalloc_def room_def split: option.splits prod.splits if_splits)+

text \<open>The helper counts no more bytes than the block it fills has.\<close>

lemma read_helper_room:
  assumes al: "good_alloc al" and r: "aesd_circular_buffer_read_helper al m b i1 i2 data count bo = Inr (m', rc)"
    and d: "room m data l" "data = Null \<or> (\<exists>a. data = Ref a \<and> m a \<noteq> None)" and l: "l < 2 ^ 63"
  shows "unat rc \<le> l"
proof -
  obtain m1 tmp where k: "kmalloc al m count = (m1, tmp)" by fastforce
  have "room m1 data l" by (rule kmalloc_room(2) [OF al k d(2,1)])
  then show ?thesis
    using r k read_entries_room [of m1 b tmp data count bo i2 i1 _ 0 m' rc l] l
    by (simp add: aesd_circular_buffer_read_helper_def)
qed

section \<open>The handlers\<close>

lemma aesd_read_result:
  assumes al: "good_alloc (alloc env)" and r: "aesd_read env m d count pos = Inr (m', d', pos', ret, user)"
  shows "ret = - ENOMEM \<or> 0 \<le> ret \<and> ret \<le> int (unat count) \<and>
    (pos' = pos + of_int ret \<or> seek d \<and> pos' = seekto_position d + of_int ret)"
proof (cases "mutex d \<or> sint (total_size (buffer d)) \<le> sint pos")
  case True
  then show ?thesis using r by (auto simp: aesd_read_def Let_def split: prod.splits if_splits)
next
  case False
  obtain m1 tmp where k1: "kmalloc (alloc env) m count = (m1, tmp)" by fastforce
  obtain m2 bo where k2: "kmalloc (alloc env) m1 8 = (m2, bo)" by fastforce
  let ?l = "if unat count < 2 ^ 31 then unat count else 0"
  let ?pos = "if seek d then seekto_position d else pos"
  obtain i off m3 rc where h: "aesd_circular_buffer_read_helper (alloc env) m2 (buffer d) i
        (read_stop (buffer d) i) tmp count off = Inr (m3, rc)"
      and rest: "ret = - ENOMEM \<or> pos' = ?pos + rc \<and> ret = sint rc \<or> pos' = ?pos \<and> ret = 0"
    using r k1 k2 False by (auto simp: aesd_read_def Let_def split: if_splits)
  have tmp: "tmp = Null \<or> (\<exists>a. tmp = Ref a \<and> m1 a \<noteq> None)"
    using kmalloc_fresh(4) [OF al k1] by (cases tmp) auto
  have "room m1 tmp ?l" by (rule kmalloc_room(1) [OF al k1])
  then have "room m2 tmp ?l" by (rule kmalloc_room(2) [OF al k2 tmp])
  moreover have "tmp = Null \<or> (\<exists>a. tmp = Ref a \<and> m2 a \<noteq> None)"
  proof (cases tmp)
    case (Ref a)
    then have "m2 a \<noteq> None" using tmp map_le_None [OF kmalloc_fresh(1) [OF al k2], of a] by fastforce
    then show ?thesis using Ref by blast
  qed simp
  ultimately have rc: "unat rc \<le> ?l" using read_helper_room [OF al h, of ?l] by simp
  then have "unat rc < 2 ^ 63" by (auto split: if_splits)
  then have "sint rc = int (unat rc)" by (rule sint_u64_small)
  moreover have "rc \<le> count" unfolding word_le_nat_alt using rc by (auto split: if_splits)
  then have "uint rc \<le> uint count" by (simp add: word_le_def)
  ultimately show ?thesis using rest by (auto split: if_splits)
qed

lemma aesd_write_result:
  "length buf < 2 ^ 63 \<Longrightarrow> aesd_write env m d buf = Inr (m', d', ret) \<Longrightarrow> ret = - ENOMEM \<or> ret = int (length buf)"
  by (auto simp: aesd_write_def Let_def unat_of_nat_u64 sint_u64_small split: prod.splits if_splits)

lemma aesd_ioctl_result: "aesd_ioctl c m d cmd copied = Inr (m', d', ret) \<Longrightarrow> ret \<in> {0, - ENOTTY, - EINVAL}"
  by (auto simp: aesd_ioctl_def aesd_flush_def aesd_adjust_file_offset_def split: if_splits)

section \<open>Properties\<close>

text \<open>
  C25. Whatever the state of the device, a call that does not fault returns what its contract
  allows: a read an error or a count no greater than the request, by which the file position
  moves (from the position of a seek, if one was requested); a write an error or the whole
  request; an ioctl zero or an error.
\<close>

theorem handlers_keep_contract:
  assumes "good_alloc (alloc env)"
  shows "(aesd_read env m d count pos = Inr (m1, d1, pos', ret, user) \<longrightarrow>
      ret = - ENOMEM \<or> 0 \<le> ret \<and> ret \<le> int (unat count) \<and>
        (pos' = pos + of_int ret \<or> seek d \<and> pos' = seekto_position d + of_int ret)) \<and>
    (length buf < 2 ^ 63 \<longrightarrow> aesd_write env m d buf = Inr (m2, d2, retw) \<longrightarrow>
      retw = - ENOMEM \<or> retw = int (length buf)) \<and>
    (aesd_ioctl c m d cmd copied = Inr (m3, d3, reti) \<longrightarrow> reti = 0 \<or> reti = - ENOTTY \<or> reti = - EINVAL)"
  using aesd_read_result [OF assms] aesd_write_result aesd_ioctl_result by auto

text \<open>A write of two bytes to the demo device does not fault.\<close>

theorem handlers_keep_contract_witness:
  "\<exists>m d ret. aesd_write demo_env demo_mem demo_dev [100, 10] = Inr (m, d, ret) \<and> (ret = - ENOMEM \<or> ret = 2)"
proof -
  obtain m d ret where w: "aesd_write demo_env demo_mem demo_dev [100, 10] = Inr (m, d, ret)"
    using write_whole_line [OF demo_writer_ok, of "[100, 10]"] by (auto simp: whole_line_def)
  have "good_alloc (alloc demo_env)" by (simp add: good_alloc_bump)
  from handlers_keep_contract [OF this, of demo_mem demo_dev _ _ _ _ _ _ _ "[100, 10]" m d ret] w
  show ?thesis by auto
qed

end
