(* ===== verification/Aesd_Race.thy ===== *)
theory Aesd_Race
  imports Aesd_Driver "HOL-Library.Multiset"
begin

text \<open>
  Calls of \<open>aesd_write\<close> that run at the same time. The handler is cut at the points where another
  call can come in between: it allocates and copies before it looks at the mutex, looks at it,
  waits for it, does its work under it, and after releasing it looks at it once more. Any number
  of calls move in any order.
\<close>

section \<open>The pieces of the handler\<close>

text \<open>Before the mutex: the three blocks, the third sized by the pending entry of that moment.\<close>

definition write_prepare :: "kenv \<Rightarrow> kmem \<Rightarrow> aesd_dev \<Rightarrow> u8 list \<Rightarrow> (kmem \<times> ptr \<times> ptr \<times> ptr) res" where
  "write_prepare env m dev buf =
     (let count = of_nat (length buf);
          (m, add_entry) = kmalloc (alloc env) m 16;
          (m, data) = kmalloc (alloc env) m count;
          (m, tmp) = kmalloc (alloc env) m (count + esize (partial_entry dev))
      in bnd (copy_in env m data buf) (\<lambda>m. Inr (m, add_entry, data, tmp)))"

text \<open>Under the mutex.\<close>

definition write_body :: "kenv \<Rightarrow> kmem \<Rightarrow> aesd_dev \<Rightarrow> u8 list \<Rightarrow> ptr \<Rightarrow> ptr \<Rightarrow> ptr \<Rightarrow> (kmem \<times> aesd_dev) res" where
  "write_body env m dev buf add_entry data tmp =
     bnd (if partial dev then join_partial env m (partial_entry dev) data tmp (of_nat (length buf))
          else Inr (m, of_nat (length buf))) (\<lambda>(m, write_size).
       finish_line m dev add_entry data write_size)"

text \<open>Without other calls the pieces are the handler.\<close>

lemma aesd_write_pieces:
  "aesd_write env m dev buf = bnd (write_prepare env m dev buf) (\<lambda>(m, add_entry, data, tmp).
     if mutex dev then Inr (m, dev, - ENOMEM)
     else bnd (write_body env m dev buf add_entry data tmp) (\<lambda>(m, dev).
       if relocked env then Inr (m, dev\<lparr>mutex := True\<rparr>, - ENOMEM)
       else bnd (kfree m tmp) (\<lambda>m. Inr (m, dev, sint (of_nat (length buf) :: u64)))))"
proof -
  let ?count = "of_nat (length buf) :: u64"
  obtain m1 e where 1: "kmalloc (alloc env) m 16 = (m1, e)" by fastforce
  obtain m2 x where 2: "kmalloc (alloc env) m1 ?count = (m2, x)" by fastforce
  obtain m3 t where 3: "kmalloc (alloc env) m2 (?count + esize (partial_entry dev)) = (m3, t)" by fastforce
  show ?thesis
  proof (cases "copy_in env m3 x buf")
    case (Inr m4)
    show ?thesis
      by (cases "if partial dev then join_partial env m4 (partial_entry dev) x t ?count else Inr (m4, ?count)")
        (auto simp: aesd_write_def write_prepare_def write_body_def Let_def 1 2 3 Inr)
  qed (simp add: aesd_write_def write_prepare_def Let_def 1 2 3)
qed

section \<open>Calls in flight\<close>

datatype stage = Prepared | Unlocked | Locked | Stored

text \<open>
  A call: its bytes, its blocks, and how far it is. \<open>Unlocked\<close> is a call that has seen the mutex
  free and waits in \<open>mutex_lock\<close>, \<open>Stored\<close> one that has released it again.
\<close>

record wcall =
  bytes :: "u8 list"
  add_block :: ptr
  data_block :: ptr
  tmp_block :: ptr
  stage :: stage

text \<open>
  The driver with the calls in flight. \<open>returned\<close> holds the calls that have returned with their
  results and whether their bytes were stored, \<open>stored\<close> what was stored, in order.
\<close>

record race =
  heap :: kmem
  device :: aesd_dev
  calls :: "wcall list"
  returned :: "(u8 list \<times> int \<times> bool) list"
  stored_bytes :: "u8 list list"

inductive race_step :: "kenv \<Rightarrow> race \<Rightarrow> race \<Rightarrow> bool" for env where
  enter: "whole_line buf \<Longrightarrow> write_prepare env (heap s) (device s) buf = Inr (m, e, x, t) \<Longrightarrow>
    race_step env s (s\<lparr>heap := m, calls := calls s @
      [\<lparr>bytes = buf, add_block = e, data_block = x, tmp_block = t, stage = Prepared\<rparr>]\<rparr>)"
| busy: "calls s = us @ c # vs \<Longrightarrow> stage c = Prepared \<Longrightarrow> mutex (device s) \<Longrightarrow>
    race_step env s (s\<lparr>calls := us @ vs, returned := returned s @ [(bytes c, - ENOMEM, False)]\<rparr>)"
| pass: "calls s = us @ c # vs \<Longrightarrow> stage c = Prepared \<Longrightarrow> \<not> mutex (device s) \<Longrightarrow>
    race_step env s (s\<lparr>calls := us @ c\<lparr>stage := Unlocked\<rparr> # vs\<rparr>)"
| lock: "calls s = us @ c # vs \<Longrightarrow> stage c = Unlocked \<Longrightarrow> \<not> mutex (device s) \<Longrightarrow>
    race_step env s (s\<lparr>calls := us @ c\<lparr>stage := Locked\<rparr> # vs, device := (device s)\<lparr>mutex := True\<rparr>\<rparr>)"
| body: "calls s = us @ c # vs \<Longrightarrow> stage c = Locked \<Longrightarrow>
    write_body env (heap s) (device s) (bytes c) (add_block c) (data_block c) (tmp_block c) = Inr (m, d) \<Longrightarrow>
    race_step env s (s\<lparr>calls := us @ c\<lparr>stage := Stored\<rparr> # vs, heap := m, device := d\<lparr>mutex := False\<rparr>,
      stored_bytes := stored_bytes s @ [bytes c]\<rparr>)"
| end_busy: "calls s = us @ c # vs \<Longrightarrow> stage c = Stored \<Longrightarrow> mutex (device s) \<Longrightarrow>
    race_step env s (s\<lparr>calls := us @ vs, returned := returned s @ [(bytes c, - ENOMEM, True)]\<rparr>)"
| end_ok: "calls s = us @ c # vs \<Longrightarrow> stage c = Stored \<Longrightarrow> \<not> mutex (device s) \<Longrightarrow>
    kfree (heap s) (tmp_block c) = Inr m \<Longrightarrow>
    race_step env s (s\<lparr>calls := us @ vs, heap := m,
      returned := returned s @ [(bytes c, sint (of_nat (length (bytes c)) :: u64), True)]\<rparr>)"

inductive_cases race_stepE: "race_step env s t"

definition start_race :: "kmem \<Rightarrow> aesd_dev \<Rightarrow> race" where
  "start_race m d = \<lparr>heap = m, device = d, calls = [], returned = [], stored_bytes = []\<rparr>"

section \<open>The invariant\<close>

fun addrs :: "ptr \<Rightarrow> nat list" where
  "addrs Null = []"
| "addrs (Ref a) = [a]"

text \<open>The blocks a call may still touch.\<close>

definition held :: "wcall \<Rightarrow> nat list" where
  "held c = (if stage c = Stored then addrs (tmp_block c)
     else addrs (add_block c) @ addrs (data_block c) @ addrs (tmp_block c))"

definition call_ok :: "kmem \<Rightarrow> wcall \<Rightarrow> bool" where
  "call_ok m c \<longleftrightarrow> whole_line (bytes c) \<and>
     (stage c \<noteq> Stored \<longrightarrow> (\<exists>e x. add_block c = Ref e \<and> data_block c = Ref x \<and> m x = Some (bytes c)))"

text \<open>
  The blocks of the calls in flight are in use, no two are the same and none is the device's; the
  mutex is held exactly when one call is at work under it, or one of \<open>k\<close> holders outside. No slot
  shows garbage for a size.
\<close>

definition race_inv :: "nat \<Rightarrow> u8 list list \<Rightarrow> race \<Rightarrow> bool" where
  "race_inv k ls s \<longleftrightarrow> dev_inv (heap s) (device s) \<and> \<not> partial (device s) \<and> slots_sane (buffer (device s)) \<and>
     (\<forall>c \<in> set (calls s). call_ok (heap s) c) \<and>
     distinct (concat (map held (calls s))) \<and>
     (\<forall>a \<in> set (concat (map held (calls s))). heap s a \<noteq> None \<and> unowned (device s) a) \<and>
     length (filter (\<lambda>c. stage c = Locked) (calls s)) + k = (if mutex (device s) then 1 else 0) \<and>
     lines (heap s) (device s) = lastn MAXW (ls @ stored_bytes s)"

text \<open>A preparation that succeeds: fresh blocks, the third perhaps NULL, and the bytes in the second.\<close>

lemma write_prepare_spec:
  assumes inv: "dev_inv m d" and env: "kernel_ok env" and buf: "length buf < 2 ^ 31"
  obtains m' e x t where "write_prepare env m d buf = Inr (m', Ref e, Ref x, t)"
    and "distinct (e # x # addrs t)" and "\<forall>a \<in> set (e # x # addrs t). m a = None \<and> m' a \<noteq> None"
    and "m' x = Some buf" and "\<forall>a. a \<notin> set (e # x # addrs t) \<longrightarrow> m' a = m a" and "dev_inv m' d" and "lines m' d = lines m d"
    and "if unat (of_nat (length buf) + esize (partial_entry d)) < 2 ^ 31
      then \<exists>a bs. t = Ref a \<and> m' a = Some bs \<and> length bs = unat (of_nat (length buf) + esize (partial_entry d))
      else t = Null"
proof -
  have al: "good_alloc (alloc env)" "total_alloc (alloc env)" and copy: "from_user env buf = (0, buf)"
    using env by (auto simp: kernel_ok_def)
  let ?count = "of_nat (length buf) :: u64"
  have count: "unat ?count = length buf" "length buf < 2 ^ 31"
    using buf by (auto intro!: unat_of_nat_u64)
  note fin = dev_invD(1) [OF inv]
  obtain e eb where e: "alloc env m 16 = Some (e, eb)" "m e = None"
    by (rule total_allocE [OF al(2,1) fin, of 16]) auto
  let ?m1 = "m(e \<mapsto> eb)"
  obtain x xb where x: "alloc env ?m1 ?count = Some (x, xb)" "?m1 x = None"
    by (rule total_allocE [OF al(2,1), of ?m1 ?count]) (use fin count in auto)
  let ?m2 = "?m1(x \<mapsto> xb)"
  obtain m3 t where m3: "kmalloc (alloc env) ?m2 (?count + esize (partial_entry d)) = (m3, t)" by fastforce
  have t: "(t = Null \<and> m3 = ?m2) \<or> (\<exists>a tb. t = Ref a \<and> m3 = ?m2(a \<mapsto> tb) \<and> ?m2 a = None)"
  proof (cases "alloc env ?m2 (?count + esize (partial_entry d))")
    case (Some r)
    then obtain a tb where a: "alloc env ?m2 (?count + esize (partial_entry d)) = Some (a, tb)" by (cases r) auto
    then have "?m2 a = None" using good_allocD(1) [OF al(1)] by blast
    moreover have "t = Ref a" "m3 = ?m2(a \<mapsto> tb)" using m3 a by simp_all
    ultimately show ?thesis by blast
  qed (use m3 in simp)
  let ?m4 = "m3(x \<mapsto> buf)"
  have ne: "e \<noteq> x" "m x = None" using x(2) by (auto split: if_splits)
  have "m3 x = Some xb" using t by (auto split: if_splits)
  then have w: "write_prepare env m d buf = Inr (?m4, Ref e, Ref x, t)"
    using e(1) x(1) m3 copy by (simp add: write_prepare_def copy_in_def Let_def)
  have 1: "dev_inv ?m1 d" "lines ?m1 d = lines m d"
    by (rule dev_inv_fresh [OF inv e(2)], rule lines_fresh [OF inv e(2)])
  have 2: "dev_inv ?m2 d" "lines ?m2 d = lines m d"
    by (rule dev_inv_fresh [OF 1(1) x(2)], rule trans [OF lines_fresh [OF 1(1) x(2)] 1(2)])
  have 3: "dev_inv m3 d" "lines m3 d = lines m d"
    using t 2 dev_inv_fresh [OF 2(1)] lines_fresh [OF 2(1)] by metis+
  have un: "unowned d x" using unowned_dead [OF inv ne(2)] .
  have 4: "dev_inv ?m4 d" "lines ?m4 d = lines m d" using dev_inv_frame [OF 3(1) un] lines_frame [OF un] 3(2) by auto
  have sz: "if unat (?count + esize (partial_entry d)) < 2 ^ 31
      then \<exists>a bs. t = Ref a \<and> ?m4 a = Some bs \<and> length bs = unat (?count + esize (partial_entry d))
      else t = Null"
  proof (cases "alloc env ?m2 (?count + esize (partial_entry d))")
    case None
    have "finite (dom ?m2)" using dev_invD(1) [OF 2(1)] .
    then have "\<not> unat (?count + esize (partial_entry d)) < 2 ^ 31" using al(2) None unfolding total_alloc_def by fastforce
    then show ?thesis using m3 None by simp
  next
    case (Some r)
    then obtain a tb where a: "alloc env ?m2 (?count + esize (partial_entry d)) = Some (a, tb)" by (cases r) auto
    have "a \<noteq> x" using good_allocD(1) [OF al(1) a] by auto
    moreover have "t = Ref a" "m3 = ?m2(a \<mapsto> tb)" using m3 a by simp_all
    ultimately have "t = Ref a" "?m4 a = Some tb" by auto
    then show ?thesis using good_allocD(2,3) [OF al(1) a] by simp
  qed
  show thesis
    by (rule that [OF w _ _ _ _ 4 sz]) (use t e(2) ne in \<open>auto split: if_splits\<close>)
qed

text \<open>Blocks that stay as they are keep a call ready.\<close>

lemma call_ok_frame: "call_ok m c \<Longrightarrow> \<forall>a \<in> set (held c). m' a = m a \<Longrightarrow> call_ok m' c"
  by (auto simp: call_ok_def held_def)

lemma calls_ok_frame:
  assumes "\<forall>c \<in> set cs. call_ok m c" and "\<forall>a \<in> set (concat (map held cs)). m' a = m a"
  shows "\<forall>c \<in> set cs. call_ok m' c"
proof
  fix c
  assume c: "c \<in> set cs"
  then have "\<forall>a \<in> set (held c). m' a = m a" using assms(2) by auto
  then show "call_ok m' c" using call_ok_frame assms(1) c by blast
qed

lemma unowned_ignores [simp]:
  "unowned (d\<lparr>mutex := x\<rparr>) a = unowned d a" "unowned (d\<lparr>seek := x\<rparr>) a = unowned d a"
  "unowned (d\<lparr>seekto_position := y\<rparr>) a = unowned d a"
  by (simp_all add: unowned_def owned_def)

lemma held_stage: "stage c \<noteq> Stored \<Longrightarrow> g \<noteq> Stored \<Longrightarrow> held (c\<lparr>stage := g\<rparr>) = held c"
  "stage c \<noteq> Stored \<Longrightarrow> held (c\<lparr>stage := Stored\<rparr>) = addrs (tmp_block c)"
  by (simp_all add: held_def)

lemma call_ok_stage: "stage c \<noteq> Stored \<Longrightarrow> call_ok m c \<Longrightarrow> call_ok m (c\<lparr>stage := g\<rparr>)"
  by (auto simp: call_ok_def)

text \<open>Taking a call out, and moving it on with the blocks it has.\<close>

lemma race_inv_leave:
  assumes "race_inv k ls s" and "calls s = us @ c # vs" and "stage c \<noteq> Locked"
  shows "race_inv k ls (s\<lparr>calls := us @ vs, returned := r\<rparr>)"
  using assms by (auto simp: race_inv_def)

lemma race_inv_move:
  assumes "race_inv k ls s" and "calls s = us @ c # vs" and "stage c \<noteq> Locked" "stage c \<noteq> Stored" "g \<noteq> Locked" "g \<noteq> Stored"
  shows "race_inv k ls (s\<lparr>calls := us @ c\<lparr>stage := g\<rparr> # vs\<rparr>)"
  using assms held_stage(1) [OF assms(4,6)] call_ok_stage [OF assms(4), of "heap s" g] by (simp add: race_inv_def)

lemma race_inv_lock:
  assumes "race_inv k ls s" and "calls s = us @ c # vs" and "stage c = Unlocked" and "\<not> mutex (device s)"
  shows "race_inv k ls (s\<lparr>calls := us @ c\<lparr>stage := Locked\<rparr> # vs, device := (device s)\<lparr>mutex := True\<rparr>\<rparr>)"
proof -
  have c: "stage c \<noteq> Stored" using assms(3) by simp
  show ?thesis
    using assms held_stage(1) [OF c, of Locked] call_ok_stage [OF c, of "heap s" Locked]
    by (simp add: race_inv_def)
qed

lemma race_inv_enter:
  assumes inv: "race_inv k ls s" and env: "kernel_ok env" and buf: "whole_line buf"
    and w: "write_prepare env (heap s) (device s) buf = Inr (m, e, x, t)"
  shows "race_inv k ls (s\<lparr>heap := m, calls := calls s @
    [\<lparr>bytes = buf, add_block = e, data_block = x, tmp_block = t, stage = Prepared\<rparr>]\<rparr>)"
proof -
  note I = inv [unfolded race_inv_def]
  have di: "dev_inv (heap s) (device s)" and lb: "length buf < 2 ^ 31" using I buf by (simp_all add: whole_line_def)
  obtain m' e' x' t' where p: "write_prepare env (heap s) (device s) buf = Inr (m', Ref e', Ref x', t')"
      "distinct (e' # x' # addrs t')" "\<forall>a \<in> set (e' # x' # addrs t'). heap s a = None \<and> m' a \<noteq> None"
      "m' x' = Some buf" "\<forall>a. a \<notin> set (e' # x' # addrs t') \<longrightarrow> m' a = heap s a"
      "dev_inv m' (device s)" "lines m' (device s) = lines (heap s) (device s)"
      "if unat (of_nat (length buf) + esize (partial_entry (device s))) < 2 ^ 31
       then \<exists>a bs. t' = Ref a \<and> m' a = Some bs \<and> length bs = unat (of_nat (length buf) + esize (partial_entry (device s)))
       else t' = Null"
    by (rule write_prepare_spec [OF di env lb])
  have eq: "m = m'" "e = Ref e'" "x = Ref x'" "t = t'" using w p(1) by simp_all
  let ?c = "\<lparr>bytes = buf, add_block = e, data_block = x, tmp_block = t, stage = Prepared\<rparr>"
  let ?H = "concat (map held (calls s))"
  have hc: "held ?c = e' # x' # addrs t'" using eq by (simp add: held_def)
  have H: "\<forall>a \<in> set ?H. heap s a \<noteq> None \<and> unowned (device s) a" using I by blast
  then have disj: "set ?H \<inter> set (held ?c) = {}" using p(3) unfolding hc by blast
  then have same: "\<forall>a \<in> set ?H. m' a = heap s a" using p(5) unfolding hc by blast
  have "\<forall>c \<in> set (calls s). call_ok (heap s) c" using I by blast
  then have "\<forall>c \<in> set (calls s). call_ok m' c" using same by (rule calls_ok_frame)
  moreover have "call_ok m' ?c" using buf p(4) eq by (simp add: call_ok_def)
  moreover have "\<forall>a \<in> set (held ?c). m' a \<noteq> None \<and> unowned (device s) a"
    using p(3) unowned_dead I unfolding hc by blast
  moreover have "\<forall>a \<in> set ?H. m' a \<noteq> None \<and> unowned (device s) a" using H same by simp
  moreover have "distinct (?H @ held ?c)" using I disj p(2) hc by simp
  ultimately show ?thesis
    using I p(6,7) eq(1) unfolding race_inv_def
    by (intro conjI) (simp_all add: ball_Un del: set_concat)
qed

lemma finish_line_sane:
  "finish_line m d e x n = Inr (m', d') \<Longrightarrow> slots_sane (buffer d) \<Longrightarrow> unat n < 2 ^ 60 \<Longrightarrow> slots_sane (buffer d')"
  by (auto simp: finish_line_def elim!: add_entry_sane split: if_splits)

text \<open>Storing: the line becomes the newest one, and the heap does not change.\<close>

lemma write_body_spec:
  assumes inv: "race_inv k ls s" and cs: "calls s = us @ c # vs" and st: "stage c = Locked"
  obtains d where "write_body env (heap s) (device s) (bytes c) (add_block c) (data_block c) (tmp_block c) = Inr (heap s, d)"
    and "dev_inv (heap s) d" and "\<not> partial d" and "mutex d = mutex (device s)"
    and "lines (heap s) d = lastn MAXW (lines (heap s) (device s) @ [bytes c])"
    and "\<forall>a. data_block c \<noteq> Ref a \<longrightarrow> unowned (device s) a \<longrightarrow> unowned d a" and "slots_sane (buffer d)"
proof -
  let ?m = "heap s" and ?d = "device s" and ?ws = "of_nat (length (bytes c)) :: u64"
  note I = inv [unfolded race_inv_def]
  have np: "\<not> partial ?d" "?d\<lparr>partial := False\<rparr> = ?d" using I by simp_all
  have "call_ok ?m c" using I cs by simp
  then obtain e x where b: "add_block c = Ref e" "data_block c = Ref x" "?m x = Some (bytes c)" "whole_line (bytes c)"
    using st by (auto simp: call_ok_def)
  have h: "held c = e # x # addrs (tmp_block c)" using st b by (simp add: held_def)
  have ha: "?m a \<noteq> None \<and> unowned ?d a" if "a \<in> set (held c)" for a using I cs that by simp
  obtain eb where e: "?m e = Some eb" "unowned ?d e" "e \<noteq> x" "unowned ?d x"
    using ha [of e] ha [of x] h I cs by auto
  have l: "bytes c \<noteq> []" "length (bytes c) < 2 ^ 31" "unat ?ws = length (bytes c)" "last (bytes c) = newline"
    using b(4) by (auto simp: whole_line_def intro!: unat_of_nat_u64)
  obtain m' d where f: "finish_line ?m ?d (Ref e) (Ref x) ?ws = Inr (m', d)" "dev_inv m' d"
      "view m' d = (lastn MAXW (lines ?m ?d @ [bytes c]), [])" "mutex d = mutex ?d" "m' = ?m"
      "\<forall>a. a \<noteq> x \<longrightarrow> unowned ?d a \<longrightarrow> unowned d a"
    using finish_line_spec [of ?m ?d x "bytes c" ?ws e eb, unfolded np(2)] I b(3) l e
      unowned_entries [OF e(2)] unowned_entries [OF e(4)] by (smt (verit))
  have "\<not> partial d"
  proof
    assume p: "partial d"
    then have "pending m' d \<noteq> []" using dev_invD(5) [OF f(2)] by (auto simp: stored_def)
    then show False using f(3) by (simp add: view_def)
  qed
  moreover have "slots_sane (buffer d)"
  proof (rule finish_line_sane [OF f(1)])
    show "slots_sane (buffer ?d)" using I by blast
    show "unat ?ws < 2 ^ 60" using l(2,3) by simp
  qed
  ultimately show thesis
    using that [of d] f b np by (simp add: write_body_def view_def)
qed

lemma race_inv_body:
  assumes inv: "race_inv k ls s" and cs: "calls s = us @ c # vs" and st: "stage c = Locked"
    and w: "write_body env (heap s) (device s) (bytes c) (add_block c) (data_block c) (tmp_block c) = Inr (m, d)"
  shows "race_inv k ls (s\<lparr>calls := us @ c\<lparr>stage := Stored\<rparr> # vs, heap := m, device := d\<lparr>mutex := False\<rparr>,
    stored_bytes := stored_bytes s @ [bytes c]\<rparr>)"
proof -
  obtain d' where f: "write_body env (heap s) (device s) (bytes c) (add_block c) (data_block c) (tmp_block c) = Inr (heap s, d')"
      "dev_inv (heap s) d'" "\<not> partial d'" "mutex d' = mutex (device s)"
      "lines (heap s) d' = lastn MAXW (lines (heap s) (device s) @ [bytes c])"
      "\<forall>a. data_block c \<noteq> Ref a \<longrightarrow> unowned (device s) a \<longrightarrow> unowned d' a" "slots_sane (buffer d')"
    by (rule write_body_spec [OF inv cs st])
  have e: "m = heap s" "d = d'" using f(1) w by simp_all
  note I = inv [unfolded race_inv_def]
  have ns: "stage c \<noteq> Stored" using st by simp
  let ?new = "concat (map held (us @ c\<lparr>stage := Stored\<rparr> # vs))" and ?old = "concat (map held (us @ c # vs))"
  have hs: "held (c\<lparr>stage := Stored\<rparr>) = addrs (tmp_block c)" by (rule held_stage(2) [OF ns])
  have hc: "held c = addrs (add_block c) @ addrs (data_block c) @ addrs (tmp_block c)" using ns by (simp add: held_def)
  have dist: "distinct ?old" using I cs by simp
  have dn: "distinct ?new" and sub: "set ?new \<subseteq> set ?old" using dist hs hc by auto
  have nx: "\<forall>a \<in> set ?new. data_block c \<noteq> Ref a" using dist hs hc by auto
  have "\<forall>a \<in> set ?old. heap s a \<noteq> None \<and> unowned (device s) a" using I cs by simp
  then have un: "\<forall>a \<in> set ?new. heap s a \<noteq> None \<and> unowned d a" using sub nx f(6) unfolding e by blast
  have ok: "\<forall>c \<in> set (us @ c\<lparr>stage := Stored\<rparr> # vs). call_ok (heap s) c"
    using I cs call_ok_stage [OF ns, of "heap s" Stored] by auto
  have fl: "length (filter (\<lambda>c. stage c = Locked) (us @ c\<lparr>stage := Stored\<rparr> # vs)) + k = 0"
    using I cs st by (auto split: if_splits)
  have ln: "lines (heap s) d' = lastn MAXW (ls @ stored_bytes s @ [bytes c])"
    using f(5) I by (simp add: lastn_lastn_append)
  show ?thesis
    using f(2,3,7) dn un ok fl ln unfolding race_inv_def e
    by (intro conjI) (simp_all del: set_concat)
qed

text \<open>Freeing the scratch block of a call that has stored its line.\<close>

lemma race_inv_end:
  assumes inv: "race_inv k ls s" and cs: "calls s = us @ c # vs" and st: "stage c = Stored"
  obtains m where "kfree (heap s) (tmp_block c) = Inr m" and "race_inv k ls (s\<lparr>calls := us @ vs, heap := m, returned := r\<rparr>)"
proof (cases "tmp_block c")
  case Null
  then show thesis using that [of "heap s"] race_inv_leave [OF inv cs, of r] st by simp
next
  case (Ref t)
  note I = inv [unfolded race_inv_def]
  have h: "held c = [t]" using st Ref by (simp add: held_def)
  have t: "heap s t \<noteq> None" "unowned (device s) t" using I cs h by auto
  let ?m = "(heap s)(t := None)" and ?H = "concat (map held (us @ vs))"
  have k: "kfree (heap s) (tmp_block c) = Inr ?m" using t(1) Ref by auto
  have nt: "t \<notin> set ?H" "distinct ?H" using I cs h by auto
  have H: "\<forall>a \<in> set ?H. heap s a \<noteq> None \<and> unowned (device s) a" using I cs by (simp add: ball_Un)
  then have un: "\<forall>a \<in> set ?H. ?m a \<noteq> None \<and> unowned (device s) a" using nt(1) by auto
  have same: "\<forall>a \<in> set ?H. ?m a = heap s a" using nt(1) by auto
  have "\<forall>c \<in> set (us @ vs). call_ok (heap s) c" using I cs by auto
  then have ok: "\<forall>c \<in> set (us @ vs). call_ok ?m c" using same by (rule calls_ok_frame)
  have fl: "length (filter (\<lambda>c. stage c = Locked) (us @ vs)) + k = (if mutex (device s) then 1 else 0)"
    using I cs st by simp
  have di: "dev_inv ?m (device s)" by (rule dev_inv_frame [OF _ t(2)]) (use I in blast)
  have ln: "lines ?m (device s) = lastn MAXW (ls @ stored_bytes s)"
    using lines_frame [OF t(2), of "heap s" None] I by simp
  have "race_inv k ls (s\<lparr>calls := us @ vs, heap := ?m, returned := r\<rparr>)"
    using I di ln un ok nt(2) fl unfolding race_inv_def by (intro conjI) (simp_all del: set_concat fun_upd_apply)
  then show thesis using that k by blast
qed

lemma race_inv_start: "dev_inv m d \<Longrightarrow> slots_sane (buffer d) \<Longrightarrow> \<not> partial d \<Longrightarrow> \<not> mutex d \<Longrightarrow> race_inv 0 (lines m d) (start_race m d)"
  by (simp add: race_inv_def start_race_def lastn_short length_lines length_entries_le [OF dev_invD(2)])

lemma race_inv_step: "kernel_ok env \<Longrightarrow> race_inv k ls s \<Longrightarrow> race_step env s t \<Longrightarrow> race_inv k ls t"
proof (erule race_stepE)
  fix us c vs m
  assume inv: "race_inv k ls s" and c: "calls s = us @ c # vs" "stage c = Stored" "kfree (heap s) (tmp_block c) = Inr m"
    and t: "t = s\<lparr>calls := us @ vs, heap := m,
      returned := returned s @ [(bytes c, sint (word_of_nat (length (bytes c)) :: u64), True)]\<rparr>"
  obtain m' where "kfree (heap s) (tmp_block c) = Inr m'"
      "race_inv k ls (s\<lparr>calls := us @ vs, heap := m',
        returned := returned s @ [(bytes c, sint (word_of_nat (length (bytes c)) :: u64), True)]\<rparr>)"
    by (rule race_inv_end [OF inv c(1,2)])
  then show "race_inv k ls t" using c(3) t by simp
qed (auto intro: race_inv_enter race_inv_leave race_inv_move race_inv_lock race_inv_body)

text \<open>
  What the results say: a call whose line was not stored returns an error, and one that returns
  the number of its bytes has its line stored.
\<close>

definition results_inv :: "race \<Rightarrow> bool" where
  "results_inv s \<longleftrightarrow>
     mset (stored_bytes s) = mset (map fst (filter (\<lambda>r. snd (snd r)) (returned s))) +
       mset (map bytes (filter (\<lambda>c. stage c = Stored) (calls s))) \<and>
     (\<forall>r \<in> set (returned s). fst (snd r) = int (length (fst r)) \<and> snd (snd r) \<or> fst (snd r) = - ENOMEM)"

lemma results_inv_start: "results_inv (start_race m d)"
  by (simp add: results_inv_def start_race_def)

lemma line_result: "whole_line l \<Longrightarrow> sint (of_nat (length l) :: u64) = int (length l)"
proof -
  assume "whole_line l"
  then have l: "length l < 2 ^ 31" by (simp add: whole_line_def)
  then have "unat (of_nat (length l) :: u64) = length l" by (intro unat_of_nat_u64) simp
  then show ?thesis using l sint_u64_small [of "of_nat (length l)"] by simp
qed

lemma results_inv_calls:
  assumes ok: "\<forall>c \<in> set (calls s). call_ok (heap s) c" and r: "results_inv s" and st: "race_step env s t"
  shows "results_inv t"
  using st
proof cases
  case (end_ok us c vs m)
  have "whole_line (bytes c)" using ok end_ok(2) by (auto simp: call_ok_def)
  then show ?thesis using r end_ok line_result by (auto simp: results_inv_def)
qed (use r in \<open>auto simp: results_inv_def\<close>)

lemma results_inv_step: "race_inv k ls s \<Longrightarrow> results_inv s \<Longrightarrow> race_step env s t \<Longrightarrow> results_inv t"
  by (rule results_inv_calls) (simp_all add: race_inv_def)

section \<open>Every call can return\<close>

primrec stage_work :: "stage \<Rightarrow> nat" where
  "stage_work Prepared = 4"
| "stage_work Unlocked = 3"
| "stage_work Locked = 2"
| "stage_work Stored = 1"

definition race_work :: "race \<Rightarrow> nat" where
  "race_work s = sum_list (map (\<lambda>c. stage_work (stage c)) (calls s))"

lemma race_progress:
  assumes inv: "race_inv 0 ls s" and c: "calls s \<noteq> []"
  shows "\<exists>t. race_step env s t \<and> race_work t < race_work s"
proof -
  obtain c us vs where c: "calls s = us @ c # vs" "mutex (device s) \<longrightarrow> stage c = Locked"
  proof (cases "mutex (device s)")
    case True
    then have "filter (\<lambda>c. stage c = Locked) (calls s) \<noteq> []" using inv by (auto simp: race_inv_def)
    then obtain c where "c \<in> set (calls s)" "stage c = Locked" by (auto simp: filter_empty_conv)
    then show thesis using that by (metis split_list)
  next
    case False
    then show thesis using that [of "[]"] c by (cases "calls s") auto
  qed
  show ?thesis
  proof (cases "stage c")
    case Prepared
    then show ?thesis using race_step.pass [of s us c vs env] c
      by (intro exI [of _ "s\<lparr>calls := us @ c\<lparr>stage := Unlocked\<rparr> # vs\<rparr>"]) (simp add: race_work_def)
  next
    case Unlocked
    then show ?thesis using race_step.lock [of s us c vs env] c
      by (intro exI [of _ "s\<lparr>calls := us @ c\<lparr>stage := Locked\<rparr> # vs, device := (device s)\<lparr>mutex := True\<rparr>\<rparr>"])
        (simp add: race_work_def)
  next
    case Locked
    obtain d where "write_body env (heap s) (device s) (bytes c) (add_block c) (data_block c) (tmp_block c) = Inr (heap s, d)"
      by (rule write_body_spec [OF inv c(1) Locked])
    then show ?thesis
      by (intro exI conjI, rule race_step.body [OF c(1) Locked]) (simp_all add: race_work_def c(1) Locked)
  next
    case Stored
    then have f: "\<not> mutex (device s)" using c(2) by auto
    obtain m where k: "kfree (heap s) (tmp_block c) = Inr m"
      by (rule race_inv_end [OF inv c(1) Stored])
    show ?thesis
      by (intro exI conjI, rule race_step.end_ok [OF c(1) Stored f k]) (simp add: race_work_def c(1) Stored)
  qed
qed

interpretation writers: invariant_system
  "\<lambda>s. \<exists>m d. dev_inv m d \<and> slots_sane (buffer d) \<and> \<not> partial d \<and> \<not> mutex d \<and> lines m d = ls \<and> kernel_ok env \<and> s = start_race m d"
  "race_step env" "\<lambda>s. race_inv 0 ls s \<and> results_inv s \<and> kernel_ok env" for env ls
  by unfold_locales (auto intro: race_inv_start results_inv_start race_inv_step results_inv_step)

section \<open>Properties\<close>

text \<open>
  Any number of writers of whole lines at the same time, in any order of their steps: nothing
  faults, at most one call works under the mutex, and the device always holds the last ten of
  what it held and the lines stored, each stored at once in the order in which the calls got the
  mutex. A call that returns the number of its bytes has its line stored, any other returns
  -ENOMEM, and whenever calls are in flight some call can move towards its return.
\<close>

theorem concurrent_writers:
  assumes "kernel_ok env" and "dev_inv m d" and "slots_sane (buffer d)" and "\<not> partial d" and "\<not> mutex d"
    and "(race_step env)\<^sup>*\<^sup>* (start_race m d) s"
  shows "dev_inv (heap s) (device s) \<and>
    lines (heap s) (device s) = lastn 10 (lines m d @ stored_bytes s) \<and>
    mset (stored_bytes s) = mset (map fst (filter (\<lambda>r. snd (snd r)) (returned s))) +
      mset (map bytes (filter (\<lambda>c. stage c = Stored) (calls s))) \<and>
    (\<forall>r \<in> set (returned s). fst (snd r) = int (length (fst r)) \<and> snd (snd r) \<or> fst (snd r) = - ENOMEM) \<and>
    length (filter (\<lambda>c. stage c = Locked) (calls s)) \<le> 1 \<and>
    (\<forall>buf. whole_line buf \<longrightarrow> (\<exists>r. write_prepare env (heap s) (device s) buf = Inr r)) \<and>
    (\<forall>c \<in> set (calls s).
      (stage c = Locked \<longrightarrow>
        (\<exists>r. write_body env (heap s) (device s) (bytes c) (add_block c) (data_block c) (tmp_block c) = Inr r)) \<and>
      (stage c = Stored \<longrightarrow> (\<exists>m'. kfree (heap s) (tmp_block c) = Inr m'))) \<and>
    (calls s \<noteq> [] \<longrightarrow> (\<exists>t. race_step env s t \<and> race_work t < race_work s))"
proof -
  have i: "race_inv 0 (lines m d) s" and r: "results_inv s"
    using writers.inv_reachable [of "lines m d" env "start_race m d" s] assms by blast+
  have "(stage c = Locked \<longrightarrow>
        (\<exists>r. write_body env (heap s) (device s) (bytes c) (add_block c) (data_block c) (tmp_block c) = Inr r)) \<and>
      (stage c = Stored \<longrightarrow> (\<exists>m'. kfree (heap s) (tmp_block c) = Inr m'))" if "c \<in> set (calls s)" for c
  proof -
    obtain us vs where c: "calls s = us @ c # vs" using \<open>c \<in> set (calls s)\<close> by (metis split_list)
    show ?thesis using write_body_spec [OF i c] race_inv_end [OF i c] by metis
  qed
  then have b: "\<forall>c \<in> set (calls s).
      (stage c = Locked \<longrightarrow>
        (\<exists>r. write_body env (heap s) (device s) (bytes c) (add_block c) (data_block c) (tmp_block c) = Inr r)) \<and>
      (stage c = Stored \<longrightarrow> (\<exists>m'. kfree (heap s) (tmp_block c) = Inr m'))" by blast
  have p: "\<forall>buf. whole_line buf \<longrightarrow> (\<exists>r. write_prepare env (heap s) (device s) buf = Inr r)"
    using write_prepare_spec [OF _ assms(1), of "heap s" "device s"] i unfolding race_inv_def whole_line_def by metis
  have e: "lastn 10 (lines m d @ stored_bytes s) = lines (heap s) (device s)" "dev_inv (heap s) (device s)"
      "length (filter (\<lambda>c. stage c = Locked) (calls s)) \<le> 1"
    using i by (simp_all add: race_inv_def MAXW_eq)
  show ?thesis
    using r race_progress [OF i, of env] unfolding results_inv_def
    by (intro conjI) (assumption | rule e(2) e(1) [symmetric] e(3) p b impI | elim conjE)+
qed

text \<open>A writer of "d" on the demo device: once in flight, it can move on, and nothing is stored yet.\<close>

theorem concurrent_writers_witness:
  "\<exists>s t. (race_step demo_env)\<^sup>*\<^sup>* (start_race demo_mem demo_dev) s \<and> length (calls s) = 1 \<and>
    lines (heap s) (device s) = [[97, 98, 10], [99, 10]] \<and> race_step demo_env s t \<and> race_work t < race_work s"
proof -
  let ?s = "start_race demo_mem demo_dev" and ?l = "[100, 10] :: u8 list"
  have d: "slots_sane (buffer demo_dev)" "\<not> partial demo_dev" "\<not> mutex demo_dev" by simp_all
  have l: "whole_line ?l" by (simp add: whole_line_def)
  note now = concurrent_writers [OF demo_kernel_ok demo_inv d]
  have "\<exists>r. write_prepare demo_env (heap ?s) (device ?s) ?l = Inr r" using now [of ?s] l by blast
  then obtain m e x t where w: "write_prepare demo_env (heap ?s) (device ?s) ?l = Inr (m, e, x, t)" by auto
  let ?t = "?s\<lparr>heap := m, calls := calls ?s @
      [\<lparr>bytes = ?l, add_block = e, data_block = x, tmp_block = t, stage = Prepared\<rparr>]\<rparr>"
  have r: "(race_step demo_env)\<^sup>*\<^sup>* ?s ?t" using race_step.enter [OF l w] by blast
  have c: "length (calls ?t) = 1" "stored_bytes ?t = []" by (simp_all add: start_race_def)
  then have "calls ?t \<noteq> []" by fastforce
  moreover have "lines (heap ?t) (device ?t) = lastn 10 (lines demo_mem demo_dev @ stored_bytes ?t)"
    "calls ?t \<noteq> [] \<longrightarrow> (\<exists>u. race_step demo_env ?t u \<and> race_work u < race_work ?t)"
    using now [OF r] by blast+
  moreover have "lastn 10 (lines demo_mem demo_dev @ stored_bytes ?t) = [[97, 98, 10], [99, 10]]"
    unfolding demo_lines c(2) by (simp add: lastn_def)
  ultimately show ?thesis using r c(1) by metis
qed

end
