(* ===== verification/Aesd_Race_Faults.thy ===== *)
theory Aesd_Race_Faults
  imports Aesd_Race
begin

text \<open>
  Two orders of calls that run at the same time in which the driver leaves its memory: a write
  that measures the pending line before another call makes it longer, and a flush, which does
  not look at the mutex, in the middle of a read.
\<close>

section \<open>A loop that leaves its block\<close>

lemma copy_loop_overrun:
  assumes "m s = Some ss" and "m d = Some ds" and "s \<noteq> d" and "n \<le> length ss" and "n < 2 ^ 32"
    and "length ds < at + n" and "at + i \<le> length ds" and "i \<le> n"
  shows "copy_loop m (Ref s) (Ref d) at n i = Inl OutOfBounds"
  using assms
proof (induction "n - i" arbitrary: i m ds)
  case 0
  then show ?case by simp
next
  case (Suc k)
  then have i: "i < n" "i \<noteq> 2 ^ 32" by simp_all
  show ?case
  proof (cases "at + i < length ds")
    case True
    have "copy_loop m (Ref s) (Ref d) at n i = copy_loop (m(d \<mapsto> ds[at + i := ss ! i])) (Ref s) (Ref d) at n (Suc i)"
      using i True Suc.prems by (subst copy_loop.simps) simp
    also have "\<dots> = Inl OutOfBounds"
      using Suc.hyps(2) i True Suc.prems by (intro Suc.hyps(1) [where ds = "ds[at + i := ss ! i]"]) auto
    finally show ?thesis .
  next
    case False
    then show ?thesis using i Suc.prems by (subst copy_loop.simps) simp
  qed
qed

text \<open>Two copies one after the other into a block that is too small for both.\<close>

lemma join_overrun:
  assumes p: "buffptr pe = Ref p" "m p = Some pend" "unat (esize pe) = length pend" "length pend < 2 ^ 31"
    and x: "m x = Some buf" "unat n = length buf" "length buf < 2 ^ 31"
    and t: "m t = Some tb" "length tb < length pend + length buf" and ne: "p \<noteq> t" "x \<noteq> t"
  shows "join_partial env m pe (Ref x) (Ref t) n = Inl OutOfBounds"
proof (cases "length tb < length pend")
  case True
  have "copy_loop m (Ref p) (Ref t) 0 (length pend) 0 = Inl OutOfBounds"
    by (rule copy_loop_overrun [OF p(2) t(1) ne(1)]) (use p(4) True in simp_all)
  then show ?thesis using p by (simp add: join_partial_def)
next
  case False
  let ?m = "m(t \<mapsto> blit tb 0 pend)"
  have 1: "copy_loop m (Ref p) (Ref t) 0 (length pend) 0 = Inr ?m"
    using copy_loop_live [of m p pend t tb 0 "length pend" 0] p t ne False by simp
  have l: "length (blit tb 0 pend) = length tb" using False by simp
  have "copy_loop ?m (Ref x) (Ref t) (length pend) (length buf) 0 = Inl OutOfBounds"
    by (rule copy_loop_overrun [of _ _ buf _ "blit tb 0 pend"]) (use x t ne False l in simp_all)
  then show ?thesis using p x(2) 1 by (simp add: join_partial_def)
qed

section \<open>A write without a newline\<close>

text \<open>It leaves its block as the pending line and every block in use as it was.\<close>

lemma write_pending:
  assumes inv: "dev_inv m d" and env: "kernel_ok env" "\<not> relocked env" and free: "\<not> mutex d" "\<not> partial d"
    and buf: "buf \<noteq> []" "last buf \<noteq> newline" "length buf < 2 ^ 31"
  obtains m' x where "aesd_write env m d buf =
      Inr (m', d\<lparr>partial := True, partial_entry := \<lparr>buffptr = Ref x, esize = of_nat (length buf)\<rparr>\<rparr>, int (length buf))"
    and "m x = None" and "m' x = Some buf" and "m \<subseteq>\<^sub>m m'"
proof -
  let ?n = "of_nat (length buf) :: u64"
  have n: "unat ?n = length buf" using buf(3) by (intro unat_of_nat_u64) simp
  then have sn: "sint ?n = int (length buf)" using buf(3) sint_u64_small [of ?n] by simp
  obtain m1 e x t where w: "write_prepare env m d buf = Inr (m1, Ref e, Ref x, t)"
      "distinct (e # x # addrs t)" "\<forall>a \<in> set (e # x # addrs t). m a = None \<and> m1 a \<noteq> None"
      "m1 x = Some buf" "\<forall>a. a \<notin> set (e # x # addrs t) \<longrightarrow> m1 a = m a" "dev_inv m1 d" "lines m1 d = lines m d"
      "if unat (?n + esize (partial_entry d)) < 2 ^ 31
       then \<exists>a bs. t = Ref a \<and> m1 a = Some bs \<and> length bs = unat (?n + esize (partial_entry d)) else t = Null"
    by (rule write_prepare_spec [OF inv env(1) buf(3)])
  let ?d = "d\<lparr>partial := True, partial_entry := \<lparr>buffptr = Ref x, esize = ?n\<rparr>\<rparr>"
  have "load_signed m1 (Ref x) (sint ?n - 1) = Inr (last buf)"
    using w(4) buf(1) sn by (auto simp: load_signed_def last_conv_nth nat_diff_distrib neq_Nil_conv)
  moreover have "kfree m1 (Ref e) = Inr (m1(e := None))" using w(3) by auto
  ultimately have b: "write_body env m1 d buf (Ref e) (Ref x) t = Inr (m1(e := None), ?d)"
    using free(2) buf(2) by (simp add: write_body_def finish_line_def)
  let ?m = "case t of Null \<Rightarrow> m1(e := None) | Ref a \<Rightarrow> m1(e := None, a := None)"
  have k: "kfree (m1(e := None)) t = Inr ?m" using w(2,3) by (cases t) auto
  have r: "aesd_write env m d buf = Inr (?m, ?d, int (length buf))"
    using w(1) b k free(1) env(2) sn by (simp add: aesd_write_pieces)
  have "m x = None" using w(3) by simp
  moreover have "?m x = Some buf" using w(2,4) by (cases t) auto
  moreover have "m \<subseteq>\<^sub>m ?m" using w(3,5) by (cases t) (auto simp: map_le_def)
  ultimately show thesis using that [OF r] by blast
qed

section \<open>A flush in the middle of a read\<close>

text \<open>
  What a read has done when its helper enters the loops, from a position at which it does not
  find an error: heap, the two blocks, where to start and stop, and the helper's own block.
\<close>

definition read_enter ::
  "kenv \<Rightarrow> kmem \<Rightarrow> aesd_dev \<Rightarrow> u64 \<Rightarrow> u64 \<Rightarrow> (kmem \<times> ptr \<times> ptr \<times> nat \<times> nat \<times> u64 \<times> ptr) res" where
  "read_enter env m dev n pos =
     (let (m, tmp_buf) = kmalloc (alloc env) m n;
          (m, byte_offset) = kmalloc (alloc env) m 8
      in bnd (read_start m byte_offset (buffer dev) (if seek dev then seekto_position dev else pos)) (\<lambda>(start, off).
         let (m, tmp) = kmalloc (alloc env) m n
         in Inr (m, tmp_buf, byte_offset, start, read_stop (buffer dev) start, off, tmp)))"

text \<open>With nothing in between the loops follow at once.\<close>

lemma aesd_read_enters:
  assumes "\<not> mutex d" and "sint pos < sint (total_size (buffer d))"
    and "aesd_read env m d n pos = Inr r"
  shows "\<exists>m1 tmp_buf byte_offset start stop off tmp m2 rc.
    read_enter env m d n pos = Inr (m1, tmp_buf, byte_offset, start, stop, off, tmp) \<and>
    read_entries m1 (buffer d) tmp tmp_buf n off stop start (unat (ucast off :: u32)) 0 = Inr (m2, rc)"
proof -
  obtain m1 tmp_buf where 1: "kmalloc (alloc env) m n = (m1, tmp_buf)" by fastforce
  obtain m2 bo where 2: "kmalloc (alloc env) m1 8 = (m2, bo)" by fastforce
  obtain m3 tmp where 3: "kmalloc (alloc env) m2 n = (m3, tmp)" by fastforce
  show ?thesis using assms 1 2 3
    by (auto simp: aesd_read_def read_enter_def Let_def aesd_circular_buffer_read_helper_def)
qed

lemma read_enter_heap:
  assumes al: "good_alloc (alloc env)" and r: "read_enter env m d n pos = Inr (m1, tmp_buf, byte_offset, start, stop, off, tmp)"
  shows "stop = read_stop (buffer d) start" and "m \<subseteq>\<^sub>m m1" and "finite (dom m) \<Longrightarrow> finite (dom m1)"
proof -
  obtain m2 p1 where 1: "kmalloc (alloc env) m n = (m2, p1)" by fastforce
  obtain m3 p2 where 2: "kmalloc (alloc env) m2 8 = (m3, p2)" by fastforce
  obtain m4 p3 where 3: "kmalloc (alloc env) m3 n = (m4, p3)" by fastforce
  note K = kmalloc_fresh [OF al 1] kmalloc_fresh [OF al 2] kmalloc_fresh [OF al 3]
  have "m4 = m1" "stop = read_stop (buffer d) start" using r 1 2 3 by (auto simp: read_enter_def)
  then show "stop = read_stop (buffer d) start" "m \<subseteq>\<^sub>m m1" "finite (dom m) \<Longrightarrow> finite (dom m1)"
    using K map_le_trans by blast+
qed

lemma copy_bytes_dangling: "0 < n \<Longrightarrow> m a = None \<Longrightarrow> copy_bytes m tmp data (Ref a) rc n k j = Inl Dangling"
  by (cases n) simp_all

section \<open>Properties\<close>

text \<open>
  C20. A write measures its scratch block before it gets the mutex. If meanwhile another write
  leaves a pending line longer than the entry that was measured, joining overruns the block:
  the first call faults although each call by itself is allowed.
\<close>

theorem write_race_overruns:
  assumes "dev_inv m d" and "kernel_ok env" and "\<not> relocked env" and "\<not> mutex d" and "\<not> partial d"
    and "buf \<noteq> []" and "length buf + unat (esize (partial_entry d)) < 2 ^ 31"
    and "last buf2 \<noteq> newline" and "unat (esize (partial_entry d)) < length buf2" and "length buf2 < 2 ^ 31"
  shows "\<exists>m1 add_entry data tmp m2 d2.
    write_prepare env m d buf = Inr (m1, add_entry, data, tmp) \<and>
    aesd_write env m1 d buf2 = Inr (m2, d2, int (length buf2)) \<and>
    write_body env m2 d2 buf add_entry data tmp = Inl OutOfBounds"
proof -
  let ?n = "of_nat (length buf) :: u64" and ?n2 = "of_nat (length buf2) :: u64" and ?s = "esize (partial_entry d)"
  have lb: "length buf < 2 ^ 31" using assms(7) by simp
  have n: "unat ?n = length buf" "unat ?n2 = length buf2" using lb assms(10) by (auto intro!: unat_of_nat_u64)
  have sum: "unat (?n + ?s) = length buf + unat ?s" using n(1) assms(7) by (simp add: unat_plus_u64)
  obtain m1 e x t where w: "write_prepare env m d buf = Inr (m1, Ref e, Ref x, t)"
      "distinct (e # x # addrs t)" "\<forall>a \<in> set (e # x # addrs t). m a = None \<and> m1 a \<noteq> None"
      "m1 x = Some buf" "\<forall>a. a \<notin> set (e # x # addrs t) \<longrightarrow> m1 a = m a" "dev_inv m1 d" "lines m1 d = lines m d"
      "if unat (?n + ?s) < 2 ^ 31
       then \<exists>a bs. t = Ref a \<and> m1 a = Some bs \<and> length bs = unat (?n + ?s) else t = Null"
    by (rule write_prepare_spec [OF assms(1,2) lb])
  obtain a bs where a: "t = Ref a" "m1 a = Some bs" "length bs = length buf + unat ?s"
    using w(8) sum assms(7) by auto
  have ne: "x \<noteq> a" using w(2) a(1) by simp
  have b2: "buf2 \<noteq> []" using assms(9) by auto
  obtain m2 y where v: "aesd_write env m1 d buf2 =
        Inr (m2, d\<lparr>partial := True, partial_entry := \<lparr>buffptr = Ref y, esize = ?n2\<rparr>\<rparr>, int (length buf2))"
      "m1 y = None" "m2 y = Some buf2" "m1 \<subseteq>\<^sub>m m2"
    by (rule write_pending [OF w(6) assms(2,3,4,5) b2 assms(8,10)])
  have kept: "m2 x = Some buf" "m2 a = Some bs"
    using v(4) w(4) a(2) unfolding map_le_def by (metis domI)+
  have "join_partial env m2 \<lparr>buffptr = Ref y, esize = ?n2\<rparr> (Ref x) (Ref a) ?n = Inl OutOfBounds"
    by (rule join_overrun [of _ y _ buf2 x buf _ a bs])
      (use v(2,3) kept n assms(9,10) lb a ne in auto)
  then have "write_body env m2 (d\<lparr>partial := True, partial_entry := \<lparr>buffptr = Ref y, esize = ?n2\<rparr>\<rparr>) buf (Ref e) (Ref x) t = Inl OutOfBounds"
    by (simp add: write_body_def a(1))
  then show ?thesis using w(1) v(1) by blast
qed

text \<open>Two bytes are prepared on the demo device, and another call leaves five pending ones.\<close>

theorem write_race_overruns_witness:
  "\<exists>m1 e x t m2 d2. write_prepare demo_env demo_mem demo_dev [100, 10] = Inr (m1, e, x, t) \<and>
    aesd_write demo_env m1 demo_dev [97, 98, 99, 100, 101] = Inr (m2, d2, 5) \<and>
    write_body demo_env m2 d2 [100, 10] e x t = Inl OutOfBounds"
proof -
  have "esize (partial_entry demo_dev) = 0" by (simp add: demo_dev_def)
  then show ?thesis
    using write_race_overruns [OF demo_inv demo_kernel_ok, of "[100, 10]" "[97, 98, 99, 100, 101]"] by simp
qed

text \<open>
  C21. The flush request does not look at the mutex. When it comes in the middle of a read that
  holds the mutex and has found its position in a slot below \<open>in_offs\<close>, it succeeds, and the loops
  of the read go on in freed memory. In a ring that is not full that is every position found in a
  line; in a full one the lines in the slots from \<open>in_offs\<close> on are not freed.
\<close>

theorem flush_during_read:
  assumes "dev_inv m d" and "kernel_ok env"
    and "read_enter env m d n pos = Inr (m1, tmp_buf, byte_offset, start, stop, off, tmp)"
    and "start < unat (in_offs (buffer d))" and "unat off < unat (esize (entry (buffer d) ! start))"
    and "n \<noteq> 0" and "unat n < 2 ^ 31"
    and "good_ioc c" and "AESDCHAR_IOCSEEKTO c \<noteq> AESDCHAR_FLUSH c"
  shows "\<exists>m2 d2. aesd_ioctl c m1 (d\<lparr>mutex := True\<rparr>) (AESDCHAR_FLUSH c) arg = Inr (m2, d2, 0) \<and>
    read_entries m2 (buffer d2) tmp tmp_buf n off stop start (unat (ucast off :: u32)) 0 = Inl Dangling"
proof -
  let ?b = "buffer d" and ?o = "unat (in_offs (buffer d))" and ?e = "entry (buffer d) ! start"
  have stop: "stop = read_stop ?b start" and le: "m \<subseteq>\<^sub>m m1" "finite (dom m1)"
    using read_enter_heap [OF _ assms(3)] assms(2) dev_invD(1) [OF assms(1)] by (simp_all add: kernel_ok_def)
  have inv1: "dev_inv m1 (d\<lparr>mutex := True\<rparr>)" using dev_inv_map_le(1) [OF assms(1) le] by simp
  note C = cb_invD [OF dev_invD(2) [OF assms(1)]]
  have e: "?e \<in> set (take ?o (entry ?b))" using assms(4) C(1,2) by (auto simp: in_set_conv_nth intro!: exI [of _ start])
  then have "?e \<in> set (entries ?b)" using low_slots(1) [OF assms(1)] by blast
  then obtain a where a: "buffptr ?e = Ref a" "0 < unat (esize ?e)" "unat (esize ?e) < 2 ^ 31"
    using dev_invD(3) [OF assms(1)] by (fastforce simp: stored_def)
  define m2 where "m2 = (\<lambda>a. if Ref a \<in> buffptr ` set (take ?o (entry ?b)) then None else m1 a)"
  obtain d2 where f: "aesd_flush m1 (d\<lparr>mutex := True\<rparr>) = Inr (m2, d2, 0)"
    using aesd_flush_spec [OF inv1] unfolding m2_def by auto
  have ent: "entry (buffer d2) = entry ?b" using f by (auto simp: aesd_flush_def)
  have io: "aesd_ioctl c m1 (d\<lparr>mutex := True\<rparr>) (AESDCHAR_FLUSH c) arg = Inr (m2, d2, 0)"
    using assms(8,9) f by (simp add: aesd_ioctl_def good_ioc_def AESDCHAR_IOC_MAXNR_def)
  have dead: "m2 a = None" using e a(1) unfolding m2_def by (metis image_eqI)
  have off: "unat (ucast off :: u32) = unat off" using assms(5) a(3) by (simp add: unat_ucast_u32)
  let ?fin = "if 0 + esize ?e < n then ucast (esize ?e) else ucast (n - 0 + off) :: u32"
  have "unat (n + off) = unat n + unat off" using assms(5,7) a(3) by (intro unat_plus_u64) simp
  then have fin: "unat ?fin = (if esize ?e < n then unat (esize ?e) else unat n + unat off)"
    using a(3) assms(5,7) by (simp add: unat_ucast_u32)
  have "0 < unat n" using assms(6) by (simp add: unat_gt_0)
  then have "0 < unat ?fin - unat off" unfolding fin using assms(5) by (simp split: if_split)
  then have copy: "copy_bytes m2 tmp tmp_buf (buffptr ?e) 0 (unat ?fin - unat off) (unat off) 0 = Inl Dangling"
    unfolding a(1) by (rule copy_bytes_dangling [of _ m2 a, OF _ dead])
  have st: "start < stop" using assms(4) C(1,2) unfolding stop read_stop_def by auto
  have "entry_at (buffer d2) start = Inr ?e"
    using ent assms(4) C(1,2) by (simp add: entry_at_def)
  moreover have "esize ?e \<noteq> 0" using a(2) by auto
  ultimately have "read_entries m2 (buffer d2) tmp tmp_buf n off stop start (unat (ucast off :: u32)) 0 = Inl Dangling"
    using st assms(6) copy unfolding off by (subst read_entries.simps) (simp add: Let_def)
  then show ?thesis using io by blast
qed

text \<open>A read of the second line of the demo device.\<close>

theorem flush_during_read_witness:
  "\<exists>m1 tmp_buf byte_offset start stop off tmp m2 d2.
    read_enter demo_env demo_mem demo_dev 4 3 = Inr (m1, tmp_buf, byte_offset, start, stop, off, tmp) \<and>
    aesd_ioctl asm_generic m1 (demo_dev\<lparr>mutex := True\<rparr>) (AESDCHAR_FLUSH asm_generic) (0, \<lparr>write_cmd = 0, write_cmd_offset = 0\<rparr>) =
      Inr (m2, d2, 0) \<and>
    read_entries m2 (buffer d2) tmp tmp_buf 4 off stop start (unat (ucast off :: u32)) 0 = Inl Dangling"
proof -
  have o: "out_offs demo_two = 0" by (simp add: demo_two_def)
  have "locate (map length (lines demo_mem demo_dev)) (unat (3 :: u64)) = Some (1, 0)" by (simp add: demo_lines)
  then have rs: "block m bo = Inr x \<Longrightarrow> read_start m bo (buffer demo_dev) 3 = Inr (1, 0)" for m bo x
    using read_start_spec [OF demo_inv, of m bo x 3 1 0] o by (simp add: MAXW_eq)
  obtain m1 t where 1: "kmalloc bump demo_mem 4 = (m1, t)" by fastforce
  obtain m2 b where 2: "kmalloc bump m1 8 = (m2, b)" by fastforce
  obtain m3 h where 3: "kmalloc bump m2 4 = (m3, h)" by fastforce
  note K1 = kmalloc_fresh [OF good_alloc_bump 1]
  have fin: "finite (dom m1)" using K1(3) dev_invD(1) [OF demo_inv] by simp
  obtain a bs where "bump m1 8 = Some (a, bs)"
    by (rule total_allocE [OF total_alloc_bump good_alloc_bump fin, of 8]) auto
  then have "block m2 b = Inr bs" using 2 by auto
  then have enter: "read_enter demo_env demo_mem demo_dev 4 3 = Inr (m3, t, b, 1, read_stop demo_two 1, 0, h)"
    using 1 2 3 rs by (simp add: read_enter_def)
  have p: "(1 :: nat) < unat (in_offs (buffer demo_dev))" "unat (0 :: u64) < unat (esize (entry (buffer demo_dev) ! 1))"
    "(4 :: u64) \<noteq> 0" "unat (4 :: u64) < 2 ^ 31"
    by (simp_all add: demo_two_def)
  have ne: "AESDCHAR_IOCSEEKTO asm_generic \<noteq> AESDCHAR_FLUSH asm_generic"
    by (simp add: asm_generic_def AESDCHAR_IOCSEEKTO_def AESDCHAR_FLUSH_def AESD_IOC_MAGIC_def)
  show ?thesis
    using flush_during_read [OF demo_inv demo_kernel_ok enter p good_asm_generic ne] enter by blast
qed

end
