(* ===== verification/Queue_Memory.thy ===== *)
theory Queue_Memory
  imports Kernel_Memory
begin

text \<open>
  The memory the LIST, STAILQ and TAILQ macros of \<open>server/queue.h\<close> work on: heads and elements
  with their link fields, pointers to pointers as slots, and the chain of elements between two
  points.
\<close>

section \<open>Heads, elements and slots\<close>

text \<open>
  A \<open>struct type **\<close> of these macros is the address of the first-field of a head or of the
  next-field of an element.
\<close>

datatype slot = First nat | Next nat

text \<open>
  The link fields of an element: \<open>le_next\<close>, \<open>stqe_next\<close> or \<open>tqe_next\<close>, and \<open>le_prev\<close> or \<open>tqe_prev\<close>;
  and those of a head: \<open>lh_first\<close>, \<open>stqh_first\<close> or \<open>tqh_first\<close>, and \<open>stqh_last\<close> or \<open>tqh_last\<close>.
  The macros touch nothing else of a structure; STAILQ has no second field in its elements and
  LIST none in its heads.
\<close>

record qcell =
  q_next :: ptr
  q_prev :: slot

record qhead =
  q_first :: ptr
  q_last :: slot

record qmem =
  cells :: "nat \<Rightarrow> qcell option"
  heads :: "nat \<Rightarrow> qhead option"

definition addr :: "ptr \<Rightarrow> nat res" where
  "addr p = (case p of Null \<Rightarrow> Inl NullDeref | Ref a \<Rightarrow> Inr a)"

definition cell_at :: "qmem \<Rightarrow> nat \<Rightarrow> qcell res" where
  "cell_at m a = (case cells m a of None \<Rightarrow> Inl Dangling | Some c \<Rightarrow> Inr c)"

definition head_at :: "qmem \<Rightarrow> nat \<Rightarrow> qhead res" where
  "head_at m h = (case heads m h of None \<Rightarrow> Inl Dangling | Some c \<Rightarrow> Inr c)"

definition get_next :: "qmem \<Rightarrow> nat \<Rightarrow> ptr res" where
  "get_next m a = bnd (cell_at m a) (\<lambda>c. Inr (q_next c))"

definition get_prev :: "qmem \<Rightarrow> nat \<Rightarrow> slot res" where
  "get_prev m a = bnd (cell_at m a) (\<lambda>c. Inr (q_prev c))"

definition get_first :: "qmem \<Rightarrow> nat \<Rightarrow> ptr res" where
  "get_first m h = bnd (head_at m h) (\<lambda>c. Inr (q_first c))"

definition get_last :: "qmem \<Rightarrow> nat \<Rightarrow> slot res" where
  "get_last m h = bnd (head_at m h) (\<lambda>c. Inr (q_last c))"

definition put_next :: "qmem \<Rightarrow> nat \<Rightarrow> ptr \<Rightarrow> qmem res" where
  "put_next m a p = bnd (cell_at m a) (\<lambda>c. Inr (m\<lparr>cells := (cells m)(a \<mapsto> c\<lparr>q_next := p\<rparr>)\<rparr>))"

definition put_prev :: "qmem \<Rightarrow> nat \<Rightarrow> slot \<Rightarrow> qmem res" where
  "put_prev m a s = bnd (cell_at m a) (\<lambda>c. Inr (m\<lparr>cells := (cells m)(a \<mapsto> c\<lparr>q_prev := s\<rparr>)\<rparr>))"

definition put_first :: "qmem \<Rightarrow> nat \<Rightarrow> ptr \<Rightarrow> qmem res" where
  "put_first m h p = bnd (head_at m h) (\<lambda>c. Inr (m\<lparr>heads := (heads m)(h \<mapsto> c\<lparr>q_first := p\<rparr>)\<rparr>))"

definition put_last :: "qmem \<Rightarrow> nat \<Rightarrow> slot \<Rightarrow> qmem res" where
  "put_last m h s = bnd (head_at m h) (\<lambda>c. Inr (m\<lparr>heads := (heads m)(h \<mapsto> c\<lparr>q_last := s\<rparr>)\<rparr>))"

text \<open>\<open>*s\<close> and \<open>*s = p\<close>.\<close>

fun read_slot :: "qmem \<Rightarrow> slot \<Rightarrow> ptr res" where
  "read_slot m (First h) = get_first m h"
| "read_slot m (Next a) = get_next m a"

fun write_slot :: "qmem \<Rightarrow> slot \<Rightarrow> ptr \<Rightarrow> qmem res" where
  "write_slot m (First h) p = put_first m h p"
| "write_slot m (Next a) p = put_next m a p"

text \<open>
  \<open>((struct headname * )s)->tqh_last\<close>: heads and the link fields of elements have the same layout,
  a pointer followed by a slot.
\<close>

fun second_of :: "qmem \<Rightarrow> slot \<Rightarrow> slot res" where
  "second_of m (First h) = get_last m h"
| "second_of m (Next a) = get_prev m a"

text \<open>From \<open>&elm->next\<close> back to \<open>elm\<close>; for the field of a head there is no such structure.\<close>

fun container :: "slot \<Rightarrow> ptr res" where
  "container (First h) = Inl OutOfBounds"
| "container (Next a) = Inr (Ref a)"

named_theorems q_simps \<open>the accesses to cells and heads that exist\<close>

lemma addr_simps [q_simps]: "addr (Ref a) = Inr a" "addr Null = Inl NullDeref"
  by (simp_all add: addr_def)

lemma cell_accesses [q_simps]:
  assumes "cells m a = Some c"
  shows "get_next m a = Inr (q_next c)" and "get_prev m a = Inr (q_prev c)"
    and "put_next m a p = Inr (m\<lparr>cells := (cells m)(a \<mapsto> c\<lparr>q_next := p\<rparr>)\<rparr>)"
    and "put_prev m a s = Inr (m\<lparr>cells := (cells m)(a \<mapsto> c\<lparr>q_prev := s\<rparr>)\<rparr>)"
  using assms by (simp_all add: get_next_def get_prev_def put_next_def put_prev_def cell_at_def)

lemma head_accesses [q_simps]:
  assumes "heads m h = Some c"
  shows "get_first m h = Inr (q_first c)" and "get_last m h = Inr (q_last c)"
    and "put_first m h p = Inr (m\<lparr>heads := (heads m)(h \<mapsto> c\<lparr>q_first := p\<rparr>)\<rparr>)"
    and "put_last m h s = Inr (m\<lparr>heads := (heads m)(h \<mapsto> c\<lparr>q_last := s\<rparr>)\<rparr>)"
  using assms by (simp_all add: get_first_def get_last_def put_first_def put_last_def head_at_def)

section \<open>Chains\<close>

text \<open>
  From the pointer \<open>p\<close>, stored at the slot \<open>s\<close>, through \<open>xs\<close> to the pointer \<open>q\<close>, stored at \<open>t\<close>.
  \<open>back\<close> says whether the elements point back.
\<close>

fun chain :: "bool \<Rightarrow> (nat \<Rightarrow> qcell option) \<Rightarrow> ptr \<Rightarrow> slot \<Rightarrow> nat list \<Rightarrow> ptr \<Rightarrow> slot \<Rightarrow> bool" where
  "chain back c p s [] q t \<longleftrightarrow> p = q \<and> s = t"
| "chain back c p s (a # as) q t \<longleftrightarrow> p = Ref a \<and>
     (\<exists>x. c a = Some x \<and> (back \<longrightarrow> q_prev x = s) \<and> chain back c (q_next x) (Next a) as q t)"

lemma chain_ConsI:
  "c a = Some x \<Longrightarrow> b \<longrightarrow> q_prev x = s \<Longrightarrow> chain b c (q_next x) (Next a) as q t \<Longrightarrow>
     chain b c (Ref a) s (a # as) q t"
  by simp

lemma chain_append:
  "chain b c p s (xs @ ys) q t \<longleftrightarrow> (\<exists>p' s'. chain b c p s xs p' s' \<and> chain b c p' s' ys q t)"
  by (induction xs arbitrary: p s) auto

lemma chain_frame: "\<forall>a \<in> set xs. c' a = c a \<Longrightarrow> chain b c p s xs q t \<Longrightarrow> chain b c' p s xs q t"
  by (induction xs arbitrary: p s) auto

lemma chain_upd: "a \<notin> set xs \<Longrightarrow> chain b (c(a := x)) p s xs q t = chain b c p s xs q t"
  by (induction xs arbitrary: p s) auto

lemma chain_cells: "chain b c p s xs q t \<Longrightarrow> a \<in> set xs \<Longrightarrow> \<exists>x. c a = Some x"
  by (induction xs arbitrary: p s) auto

lemma chain_slot: "chain b c p s xs q t \<Longrightarrow> t = (if xs = [] then s else Next (last xs))"
  by (induction xs arbitrary: p s) auto

lemma chain_first: "chain b c p s xs q t \<Longrightarrow> p = (case xs of [] \<Rightarrow> q | a # _ \<Rightarrow> Ref a)"
  by (cases xs) auto

lemma chain_unique: "chain b c p s xs Null t \<Longrightarrow> chain b c p s' ys Null t' \<Longrightarrow> xs = ys"
proof (induction xs arbitrary: p s s' ys)
  case Nil
  then show ?case by (cases ys) auto
next
  case (Cons a xs)
  then show ?case by (cases ys) auto
qed

lemma chain_any_slot: "chain False c p s xs q t \<Longrightarrow> \<exists>t'. chain False c p s' xs q t'"
  by (cases xs) auto

lemma chain_weaken: "chain b c p s xs q t \<Longrightarrow> chain False c p s xs q t"
  by (induction xs arbitrary: p s) auto

text \<open>A chain that ends in NULL has no element twice.\<close>

lemma chain_distinct: "chain b c p s xs Null t \<Longrightarrow> distinct xs"
proof (induction xs arbitrary: p s)
  case (Cons a xs)
  then obtain x where x: "p = Ref a" "c a = Some x" "chain b c (q_next x) (Next a) xs Null t" by auto
  have "a \<notin> set xs"
  proof
    assume "a \<in> set xs"
    then obtain us vs where xs: "xs = us @ a # vs" by (meson split_list)
    then obtain s' where v: "chain b c (Ref a) s' (a # vs) Null t"
      using x(3) unfolding xs chain_append by auto
    then have "a # vs = a # xs" using chain_unique Cons.prems x(1) by blast
    then show False unfolding xs by (simp add: append_eq_conv_conj)
  qed
  with Cons.IH [OF x(3)] show ?case by simp
qed simp

text \<open>Storing a pointer at the last slot of a chain redirects its end.\<close>

lemma chain_redirect:
  assumes "chain b c p s xs q t" and "distinct xs" and "xs \<noteq> []"
  shows "\<exists>x. c (last xs) = Some x \<and> t = Next (last xs) \<and> chain b (c(last xs \<mapsto> x\<lparr>q_next := r\<rparr>)) p s xs r t"
  using assms
proof (induction xs arbitrary: p s)
  case (Cons a xs)
  then obtain x where x: "p = Ref a" "c a = Some x" "b \<longrightarrow> q_prev x = s" "chain b c (q_next x) (Next a) xs q t"
    by auto
  show ?case
  proof (cases "xs = []")
    case True
    then show ?thesis using x by auto
  next
    case False
    have "distinct xs" using Cons.prems(2) by simp
    from Cons.IH [OF x(4) this False] obtain y where y: "c (last xs) = Some y" "t = Next (last xs)"
        "chain b (c(last xs \<mapsto> y\<lparr>q_next := r\<rparr>)) (q_next x) (Next a) xs r t"
      by (elim exE conjE)
    have "last xs \<noteq> a" using Cons.prems(2) False last_in_set by fastforce
    then have "(c(last xs \<mapsto> y\<lparr>q_next := r\<rparr>)) a = Some x" using x(2) by simp
    from chain_ConsI [OF this x(3) y(3)] have
      "chain b (c(last xs \<mapsto> y\<lparr>q_next := r\<rparr>)) p s (a # xs) r t" unfolding x(1) .
    moreover have "last (a # xs) = last xs" using False by simp
    ultimately show ?thesis using y(1,2) by metis
  qed
qed simp

text \<open>Storing a back pointer in the first element moves the start of a chain to another slot.\<close>

lemma chain_rehang:
  assumes "chain b c p s (a # xs) q t" and "a \<notin> set xs"
  shows "\<exists>x. c a = Some x \<and> chain b (c(a \<mapsto> x\<lparr>q_prev := s'\<rparr>)) p s' (a # xs) q t"
  using assms by (auto simp: chain_upd)

section \<open>Segments of a list with a head\<close>

definition seg :: "bool \<Rightarrow> qmem \<Rightarrow> nat \<Rightarrow> nat list \<Rightarrow> ptr \<Rightarrow> slot \<Rightarrow> bool" where
  "seg b m h xs q t \<longleftrightarrow> (\<exists>hd. heads m h = Some hd \<and> chain b (cells m) (q_first hd) (First h) xs q t)"

text \<open>What an operation leaves alone: all elements outside \<open>A\<close> and all heads outside \<open>H\<close>.\<close>

definition touches :: "nat set \<Rightarrow> nat set \<Rightarrow> qmem \<Rightarrow> qmem \<Rightarrow> bool" where
  "touches A H m m' \<longleftrightarrow> (\<forall>a. a \<notin> A \<longrightarrow> cells m' a = cells m a) \<and> (\<forall>h. h \<notin> H \<longrightarrow> heads m' h = heads m h) \<and>
     dom (cells m') = dom (cells m) \<and> dom (heads m') = dom (heads m)"

lemma touches_refl: "touches A H m m"
  by (simp add: touches_def)

lemma touches_trans: "touches A H m m' \<Longrightarrow> touches A' H' m' m'' \<Longrightarrow> touches (A \<union> A') (H \<union> H') m m''"
  by (auto simp: touches_def)

lemma touches_mono: "touches A H m m' \<Longrightarrow> A \<subseteq> A' \<Longrightarrow> H \<subseteq> H' \<Longrightarrow> touches A' H' m m'"
  by (auto simp: touches_def)

lemma chain_touches:
  "touches A H m m' \<Longrightarrow> set xs \<inter> A = {} \<Longrightarrow> chain b (cells m) p s xs q t \<Longrightarrow> chain b (cells m') p s xs q t"
  by (rule chain_frame [of xs "cells m'" "cells m"]) (auto simp: touches_def)

lemma seg_touches:
  "touches A H m m' \<Longrightarrow> set xs \<inter> A = {} \<Longrightarrow> h \<notin> H \<Longrightarrow> seg b m h xs q t \<Longrightarrow> seg b m' h xs q t"
  using chain_touches [of A H m m' xs b] by (auto simp: seg_def touches_def)

lemma touches_cell: "cells m a = Some c \<Longrightarrow> touches {a} {} m (m\<lparr>cells := (cells m)(a \<mapsto> c')\<rparr>)"
  by (auto simp: touches_def)

lemma touches_head: "heads m h = Some c \<Longrightarrow> touches {} {h} m (m\<lparr>heads := (heads m)(h \<mapsto> c')\<rparr>)"
  by (auto simp: touches_def)

text \<open>Writing through the slot at which a segment ends.\<close>

lemma seg_write:
  assumes s: "seg b m h xs q t" and d: "distinct xs"
  obtains m' where "write_slot m t p = Inr m'" and "seg b m' h xs p t" and "touches (set xs) {h} m m'"
    and "\<forall>k. map_option q_last (heads m' k) = map_option q_last (heads m k)"
proof -
  obtain hd where hd: "heads m h = Some hd" and c: "chain b (cells m) (q_first hd) (First h) xs q t"
    using s by (auto simp: seg_def)
  show thesis
  proof (cases "xs = []")
    case True
    then have t: "t = First h" using c by simp
    show thesis
      by (rule that [of "m\<lparr>heads := (heads m)(h \<mapsto> hd\<lparr>q_first := p\<rparr>)\<rparr>"])
        (use True t hd in \<open>auto simp: q_simps seg_def touches_def\<close>)
  next
    case False
    obtain x where x: "cells m (last xs) = Some x" "t = Next (last xs)"
        "chain b ((cells m)(last xs \<mapsto> x\<lparr>q_next := p\<rparr>)) (q_first hd) (First h) xs p t"
      using chain_redirect [OF c d False] by blast
    have "last xs \<in> set xs" using False by simp
    then show thesis
      by (intro that [of "m\<lparr>cells := (cells m)(last xs \<mapsto> x\<lparr>q_next := p\<rparr>)\<rparr>"])
        (use x hd in \<open>auto simp: q_simps seg_def touches_def\<close>)
  qed
qed

lemma seg_append:
  "seg b m h (xs @ ys) q t \<longleftrightarrow> (\<exists>p s. seg b m h xs p s \<and> chain b (cells m) p s ys q t)"
  unfolding seg_def chain_append by blast

lemma seg_distinct: "seg b m h xs Null t \<Longrightarrow> distinct xs"
  using chain_distinct by (auto simp: seg_def)

lemma seg_cells: "seg b m h xs q t \<Longrightarrow> set xs \<subseteq> dom (cells m)"
  using chain_cells by (fastforce simp: seg_def)

text \<open>A memory with room for a head and elements at any address.\<close>

definition raw_mem :: qmem where
  "raw_mem = \<lparr>cells = (\<lambda>_. Some \<lparr>q_next = Ref 99, q_prev = First 99\<rparr>), heads = (\<lambda>_. Some \<lparr>q_first = Ref 99, q_last = First 99\<rparr>)\<rparr>"

lemma raw_mem_dom [simp]: "dom (cells raw_mem) = UNIV" "dom (heads raw_mem) = UNIV"
  by (auto simp: raw_mem_def)

end
