(* ===== verification/Queue_Interface.thy ===== *)
theory Queue_Interface
  imports Queue_Memory
begin

text \<open>
  What the list families of \<open>queue.h\<close> promise: commands on a list of element addresses, their
  meaning on plain lists, and the contract of an implementation (\<open>linked_list\<close>, and
  \<open>two_way_list\<close> for the families that can also be walked backwards).
\<close>

section \<open>Commands and their meaning\<close>

text \<open>The first address of a binary command is the element of the list it refers to.\<close>

datatype cmd = Insert_head nat | Insert_tail nat | Insert_before nat nat | Insert_after nat nat
  | Remove nat | Remove_head | Replace nat nat

fun cmd_elems :: "cmd \<Rightarrow> nat set" where
  "cmd_elems (Insert_head a) = {a}"
| "cmd_elems (Insert_tail a) = {a}"
| "cmd_elems (Insert_before b a) = {a}"
| "cmd_elems (Insert_after b a) = {a}"
| "cmd_elems (Remove a) = {}"
| "cmd_elems Remove_head = {}"
| "cmd_elems (Replace b a) = {a}"

definition upto_elem :: "nat \<Rightarrow> nat list \<Rightarrow> nat list" where
  "upto_elem b xs = takeWhile (\<lambda>x. x \<noteq> b) xs"

definition after_elem :: "nat \<Rightarrow> nat list \<Rightarrow> nat list" where
  "after_elem b xs = tl (dropWhile (\<lambda>x. x \<noteq> b) xs)"

text \<open>The list afterwards; None when the command is not allowed on this list.\<close>

fun meaning :: "cmd \<Rightarrow> nat list \<Rightarrow> nat list option" where
  "meaning (Insert_head a) xs = (if a \<in> set xs then None else Some (a # xs))"
| "meaning (Insert_tail a) xs = (if a \<in> set xs then None else Some (xs @ [a]))"
| "meaning (Insert_before b a) xs =
     (if a \<in> set xs \<or> b \<notin> set xs then None else Some (upto_elem b xs @ a # b # after_elem b xs))"
| "meaning (Insert_after b a) xs =
     (if a \<in> set xs \<or> b \<notin> set xs then None else Some (upto_elem b xs @ b # a # after_elem b xs))"
| "meaning (Remove a) xs = (if a \<in> set xs then Some (upto_elem a xs @ after_elem a xs) else None)"
| "meaning Remove_head xs = (case xs of [] \<Rightarrow> None | x # xs \<Rightarrow> Some xs)"
| "meaning (Replace b a) xs =
     (if a \<in> set xs \<or> b \<notin> set xs then None else Some (upto_elem b xs @ a # after_elem b xs))"

fun meaning_all :: "cmd list \<Rightarrow> nat list \<Rightarrow> nat list option" where
  "meaning_all [] xs = Some xs"
| "meaning_all (c # cs) xs = (case meaning c xs of None \<Rightarrow> None | Some ys \<Rightarrow> meaning_all cs ys)"

lemma around_elem: "b \<in> set xs \<Longrightarrow> xs = upto_elem b xs @ b # after_elem b xs"
proof (induction xs)
  case (Cons x xs)
  then show ?case by (cases "x = b") (auto simp: upto_elem_def after_elem_def)
qed simp

lemma not_before: "b \<notin> set (upto_elem b xs)"
  using set_takeWhileD by (fastforce simp: upto_elem_def)

lemma after_elem_remove1: "distinct xs \<Longrightarrow> a \<in> set xs \<Longrightarrow> upto_elem a xs @ after_elem a xs = remove1 a xs"
  by (induction xs) (auto simp: upto_elem_def after_elem_def)

section \<open>The contract\<close>

locale linked_list =
  fixes rep :: "'m \<Rightarrow> nat list \<Rightarrow> bool"
    and elems :: "'m \<Rightarrow> nat set"
    and supported :: "cmd \<Rightarrow> bool"
    and exec :: "cmd \<Rightarrow> 'm \<Rightarrow> 'm res"
    and visit :: "'m \<Rightarrow> nat list res option"
  assumes exec_ok: "rep m xs \<Longrightarrow> supported c \<Longrightarrow> meaning c xs = Some ys \<Longrightarrow> cmd_elems c \<subseteq> elems m \<Longrightarrow>
      \<exists>m'. exec c m = Inr m' \<and> rep m' ys \<and> elems m' = elems m"
    and visit_ok: "rep m xs \<Longrightarrow> visit m = Some (Inr xs)"
begin

fun exec_all :: "cmd list \<Rightarrow> 'm \<Rightarrow> 'm res" where
  "exec_all [] m = Inr m"
| "exec_all (c # cs) m = bnd (exec c m) (\<lambda>m. exec_all cs m)"

lemma exec_all_ok:
  "rep m xs \<Longrightarrow> list_all supported cs \<Longrightarrow> meaning_all cs xs = Some ys \<Longrightarrow> \<forall>c \<in> set cs. cmd_elems c \<subseteq> elems m \<Longrightarrow>
    \<exists>m'. exec_all cs m = Inr m' \<and> rep m' ys \<and> elems m' = elems m"
proof (induction cs arbitrary: m xs)
  case (Cons c cs)
  then obtain zs where z: "meaning c xs = Some zs" "meaning_all cs zs = Some ys"
    by (auto split: option.splits)
  obtain m1 where m1: "exec c m = Inr m1" "rep m1 zs" "elems m1 = elems m"
    using exec_ok [OF Cons.prems(1) _ z(1)] Cons.prems(2,4) by auto
  then show ?case using Cons.IH [OF m1(2) _ z(2)] Cons.prems(2,4) by auto
qed simp

text \<open>A walk after any commands meets exactly the elements the commands mean.\<close>

lemma visit_after:
  assumes "rep m xs" and "list_all supported cs" and "meaning_all cs xs = Some ys"
    and "\<forall>c \<in> set cs. cmd_elems c \<subseteq> elems m"
  shows "\<exists>m'. exec_all cs m = Inr m' \<and> visit m' = Some (Inr ys)"
  using exec_all_ok [OF assms] visit_ok by blast

end

locale two_way_list = linked_list rep elems supported exec visit
  for rep :: "'m \<Rightarrow> nat list \<Rightarrow> bool" and elems :: "'m \<Rightarrow> nat set" and supported :: "cmd \<Rightarrow> bool"
    and exec :: "cmd \<Rightarrow> 'm \<Rightarrow> 'm res" and visit :: "'m \<Rightarrow> nat list res option" +
  fixes visit_back :: "'m \<Rightarrow> nat list res option"
  assumes visit_back_ok: "rep m xs \<Longrightarrow> visit_back m = Some (Inr (rev xs))"
begin

lemma visit_back_after:
  assumes "rep m xs" and "list_all supported cs" and "meaning_all cs xs = Some ys"
    and "\<forall>c \<in> set cs. cmd_elems c \<subseteq> elems m"
  shows "\<exists>m'. exec_all cs m = Inr m' \<and> visit m' = Some (Inr ys) \<and> visit_back m' = Some (Inr (rev ys))"
  using exec_all_ok [OF assms] visit_ok visit_back_ok by blast

end

section \<open>Walking along the next pointers\<close>

text \<open>The loops of LIST_FOREACH, STAILQ_FOREACH and TAILQ_FOREACH, with the addresses met so far.\<close>

partial_function (option) follow :: "qmem \<Rightarrow> ptr \<Rightarrow> nat list \<Rightarrow> nat list res option" where
  "follow m var met = (case var of
     Null \<Rightarrow> Some (Inr met)
   | Ref a \<Rightarrow> (case get_next m a of
       Inl e \<Rightarrow> Some (Inl e)
     | Inr n \<Rightarrow> follow m n (met @ [a])))"

text \<open>The loops of the _SAFE variants: the next pointer is read before the body runs.\<close>

partial_function (option) follow_safe :: "(qmem \<Rightarrow> nat \<Rightarrow> qmem res) \<Rightarrow> qmem \<Rightarrow> ptr \<Rightarrow> qmem res option" where
  "follow_safe body m var = (case var of
     Null \<Rightarrow> Some (Inr m)
   | Ref a \<Rightarrow> (case get_next m a of
       Inl e \<Rightarrow> Some (Inl e)
     | Inr n \<Rightarrow> (case body m a of
         Inl e \<Rightarrow> Some (Inl e)
       | Inr m \<Rightarrow> follow_safe body m n)))"

lemma follow_chain: "chain b (cells m) p s xs Null t \<Longrightarrow> follow m p met = Some (Inr (met @ xs))"
proof (induction xs arbitrary: p s met)
  case Nil
  then show ?case by (subst follow.simps) simp
next
  case (Cons a xs)
  then obtain x where "p = Ref a" "cells m a = Some x" "chain b (cells m) (q_next x) (Next a) xs Null t" by auto
  then show ?case using Cons.IH by (subst follow.simps) (simp add: q_simps)
qed

text \<open>Freeing each element in the body is safe with the _SAFE variant.\<close>

definition free_elem :: "qmem \<Rightarrow> nat \<Rightarrow> qmem res" where
  "free_elem m a = bnd (cell_at m a) (\<lambda>_. Inr (m\<lparr>cells := (cells m)(a := None)\<rparr>))"

lemma follow_safe_free:
  "chain b (cells m) p s xs Null t \<Longrightarrow>
    \<exists>m'. follow_safe free_elem m p = Some (Inr m') \<and> dom (cells m') = dom (cells m) - set xs"
proof (induction xs arbitrary: m p s)
  case Nil
  then show ?case by (subst follow_safe.simps) simp
next
  case (Cons a xs)
  then obtain x where x: "p = Ref a" "cells m a = Some x" "chain b (cells m) (q_next x) (Next a) xs Null t" by auto
  let ?m = "m\<lparr>cells := (cells m)(a := None)\<rparr>"
  have "a \<notin> set xs" using chain_distinct [OF Cons.prems] by simp
  then have "chain b (cells ?m) (q_next x) (Next a) xs Null t" using x(3) by (simp add: chain_upd)
  from Cons.IH [OF this] obtain m' where
    "follow_safe free_elem ?m (q_next x) = Some (Inr m')" "dom (cells m') = dom (cells ?m) - set xs" by blast
  moreover have "follow_safe free_elem m p = follow_safe free_elem ?m (q_next x)"
    using x by (subst follow_safe.simps) (simp add: q_simps free_elem_def cell_at_def)
  ultimately show ?case by auto
qed

end
