(* ===== verification/Queue_Slist.thy ===== *)
theory Queue_Slist
  imports Slist Queue_Interface
begin

text \<open>
  The SLIST macros of \<open>server/queue.h\<close> as an implementation of the contract of lists, with the two
  loops SLIST_FOREACH and SLIST_FOREACH_SAFE.
\<close>

section \<open>The loops\<close>

partial_function (option) slist_walk :: "'a sheap \<Rightarrow> ptr \<Rightarrow> nat list \<Rightarrow> nat list res option" where
  "slist_walk h var met = (case var of
     Null \<Rightarrow> Some (Inr met)
   | Ref a \<Rightarrow> (case SLIST_NEXT h var of
       Inl e \<Rightarrow> Some (Inl e)
     | Inr n \<Rightarrow> slist_walk h n (met @ [a])))"

definition SLIST_FOREACH :: "'a sheap \<Rightarrow> ptr \<Rightarrow> nat list res option" where
  "SLIST_FOREACH h head = slist_walk h head []"

text \<open>The next pointer is read before the body, which may change heap and head, runs.\<close>

partial_function (option) slist_walk_safe ::
  "('a sheap \<times> ptr \<Rightarrow> nat \<Rightarrow> ('a sheap \<times> ptr) res) \<Rightarrow> 'a sheap \<times> ptr \<Rightarrow> ptr \<Rightarrow> ('a sheap \<times> ptr) res option" where
  "slist_walk_safe body q var = (case var of
     Null \<Rightarrow> Some (Inr q)
   | Ref a \<Rightarrow> (case SLIST_NEXT (fst q) var of
       Inl e \<Rightarrow> Some (Inl e)
     | Inr tvar \<Rightarrow> (case body q a of
         Inl e \<Rightarrow> Some (Inl e)
       | Inr q \<Rightarrow> slist_walk_safe body q tvar)))"

definition SLIST_FOREACH_SAFE ::
  "('a sheap \<times> ptr \<Rightarrow> nat \<Rightarrow> ('a sheap \<times> ptr) res) \<Rightarrow> 'a sheap \<times> ptr \<Rightarrow> ('a sheap \<times> ptr) res option" where
  "SLIST_FOREACH_SAFE body q = slist_walk_safe body q (SLIST_FIRST (snd q))"

lemma slist_walk_list: "slist h p xs \<Longrightarrow> slist_walk h p met = Some (Inr (met @ xs))"
proof (induction xs arbitrary: p met)
  case Nil
  then show ?case by (subst slist_walk.simps) simp
next
  case (Cons a xs)
  then obtain c where "p = Ref a" "h a = Some c" "slist h (sle_next c) xs" by auto
  then show ?case using Cons.IH by (subst slist_walk.simps) simp
qed

lemma slist_foreach: "slist h p xs \<Longrightarrow> SLIST_FOREACH h p = Some (Inr xs)"
  by (simp add: SLIST_FOREACH_def slist_walk_list)

text \<open>Taking out and freeing each element in the body is safe with the _SAFE variant.\<close>

definition take_out :: "'a sheap \<times> ptr \<Rightarrow> nat \<Rightarrow> ('a sheap \<times> ptr) res" where
  "take_out q a = bnd (SLIST_REMOVE (fst q) (snd q) (Ref a)) (\<lambda>(h, head). Inr (h(a := None), head))"

lemma slist_take_out:
  "slist h p xs \<Longrightarrow> \<exists>h'. slist_walk_safe take_out (h, p) p = Some (Inr (h', Null)) \<and> dom h' = dom h - set xs"
proof (induction xs arbitrary: h p)
  case Nil
  then show ?case by (subst slist_walk_safe.simps) simp
next
  case (Cons a xs)
  then obtain c where c: "p = Ref a" "h a = Some c" "slist h (sle_next c) xs" by auto
  have "a \<notin> set xs" using slist_distinct [OF Cons.prems] by simp
  then have "slist (h(a := None)) (sle_next c) xs" using c(3) by (simp add: slist_frame)
  then obtain h' where
    "slist_walk_safe take_out (h(a := None), sle_next c) (sle_next c) = Some (Inr (h', Null))"
    "dom h' = dom (h(a := None)) - set xs" using Cons.IH by blast
  moreover have "slist_walk_safe take_out (h, p) p = slist_walk_safe take_out (h(a := None), sle_next c) (sle_next c)"
    using c by (subst slist_walk_safe.simps) (simp add: take_out_def SLIST_REMOVE_def SLIST_REMOVE_HEAD_def)
  ultimately show ?case by auto
qed

section \<open>The other macros on lists\<close>

lemma slist_insert_after:
  assumes xs: "slist h p (us @ b # vs)" and a: "h a = Some c" "a \<notin> set (us @ b # vs)"
  shows "\<exists>h'. SLIST_INSERT_AFTER h (Ref b) (Ref a) = Inr h' \<and> slist h' p (us @ b # a # vs) \<and> dom h' = dom h"
proof -
  obtain cb where b: "h b = Some cb" using slist_cells [OF xs] by auto
  have ne: "a \<noteq> b" using a(2) by auto
  let ?h = "h(a \<mapsto> c\<lparr>sle_next := sle_next cb\<rparr>, b \<mapsto> cb\<lparr>sle_next := Ref a\<rparr>)"
  have "SLIST_INSERT_AFTER h (Ref b) (Ref a) = Inr ?h"
    using a b ne by (simp add: SLIST_INSERT_AFTER_def)
  moreover have "slist ?h p (us @ b # a # vs)"
    using xs a b slist_distinct [OF xs]
  proof (induction us arbitrary: p)
    case Nil
    then have v: "slist h (sle_next cb) vs" "a \<notin> set vs" "b \<notin> set vs" by auto
    then have "slist ?h (sle_next cb) vs" by (simp add: slist_frame)
    moreover have "?h a = Some (c\<lparr>sle_next := sle_next cb\<rparr>)" "?h b = Some (cb\<lparr>sle_next := Ref a\<rparr>)" "p = Ref b"
      using ne Nil by simp_all
    ultimately show ?case by (simp del: fun_upd_apply)
  next
    case (Cons x us)
    then have x: "x \<noteq> a" "x \<noteq> b" by auto
    obtain cx where cx: "p = Ref x" "h x = Some cx" "slist h (sle_next cx) (us @ b # vs)" using Cons.prems(1) by auto
    have "slist ?h (sle_next cx) (us @ b # a # vs)" by (rule Cons.IH [OF cx(3)]) (use Cons.prems in auto)
    moreover have "?h x = Some cx" using cx(2) x by simp
    ultimately show ?case using cx(1) by (simp del: fun_upd_apply)
  qed
  moreover have "dom ?h = dom h" using a b by auto
  ultimately show ?thesis by blast
qed

text \<open>\<open>SLIST_REMOVE_AFTER\<close> takes out the element behind the given one, and faults at the end of the list.\<close>

lemma slist_remove_after:
  assumes xs: "slist h p (us @ b # a # vs)"
  shows "\<exists>h'. SLIST_REMOVE_AFTER h (Ref b) = Inr h' \<and> slist h' p (us @ b # vs) \<and> dom h' = dom h"
proof -
  obtain ca cb where c: "h a = Some ca" "h b = Some cb" using slist_cells [OF xs] by fastforce
  have n: "sle_next cb = Ref a" using slist_split [of h p "us @ [b]" a vs] xs c by auto
  have "slist (h(last (us @ [b]) \<mapsto> cb\<lparr>sle_next := sle_next ca\<rparr>)) p ((us @ [b]) @ vs)"
    by (rule slist_unlink) (use xs c in auto)
  moreover have "SLIST_REMOVE_AFTER h (Ref b) = Inr (h(b \<mapsto> cb\<lparr>sle_next := sle_next ca\<rparr>))"
    using c n by (simp add: SLIST_REMOVE_AFTER_def)
  moreover have "dom (h(b \<mapsto> cb\<lparr>sle_next := sle_next ca\<rparr>)) = dom h" using c by auto
  ultimately show ?thesis by simp
qed

lemma slist_remove_after_last:
  assumes "slist h p (us @ [b])"
  shows "SLIST_REMOVE_AFTER h (Ref b) = Inl NullDeref"
proof -
  have "slist h (Ref b) [b]" by (rule slist_append [OF assms])
  then show ?thesis by (auto simp: SLIST_REMOVE_AFTER_def)
qed

section \<open>The contract\<close>

fun slist_supported :: "cmd \<Rightarrow> bool" where
  "slist_supported (Insert_head a) \<longleftrightarrow> True"
| "slist_supported (Insert_after b a) \<longleftrightarrow> True"
| "slist_supported (Remove a) \<longleftrightarrow> True"
| "slist_supported Remove_head \<longleftrightarrow> True"
| "slist_supported _ \<longleftrightarrow> False"

fun slist_exec :: "cmd \<Rightarrow> 'a sheap \<times> ptr \<Rightarrow> ('a sheap \<times> ptr) res" where
  "slist_exec (Insert_head a) (h, head) = SLIST_INSERT_HEAD h head (Ref a)"
| "slist_exec (Insert_after b a) (h, head) = bnd (SLIST_INSERT_AFTER h (Ref b) (Ref a)) (\<lambda>h. Inr (h, head))"
| "slist_exec (Remove a) (h, head) = SLIST_REMOVE h head (Ref a)"
| "slist_exec Remove_head (h, head) = bnd (SLIST_REMOVE_HEAD h head) (\<lambda>head. Inr (h, head))"
| "slist_exec c q = Inl Uninitialised"

lemma slist_exec_ok:
  assumes rep: "slist h head xs" and sup: "slist_supported c" and mean: "meaning c xs = Some ys"
    and el: "cmd_elems c \<subseteq> dom h"
  shows "\<exists>h' head'. slist_exec c (h, head) = Inr (h', head') \<and> slist h' head' ys \<and> dom h' = dom h"
proof (cases c)
  case (Insert_head a)
  then obtain x where a: "h a = Some x" "a \<notin> set xs" "ys = a # xs" using mean el by (auto split: if_splits)
  have "dom (h(a \<mapsto> x\<lparr>sle_next := head\<rparr>)) = dom h" using a(1) by auto
  then show ?thesis using insert_head_slist [OF rep a(1,2)] Insert_head a(3) by auto
next
  case (Insert_after b a)
  then obtain x where b: "b \<in> set xs" "a \<notin> set xs" "ys = upto_elem b xs @ b # a # after_elem b xs" "h a = Some x"
    using mean el by (auto split: if_splits)
  have "slist h head (upto_elem b xs @ b # after_elem b xs)" using rep around_elem [OF b(1)] by simp
  moreover have "a \<notin> set (upto_elem b xs @ b # after_elem b xs)" using b(2) around_elem [OF b(1)] by metis
  ultimately show ?thesis using slist_insert_after [of h head "upto_elem b xs" b "after_elem b xs" a x] b(3,4) Insert_after by auto
next
  case (Remove a)
  then have b: "a \<in> set xs" "ys = remove1 a xs"
    using mean after_elem_remove1 [OF slist_distinct [OF rep]] by (auto split: if_splits)
  then show ?thesis using remove_slist [OF rep b(1)] Remove by auto
next
  case Remove_head
  then obtain x where "xs = x # ys" using mean by (auto split: list.splits)
  then show ?thesis using remove_head_slist [of h head x ys] rep Remove_head by auto
qed (use sup in auto)

interpretation slinked: linked_list table_rep "\<lambda>q. dom (fst q)" slist_supported slist_exec "\<lambda>q. SLIST_FOREACH (fst q) (snd q)"
proof unfold_locales
  fix q :: "'a sheap \<times> ptr" and xs c ys
  obtain h head where q: "q = (h, head)" by (cases q)
  assume "table_rep q xs" "slist_supported c" "meaning c xs = Some ys" "cmd_elems c \<subseteq> dom (fst q)"
  then show "\<exists>q'. slist_exec c q = Inr q' \<and> table_rep q' ys \<and> dom (fst q') = dom (fst q)"
    using slist_exec_ok [of h head xs c ys] unfolding q by auto
next
  show "SLIST_FOREACH (fst q) (snd q) = Some (Inr xs)" if "table_rep q xs" for q :: "'a sheap \<times> ptr" and xs
    using that by (cases q) (auto intro: slist_foreach)
qed

section \<open>Properties\<close>

text \<open>
  C36. The SLIST macros implement lists: after \<open>SLIST_INIT\<close> and any sequence of insertions (at the
  head and after an element) and removals that makes sense on plain lists, no macro has faulted
  and every search has ended; \<open>SLIST_FOREACH\<close> meets exactly the elements of the resulting list in
  order; taking out and freeing each element in \<open>SLIST_FOREACH_SAFE\<close> leaves the empty list and
  every other cell; and \<open>SLIST_SWAP\<close> with another list exchanges the two.
\<close>

theorem slist_macros_refine:
  fixes h :: "'a sheap"
  assumes "list_all slist_supported cs" and "meaning_all cs [] = Some ys"
    and "\<forall>c \<in> set cs. cmd_elems c \<subseteq> dom h"
  shows "\<exists>h' head h''. linked_list.exec_all slist_exec cs (h, SLIST_INIT) = Inr (h', head) \<and>
    SLIST_FOREACH h' head = Some (Inr ys) \<and> (SLIST_EMPTY head \<longleftrightarrow> ys = []) \<and>
    SLIST_FOREACH_SAFE take_out (h', head) = Some (Inr (h'', Null)) \<and> dom h'' = dom h - set ys \<and>
    (\<forall>head2 zs. slist h' head2 zs \<longrightarrow>
       slist h' (fst (SLIST_SWAP head head2)) zs \<and> slist h' (snd (SLIST_SWAP head head2)) ys)"
proof -
  have "table_rep (h, SLIST_INIT) []" by (simp add: SLIST_INIT_def)
  then obtain q where q: "linked_list.exec_all slist_exec cs (h, SLIST_INIT) = Inr q" "table_rep q ys" "dom (fst q) = dom h"
    using slinked.exec_all_ok [OF _ assms(1,2), of "(h, SLIST_INIT)"] assms(3) by auto
  obtain h' head where e: "q = (h', head)" by (cases q)
  have s: "slist h' head ys" using q(2) unfolding e by simp
  obtain h'' where "slist_walk_safe take_out (h', head) head = Some (Inr (h'', Null))" "dom h'' = dom h' - set ys"
    using slist_take_out [OF s] by blast
  moreover have "SLIST_EMPTY head \<longleftrightarrow> ys = []" using s by (cases ys) (auto simp: SLIST_EMPTY_def)
  ultimately show ?thesis
    using q(1,3) s slist_foreach [OF s] unfolding e
    by (auto simp: SLIST_FOREACH_SAFE_def SLIST_FIRST_def SLIST_SWAP_def)
qed

text \<open>Four commands on the three cells.\<close>

theorem slist_macros_refine_witness:
  "\<exists>h' head. linked_list.exec_all slist_exec [Insert_head 1, Insert_head 3, Insert_after 3 2, Remove 3]
      (three_cells, SLIST_INIT) = Inr (h', head) \<and> SLIST_FOREACH h' head = Some (Inr [2, 1])"
proof -
  let ?cs = "[Insert_head 1, Insert_head 3, Insert_after 3 2, Remove 3]"
  have "list_all slist_supported ?cs" "\<forall>c \<in> set ?cs. cmd_elems c \<subseteq> dom three_cells"
    by (simp_all add: three_cells_def)
  moreover have "meaning_all ?cs [] = Some [2, 1]" by (simp add: upto_elem_def after_elem_def)
  ultimately show ?thesis using slist_macros_refine [of ?cs "[2, 1]" three_cells] by blast
qed

end
