(* ===== verification/Queue_List.thy ===== *)
theory Queue_List
  imports Queue_Interface
begin

text \<open>The LIST macros of \<open>server/queue.h\<close>: doubly-linked lists whose
  elements point back to the slot before them. \<open>LIST_PREV\<close> is not modelled: it is written with
  \<open>__containerof\<close>, which the program does not define, so no use of it compiles.\<close>

section \<open>The macros\<close>

definition LIST_INIT :: "qmem \<Rightarrow> nat \<Rightarrow> qmem res" where
  "LIST_INIT m head = put_first m head Null"

text \<open>The static initialiser of the one field of a head.\<close>

definition LIST_HEAD_INITIALIZER :: ptr where
  "LIST_HEAD_INITIALIZER = Null"

lemma LIST_INIT_static: "LIST_INIT m head = put_first m head LIST_HEAD_INITIALIZER"
  by (simp add: LIST_INIT_def LIST_HEAD_INITIALIZER_def)

definition LIST_INSERT_HEAD :: "qmem \<Rightarrow> nat \<Rightarrow> nat \<Rightarrow> qmem res" where
  "LIST_INSERT_HEAD m head elm =
     bnd (get_first m head) (\<lambda>f.
     bnd (put_next m elm f) (\<lambda>m.
     bnd (if f \<noteq> Null then bnd (addr f) (\<lambda>b. put_prev m b (Next elm)) else Inr m) (\<lambda>m.
     bnd (put_first m head (Ref elm)) (\<lambda>m. put_prev m elm (First head)))))"

definition LIST_INSERT_BEFORE :: "qmem \<Rightarrow> nat \<Rightarrow> nat \<Rightarrow> qmem res" where
  "LIST_INSERT_BEFORE m listelm elm =
     bnd (get_prev m listelm) (\<lambda>s.
     bnd (put_prev m elm s) (\<lambda>m.
     bnd (put_next m elm (Ref listelm)) (\<lambda>m.
     bnd (get_prev m listelm) (\<lambda>s.
     bnd (write_slot m s (Ref elm)) (\<lambda>m. put_prev m listelm (Next elm))))))"

definition LIST_INSERT_AFTER :: "qmem \<Rightarrow> nat \<Rightarrow> nat \<Rightarrow> qmem res" where
  "LIST_INSERT_AFTER m listelm elm =
     bnd (get_next m listelm) (\<lambda>n.
     bnd (put_next m elm n) (\<lambda>m.
     bnd (if n \<noteq> Null
          then bnd (get_next m listelm) (\<lambda>n. bnd (addr n) (\<lambda>b. put_prev m b (Next elm)))
          else Inr m) (\<lambda>m.
     bnd (put_next m listelm (Ref elm)) (\<lambda>m. put_prev m elm (Next listelm)))))"

definition LIST_REMOVE :: "qmem \<Rightarrow> nat \<Rightarrow> qmem res" where
  "LIST_REMOVE m elm =
     bnd (get_next m elm) (\<lambda>n.
     bnd (if n \<noteq> Null then bnd (get_prev m elm) (\<lambda>s. bnd (addr n) (\<lambda>b. put_prev m b s)) else Inr m) (\<lambda>m.
     bnd (get_prev m elm) (\<lambda>s.
     bnd (get_next m elm) (\<lambda>n. write_slot m s n))))"

definition LIST_REPLACE :: "qmem \<Rightarrow> nat \<Rightarrow> nat \<Rightarrow> qmem res" where
  "LIST_REPLACE m elm elm2 =
     bnd (get_next m elm) (\<lambda>n.
     bnd (put_next m elm2 n) (\<lambda>m.
     bnd (if n \<noteq> Null then bnd (addr n) (\<lambda>b. put_prev m b (Next elm2)) else Inr m) (\<lambda>m.
     bnd (get_prev m elm) (\<lambda>s.
     bnd (put_prev m elm2 s) (\<lambda>m.
     bnd (get_prev m elm2) (\<lambda>s. write_slot m s (Ref elm2)))))))"

definition LIST_SWAP :: "qmem \<Rightarrow> nat \<Rightarrow> nat \<Rightarrow> qmem res" where
  "LIST_SWAP m head1 head2 =
     bnd (get_first m head1) (\<lambda>f1.
     bnd (get_first m head2) (\<lambda>f2.
     bnd (put_first m head1 f2) (\<lambda>m.
     bnd (put_first m head2 f1) (\<lambda>m.
     bnd (get_first m head1) (\<lambda>f.
     bnd (if f \<noteq> Null then bnd (addr f) (\<lambda>b. put_prev m b (First head1)) else Inr m) (\<lambda>m.
     bnd (get_first m head2) (\<lambda>f.
       if f \<noteq> Null then bnd (addr f) (\<lambda>b. put_prev m b (First head2)) else Inr m)))))))"

definition LIST_FIRST :: "qmem \<Rightarrow> nat \<Rightarrow> ptr res" where
  "LIST_FIRST m head = get_first m head"

definition LIST_NEXT :: "qmem \<Rightarrow> nat \<Rightarrow> ptr res" where
  "LIST_NEXT m elm = get_next m elm"

definition LIST_EMPTY :: "qmem \<Rightarrow> nat \<Rightarrow> bool res" where
  "LIST_EMPTY m head = bnd (get_first m head) (\<lambda>f. Inr (f = Null))"

definition LIST_FOREACH :: "qmem \<Rightarrow> nat \<Rightarrow> nat list res option" where
  "LIST_FOREACH m head = (case get_first m head of Inl e \<Rightarrow> Some (Inl e) | Inr f \<Rightarrow> follow m f [])"

definition LIST_FOREACH_SAFE :: "(qmem \<Rightarrow> nat \<Rightarrow> qmem res) \<Rightarrow> qmem \<Rightarrow> nat \<Rightarrow> qmem res option" where
  "LIST_FOREACH_SAFE body m head =
     (case LIST_FIRST m head of Inl e \<Rightarrow> Some (Inl e) | Inr f \<Rightarrow> follow_safe body m f)"

section \<open>What they do to a list\<close>

definition list_rep :: "nat \<Rightarrow> qmem \<Rightarrow> nat list \<Rightarrow> bool" where
  "list_rep h m xs \<longleftrightarrow> (\<exists>t. seg True m h xs Null t)"

lemma list_insert_head:
  assumes "list_rep h m xs" and "a \<notin> set xs" and "a \<in> dom (cells m)"
  shows "\<exists>m'. LIST_INSERT_HEAD m h a = Inr m' \<and> list_rep h m' (a # xs) \<and> touches (insert a (set xs)) {h} m m'"
proof -
  obtain c where c: "cells m a = Some c" using assms(3) by auto
  obtain hd t where hd: "heads m h = Some hd" "chain True (cells m) (q_first hd) (First h) xs Null t"
    using assms(1) by (auto simp: list_rep_def seg_def)
  show ?thesis
  proof (cases xs)
    case Nil
    then show ?thesis using c hd
      by (auto simp: LIST_INSERT_HEAD_def q_simps list_rep_def seg_def touches_def)
  next
    case (Cons b ys)
    have d: "distinct xs" using chain_distinct [OF hd(2)] .
    obtain x where x: "q_first hd = Ref b" "cells m b = Some x" using hd(2) Cons by auto
    then show ?thesis using c hd Cons d assms(2)
      by (auto simp: LIST_INSERT_HEAD_def q_simps list_rep_def seg_def touches_def chain_upd)
  qed
qed

text \<open>A list cut at one of its elements.\<close>

lemma list_cut:
  assumes "list_rep h m (us @ b # vs)"
  obtains s x t where "seg True m h us (Ref b) s" and "cells m b = Some x" and "q_prev x = s"
    and "chain True (cells m) (q_next x) (Next b) vs Null t" and "distinct (us @ b # vs)"
  using assms seg_distinct [of True m h "us @ b # vs"] unfolding list_rep_def seg_append by auto

lemma list_paste:
  assumes "seg True m h us p s" and "chain True (cells m) p s vs Null t"
  shows "list_rep h m (us @ vs)"
  using assms unfolding list_rep_def seg_append by blast

lemma list_insert_before:
  assumes "list_rep h m (us @ b # vs)" and "a \<notin> set (us @ b # vs)" and "cells m a = Some c"
  shows "\<exists>m'. LIST_INSERT_BEFORE m b a = Inr m' \<and> list_rep h m' (us @ a # b # vs) \<and>
    touches (insert a (set (us @ b # vs))) {h} m m'"
proof -
  obtain s x t where s: "seg True m h us (Ref b) s" and x: "cells m b = Some x" "q_prev x = s"
      and v: "chain True (cells m) (q_next x) (Next b) vs Null t" and d: "distinct (us @ b # vs)"
    by (rule list_cut [OF assms(1)])
  let ?m = "m\<lparr>cells := (cells m)(a \<mapsto> c\<lparr>q_prev := s, q_next := Ref b\<rparr>)\<rparr>"
  have t1: "touches {a} {} m ?m" using assms(3) by (rule touches_cell)
  have g: "seg True ?m h us (Ref b) s" using seg_touches [OF t1 _ _ s] assms(2) by simp
  have du: "distinct us" using d by simp
  obtain m2 where w: "write_slot ?m s (Ref a) = Inr m2" "seg True m2 h us (Ref a) s" "touches (set us) {h} ?m m2"
    by (rule seg_write [OF g du])
  have x2: "cells m2 b = Some x" and a2: "cells m2 a = Some (c\<lparr>q_prev := s, q_next := Ref b\<rparr>)"
    using w(3) x d assms(2) by (auto simp: touches_def)
  let ?m3 = "m2\<lparr>cells := (cells m2)(b \<mapsto> x\<lparr>q_prev := Next a\<rparr>)\<rparr>"
  have t3: "touches {b} {} m2 ?m3" using x2 by (rule touches_cell)
  have t13: "touches (insert a (set us)) {h} m m2" using touches_trans [OF t1 w(3)] by simp
  have "chain True (cells m2) (q_next x) (Next b) vs Null t"
    by (rule chain_touches [OF t13 _ v]) (use assms(2) d in auto)
  then have "chain True (cells ?m3) (Ref a) s (a # b # vs) Null t"
    using a2 x2 d assms(2) by (auto simp: chain_upd)
  moreover have "seg True ?m3 h us (Ref a) s" using seg_touches [OF t3 _ _ w(2)] d by auto
  ultimately have "list_rep h ?m3 (us @ a # b # vs)" by (intro list_paste)
  moreover have "LIST_INSERT_BEFORE m b a = Inr ?m3"
    using assms(2,3) x x2 w(1) by (simp add: LIST_INSERT_BEFORE_def q_simps)
  moreover have "touches (insert a (set (us @ b # vs))) {h} m ?m3"
    by (rule touches_mono [OF touches_trans [OF t13 t3]]) auto
  ultimately show ?thesis by blast
qed

lemma list_insert_after:
  assumes "list_rep h m (us @ b # vs)" and "a \<notin> set (us @ b # vs)" and "cells m a = Some c"
  shows "\<exists>m'. LIST_INSERT_AFTER m b a = Inr m' \<and> list_rep h m' (us @ b # a # vs) \<and>
    touches (insert a (set (us @ b # vs))) {h} m m'"
proof -
  obtain s x t where s: "seg True m h us (Ref b) s" and x: "cells m b = Some x" "q_prev x = s"
      and v: "chain True (cells m) (q_next x) (Next b) vs Null t" and d: "distinct (us @ b # vs)"
    by (rule list_cut [OF assms(1)])
  have ab: "a \<noteq> b" "b \<noteq> a" using assms(2) by auto
  obtain m' where r: "LIST_INSERT_AFTER m b a = Inr m'"
      and t': "touches (insert a (set (b # vs))) {} m m'"
      and c': "\<exists>t. chain True (cells m') (Ref b) s (b # a # vs) Null t"
  proof (cases vs)
    case Nil
    then show thesis
      by (intro that [of "m\<lparr>cells := (cells m)(a \<mapsto> c\<lparr>q_next := Null, q_prev := Next b\<rparr>, b \<mapsto> x\<lparr>q_next := Ref a\<rparr>)\<rparr>"])
        (use x v assms(3) ab in \<open>auto simp: LIST_INSERT_AFTER_def q_simps touches_def fun_upd_twist\<close>)
  next
    case (Cons y ys)
    then obtain cy where cy: "cells m y = Some cy" "q_next x = Ref y" using v by auto
    have yn: "y \<noteq> a" "y \<noteq> b" "y \<notin> set ys" "a \<notin> set ys" "b \<notin> set ys" using d assms(2) Cons by auto
    let ?m = "m\<lparr>cells := (cells m)(a \<mapsto> c\<lparr>q_next := Ref y, q_prev := Next b\<rparr>, y \<mapsto> cy\<lparr>q_prev := Next a\<rparr>,
        b \<mapsto> x\<lparr>q_next := Ref a\<rparr>)\<rparr>"
    show thesis
      by (rule that [of ?m])
        (use x v assms(3) ab cy yn Cons in \<open>auto simp: LIST_INSERT_AFTER_def q_simps touches_def chain_upd fun_upd_twist\<close>)
  qed
  have "seg True m' h us (Ref b) s" using seg_touches [OF t' _ _ s] d assms(2) by auto
  then have "list_rep h m' (us @ b # a # vs)" using c' list_paste by blast
  moreover have "touches (insert a (set (us @ b # vs))) {h} m m'" by (rule touches_mono [OF t']) auto
  ultimately show ?thesis using r by blast
qed

lemma list_remove:
  assumes "list_rep h m (us @ a # vs)"
  shows "\<exists>m'. LIST_REMOVE m a = Inr m' \<and> list_rep h m' (us @ vs) \<and> touches (set (us @ vs)) {h} m m'"
proof -
  obtain s x t where s: "seg True m h us (Ref a) s" and x: "cells m a = Some x" "q_prev x = s"
      and v: "chain True (cells m) (q_next x) (Next a) vs Null t" and d: "distinct (us @ a # vs)"
    by (rule list_cut [OF assms(1)])
  obtain m1 where m1: "(if q_next x \<noteq> Null then bnd (addr (q_next x)) (\<lambda>b. put_prev m b s) else Inr m) = Inr m1"
      and t1: "touches (set vs) {} m m1" and v1: "\<exists>t. chain True (cells m1) (q_next x) s vs Null t"
  proof (cases vs)
    case Nil
    then show thesis using v by (intro that [of m]) (auto simp: touches_refl)
  next
    case (Cons y ys)
    then obtain cy where cy: "cells m y = Some cy" "q_next x = Ref y" using v by auto
    have "y \<notin> set ys" using d Cons by auto
    then show thesis using v cy Cons
      by (intro that [of "m\<lparr>cells := (cells m)(y \<mapsto> cy\<lparr>q_prev := s\<rparr>)\<rparr>"])
        (auto simp: q_simps touches_def chain_upd)
  qed
  have x1: "cells m1 a = Some x" using t1 x d by (auto simp: touches_def)
  have g: "seg True m1 h us (Ref a) s" using seg_touches [OF t1 _ _ s] d by auto
  have du: "distinct us" using d by simp
  obtain m2 where w: "write_slot m1 s (q_next x) = Inr m2" "seg True m2 h us (q_next x) s" "touches (set us) {h} m1 m2"
    by (rule seg_write [OF g du])
  have di: "set vs \<inter> set us = {}" using d by auto
  have "\<exists>t. chain True (cells m2) (q_next x) s vs Null t" using v1 chain_touches [OF w(3) di] by blast
  then have "list_rep h m2 (us @ vs)" using list_paste [OF w(2)] by blast
  moreover have "LIST_REMOVE m a = Inr m2" using x x1 m1 w(1)
    by (cases "q_next x") (simp_all add: LIST_REMOVE_def q_simps)
  moreover have "touches (set (us @ vs)) {h} m m2" by (rule touches_mono [OF touches_trans [OF t1 w(3)]]) auto
  ultimately show ?thesis by blast
qed

lemma list_replace:
  assumes "list_rep h m (us @ a # vs)" and "b \<notin> set (us @ a # vs)" and "cells m b = Some c"
  shows "\<exists>m'. LIST_REPLACE m a b = Inr m' \<and> list_rep h m' (us @ b # vs) \<and> touches (insert b (set (us @ vs))) {h} m m'"
proof -
  obtain s x t where s: "seg True m h us (Ref a) s" and x: "cells m a = Some x" "q_prev x = s"
      and v: "chain True (cells m) (q_next x) (Next a) vs Null t" and d: "distinct (us @ a # vs)"
    by (rule list_cut [OF assms(1)])
  have ab: "a \<noteq> b" "b \<noteq> a" using assms(2) by auto
  let ?c = "c\<lparr>q_next := q_next x, q_prev := s\<rparr>"
  let ?link = "\<lambda>m. if q_next x \<noteq> Null then bnd (addr (q_next x)) (\<lambda>y. put_prev m y (Next b)) else Inr m"
  obtain m1 m1' where m1: "?link (m\<lparr>cells := (cells m)(b \<mapsto> c\<lparr>q_next := q_next x\<rparr>)\<rparr>) = Inr m1"
      and m1': "put_prev m1 b s = Inr m1'" "cells m1' b = Some ?c" "cells m1 a = Some x"
      and t1: "touches (insert b (set vs)) {} m m1'" and v1: "\<exists>t. chain True (cells m1') (Ref b) s (b # vs) Null t"
  proof (cases vs)
    case Nil
    then show thesis using v assms(3) x ab
      by (intro that [of "m\<lparr>cells := (cells m)(b \<mapsto> c\<lparr>q_next := q_next x\<rparr>)\<rparr>" "m\<lparr>cells := (cells m)(b \<mapsto> ?c)\<rparr>"])
        (auto simp: touches_def q_simps)
  next
    case (Cons y ys)
    then obtain cy where cy: "cells m y = Some cy" "q_next x = Ref y" using v by auto
    have yn: "y \<notin> set ys" "b \<notin> set ys" "y \<noteq> b" "b \<noteq> y" "y \<noteq> a" "a \<noteq> y" using d Cons assms(2) by auto
    show thesis using v cy Cons yn ab x assms(3)
      by (intro that [of "m\<lparr>cells := (cells m)(b \<mapsto> c\<lparr>q_next := q_next x\<rparr>, y \<mapsto> cy\<lparr>q_prev := Next b\<rparr>)\<rparr>"
            "m\<lparr>cells := (cells m)(b \<mapsto> ?c, y \<mapsto> cy\<lparr>q_prev := Next b\<rparr>)\<rparr>"])
        (auto simp: q_simps touches_def chain_upd fun_upd_twist)
  qed
  have g: "seg True m1' h us (Ref a) s" using seg_touches [OF t1 _ _ s] d assms(2) by auto
  have du: "distinct us" using d by simp
  obtain m2 where w: "write_slot m1' s (Ref b) = Inr m2" "seg True m2 h us (Ref b) s" "touches (set us) {h} m1' m2"
    by (rule seg_write [OF g du])
  have di: "set (b # vs) \<inter> set us = {}" using d assms(2) by auto
  have "\<exists>t. chain True (cells m2) (Ref b) s (b # vs) Null t"
    using v1 chain_touches [OF w(3) di] by blast
  then have "list_rep h m2 (us @ b # vs)" using list_paste [OF w(2)] by blast
  moreover have "LIST_REPLACE m a b = Inr m2"
    using x m1 m1' w(1) assms(3) by (cases "q_next x") (simp_all add: LIST_REPLACE_def q_simps)
  moreover have "touches (insert b (set (us @ vs))) {h} m m2" by (rule touches_mono [OF touches_trans [OF t1 w(3)]]) auto
  ultimately show ?thesis by blast
qed

section \<open>Walking, going back and swapping\<close>

lemma list_foreach: "list_rep h m xs \<Longrightarrow> LIST_FOREACH m h = Some (Inr xs)"
  by (auto simp: list_rep_def seg_def LIST_FOREACH_def q_simps follow_chain)

lemma list_foreach_safe_free:
  "list_rep h m xs \<Longrightarrow> \<exists>m'. LIST_FOREACH_SAFE free_elem m h = Some (Inr m') \<and> dom (cells m') = dom (cells m) - set xs"
  using follow_safe_free by (auto simp: list_rep_def seg_def LIST_FOREACH_SAFE_def LIST_FIRST_def q_simps)

lemma list_le_prev:
  assumes "list_rep h m (us @ a # vs)"
  shows "get_prev m a = Inr (if us = [] then First h else Next (last us))"
proof -
  obtain s x where s: "seg True m h us (Ref a) s" and x: "cells m a = Some x" "q_prev x = s"
    by (rule list_cut [OF assms])
  have "s = (if us = [] then First h else Next (last us))" using s chain_slot by (fastforce simp: seg_def)
  then show ?thesis using x by (simp add: q_simps)
qed

text \<open>A non-empty list moves to another head when its first element is pointed there.\<close>

lemma list_swap:
  assumes "list_rep h m xs" and "list_rep k m ys" and "h \<noteq> k" and dis: "set xs \<inter> set ys = {}"
  shows "\<exists>m'. LIST_SWAP m h k = Inr m' \<and> list_rep h m' ys \<and> list_rep k m' xs"
proof -
  obtain p t where p: "heads m h = Some p" "chain True (cells m) (q_first p) (First h) xs Null t"
    using assms(1) by (auto simp: list_rep_def seg_def)
  obtain q u where q: "heads m k = Some q" "chain True (cells m) (q_first q) (First k) ys Null u"
    using assms(2) by (auto simp: list_rep_def seg_def)
  have d: "distinct xs" "distinct ys" using chain_distinct p(2) q(2) by blast+
  note f = LIST_SWAP_def q_simps list_rep_def seg_def chain_upd
  show ?thesis
  proof (cases xs)
    case Nil
    show ?thesis
    proof (cases ys)
      case Nil
      then show ?thesis using \<open>xs = []\<close> p q assms(3) by (simp add: f)
    next
      case (Cons b bs)
      then show ?thesis using \<open>xs = []\<close> p q assms(3) d by (auto simp: f)
    qed
  next
    case (Cons a as)
    note xs = this
    show ?thesis
    proof (cases ys)
      case Nil
      then show ?thesis using xs p q assms(3) d by (auto simp: f)
    next
      case (Cons b bs)
      have n: "a \<noteq> b" "b \<noteq> a" "a \<notin> set as" "a \<notin> set bs" "b \<notin> set as" "b \<notin> set bs"
        using dis d xs Cons by auto
      obtain x where x: "q_first p = Ref a" "cells m a = Some x" "chain True (cells m) (q_next x) (Next a) as Null t"
        using p(2) xs by auto
      obtain y where y: "q_first q = Ref b" "cells m b = Some y" "chain True (cells m) (q_next y) (Next b) bs Null u"
        using q(2) Cons by auto
      show ?thesis using xs Cons p(1) q(1) x y n assms(3) by (auto simp: f)
    qed
  qed
qed

section \<open>The contract\<close>

fun list_supported :: "cmd \<Rightarrow> bool" where
  "list_supported (Insert_tail a) \<longleftrightarrow> False"
| "list_supported Remove_head \<longleftrightarrow> False"
| "list_supported _ \<longleftrightarrow> True"

fun list_exec :: "nat \<Rightarrow> cmd \<Rightarrow> qmem \<Rightarrow> qmem res" where
  "list_exec h (Insert_head a) m = LIST_INSERT_HEAD m h a"
| "list_exec h (Insert_before b a) m = LIST_INSERT_BEFORE m b a"
| "list_exec h (Insert_after b a) m = LIST_INSERT_AFTER m b a"
| "list_exec h (Remove a) m = LIST_REMOVE m a"
| "list_exec h (Replace b a) m = LIST_REPLACE m b a"
| "list_exec h c m = Inl Uninitialised"

lemma list_exec_ok:
  assumes rep: "list_rep h m xs" and sup: "list_supported c" and mean: "meaning c xs = Some ys"
    and el: "cmd_elems c \<subseteq> dom (cells m)"
  shows "\<exists>m'. list_exec h c m = Inr m' \<and> list_rep h m' ys \<and> dom (cells m') = dom (cells m)"
proof -
  have "\<exists>m' A. list_exec h c m = Inr m' \<and> list_rep h m' ys \<and> touches A {h} m m'"
  proof (cases c)
    case (Insert_head a)
    then show ?thesis using list_insert_head [OF rep, of a] mean el by (auto split: if_splits)
  next
    case (Insert_before b a)
    then have b: "b \<in> set xs" "a \<notin> set xs" "ys = upto_elem b xs @ a # b # after_elem b xs"
      using mean by (auto split: if_splits)
    note xs = around_elem [OF b(1)]
    obtain c where "cells m a = Some c" using el Insert_before by auto
    then show ?thesis using list_insert_before [of h m _ b _ a] rep b xs Insert_before by (metis list_exec.simps(2))
  next
    case (Insert_after b a)
    then have b: "b \<in> set xs" "a \<notin> set xs" "ys = upto_elem b xs @ b # a # after_elem b xs"
      using mean by (auto split: if_splits)
    note xs = around_elem [OF b(1)]
    obtain c where "cells m a = Some c" using el Insert_after by auto
    then show ?thesis using list_insert_after [of h m _ b _ a] rep b xs Insert_after by (metis list_exec.simps(3))
  next
    case (Remove a)
    then have b: "a \<in> set xs" "ys = upto_elem a xs @ after_elem a xs" using mean by (auto split: if_splits)
    then show ?thesis using list_remove [of h m _ a] rep around_elem [OF b(1)] Remove by (metis list_exec.simps(4))
  next
    case (Replace b a)
    then have b: "b \<in> set xs" "a \<notin> set xs" "ys = upto_elem b xs @ a # after_elem b xs"
      using mean by (auto split: if_splits)
    note xs = around_elem [OF b(1)]
    obtain c where "cells m a = Some c" using el Replace by auto
    then show ?thesis using list_replace [of h m _ b _ a] rep b xs Replace by (metis list_exec.simps(5))
  qed (use sup in auto)
  then show ?thesis by (auto simp: touches_def)
qed

interpretation dlist: linked_list "list_rep h" "\<lambda>m. dom (cells m)" list_supported "list_exec h" "\<lambda>m. LIST_FOREACH m h" for h
  by unfold_locales (auto intro: list_exec_ok list_foreach)

lemma list_init: "h \<in> dom (heads m) \<Longrightarrow> \<exists>m0. LIST_INIT m h = Inr m0 \<and> list_rep h m0 [] \<and> cells m0 = cells m"
  by (auto simp: LIST_INIT_def q_simps list_rep_def seg_def)

section \<open>Properties\<close>

text \<open>
  C37. The LIST macros implement lists: after \<open>LIST_INIT\<close> and any sequence of insertions (at the
  head, before and after an element), removals and replacements that makes sense on plain lists,
  no macro has faulted, \<open>LIST_FOREACH\<close> meets exactly the elements of the resulting list in
  order, the field \<open>le_prev\<close> of each element holds the address of the link that points to it, and
  the list can be freed with \<open>LIST_FOREACH_SAFE\<close>.
\<close>

theorem list_macros_refine:
  assumes "h \<in> dom (heads m)" and "list_all list_supported cs" and "meaning_all cs [] = Some ys"
    and "\<forall>c \<in> set cs. cmd_elems c \<subseteq> dom (cells m)"
  shows "\<exists>m0 m' m''. LIST_INIT m h = Inr m0 \<and> linked_list.exec_all (list_exec h) cs m0 = Inr m' \<and>
    LIST_FOREACH m' h = Some (Inr ys) \<and>
    (\<forall>i < length ys. get_prev m' (ys ! i) = Inr (if i = 0 then First h else Next (ys ! (i - 1)))) \<and>
    LIST_FOREACH_SAFE free_elem m' h = Some (Inr m'') \<and> dom (cells m'') = dom (cells m) - set ys"
proof -
  obtain m0 where m0: "LIST_INIT m h = Inr m0" "list_rep h m0 []" "cells m0 = cells m"
    using list_init [OF assms(1)] by blast
  obtain m' where m': "linked_list.exec_all (list_exec h) cs m0 = Inr m'" "list_rep h m' ys" "dom (cells m') = dom (cells m0)"
    using dlist.exec_all_ok [OF m0(2) assms(2,3)] assms(4) m0(3) by auto
  have "get_prev m' (ys ! i) = Inr (if i = 0 then First h else Next (ys ! (i - 1)))" if i: "i < length ys" for i
  proof -
    have "list_rep h m' (take i ys @ ys ! i # drop (Suc i) ys)" using m'(2) id_take_nth_drop [OF i] by simp
    moreover have "i \<noteq> 0 \<Longrightarrow> last (take i ys) = ys ! (i - 1)" using i by (cases i) (auto simp: take_Suc_conv_app_nth)
    ultimately show ?thesis using list_le_prev [of h m' "take i ys" "ys ! i"] i by auto
  qed
  moreover obtain m'' where "LIST_FOREACH_SAFE free_elem m' h = Some (Inr m'')" "dom (cells m'') = dom (cells m) - set ys"
    using list_foreach_safe_free [OF m'(2)] m'(3) m0(3) by auto
  ultimately show ?thesis using m0(1) m'(1) list_foreach [OF m'(2)] by blast
qed

theorem list_macros_refine_witness:
  "\<exists>m0 m'. LIST_INIT raw_mem 0 = Inr m0 \<and>
    linked_list.exec_all (list_exec 0) [Insert_head 1, Insert_after 1 2, Insert_before 2 3, Replace 1 4, Remove 2] m0 = Inr m' \<and>
    LIST_FOREACH m' 0 = Some (Inr [4, 3]) \<and> get_prev m' 3 = Inr (Next 4)"
proof -
  let ?cs = "[Insert_head 1, Insert_after 1 2, Insert_before 2 3, Replace 1 4, Remove 2]"
  have h: "0 \<in> dom (heads raw_mem)" "list_all list_supported ?cs" "\<forall>c \<in> set ?cs. cmd_elems c \<subseteq> dom (cells raw_mem)"
    by simp_all
  have m: "meaning_all ?cs [] = Some [4, 3]" by (simp add: upto_elem_def after_elem_def)
  from list_macros_refine [OF h(1,2) m h(3)] show ?thesis by fastforce
qed

end
