(* ===== verification/Queue_Stailq.thy ===== *)
theory Queue_Stailq
  imports Queue_Interface
begin

text \<open>
  The STAILQ macros of \<open>server/queue.h\<close>: singly-linked lists whose head knows the slot at the end.
  The first section is shared with the TAILQ macros.
\<close>

section \<open>Lists whose head knows the last slot\<close>

text \<open>\<open>b\<close> says whether elements point back.\<close>

definition tail_rep :: "bool \<Rightarrow> nat \<Rightarrow> qmem \<Rightarrow> nat list \<Rightarrow> bool" where
  "tail_rep b h m xs \<longleftrightarrow> (\<exists>hd. heads m h = Some hd \<and>
     chain b (cells m) (q_first hd) (First h) xs Null (q_last hd))"

lemma tail_rep_distinct: "tail_rep b h m xs \<Longrightarrow> distinct xs"
  using chain_distinct by (auto simp: tail_rep_def)

lemma tail_last:
  "tail_rep b h m xs \<Longrightarrow> get_last m h = Inr (if xs = [] then First h else Next (last xs))"
  using chain_slot by (fastforce simp: tail_rep_def q_simps)

lemma tail_cut:
  assumes "tail_rep b h m (us @ a # vs)"
  obtains s x hd where "seg b m h us (Ref a) s" and "cells m a = Some x" and "b \<longrightarrow> q_prev x = s"
    and "heads m h = Some hd" and "chain b (cells m) (q_next x) (Next a) vs Null (q_last hd)"
    and "distinct (us @ a # vs)"
  using assms tail_rep_distinct [OF assms] by (auto simp: tail_rep_def seg_def chain_append)

lemma tail_paste:
  assumes "seg b m h us p s" and "chain b (cells m) p s vs Null l" and "map_option q_last (heads m h) = Some l"
  shows "tail_rep b h m (us @ vs)"
  using assms by (fastforce simp: tail_rep_def seg_def chain_append)

lemma tail_touches:
  "touches A H m m' \<Longrightarrow> set xs \<inter> A = {} \<Longrightarrow> h \<notin> H \<Longrightarrow> tail_rep b h m xs \<Longrightarrow> tail_rep b h m' xs"
  using chain_touches [of A H m m' xs b] by (auto simp: tail_rep_def touches_def)

lemma tail_end:
  assumes "tail_rep b h m xs"
  obtains hd where "heads m h = Some hd" and "seg b m h xs Null (q_last hd)"
  using assms by (auto simp: tail_rep_def seg_def)

section \<open>The macros\<close>

definition STAILQ_INIT :: "qmem \<Rightarrow> nat \<Rightarrow> qmem res" where
  "STAILQ_INIT m head = bnd (put_first m head Null) (\<lambda>m. put_last m head (First head))"

text \<open>The static initialiser of a head, and that initialising at run time makes the same head.\<close>

definition STAILQ_HEAD_INITIALIZER :: "nat \<Rightarrow> qhead" where
  "STAILQ_HEAD_INITIALIZER head = \<lparr>q_first = Null, q_last = First head\<rparr>"

lemma STAILQ_INIT_static:
  "heads m head = Some h \<Longrightarrow> STAILQ_INIT m head = Inr (m\<lparr>heads := (heads m)(head \<mapsto> STAILQ_HEAD_INITIALIZER head)\<rparr>)"
  by (cases h) (simp add: STAILQ_INIT_def STAILQ_HEAD_INITIALIZER_def put_first_def put_last_def head_at_def)

definition STAILQ_FIRST :: "qmem \<Rightarrow> nat \<Rightarrow> ptr res" where
  "STAILQ_FIRST m head = get_first m head"

definition STAILQ_NEXT :: "qmem \<Rightarrow> nat \<Rightarrow> ptr res" where
  "STAILQ_NEXT m elm = get_next m elm"

definition STAILQ_EMPTY :: "qmem \<Rightarrow> nat \<Rightarrow> bool res" where
  "STAILQ_EMPTY m head = bnd (get_first m head) (\<lambda>f. Inr (f = Null))"

definition STAILQ_LAST :: "qmem \<Rightarrow> nat \<Rightarrow> ptr res" where
  "STAILQ_LAST m head =
     bnd (STAILQ_EMPTY m head) (\<lambda>e. if e then Inr Null else bnd (get_last m head) container)"

definition STAILQ_INSERT_HEAD :: "qmem \<Rightarrow> nat \<Rightarrow> nat \<Rightarrow> qmem res" where
  "STAILQ_INSERT_HEAD m head elm =
     bnd (get_first m head) (\<lambda>f.
     bnd (put_next m elm f) (\<lambda>m.
     bnd (if f = Null then put_last m head (Next elm) else Inr m) (\<lambda>m. put_first m head (Ref elm))))"

definition STAILQ_INSERT_AFTER :: "qmem \<Rightarrow> nat \<Rightarrow> nat \<Rightarrow> nat \<Rightarrow> qmem res" where
  "STAILQ_INSERT_AFTER m head listelm elm =
     bnd (get_next m listelm) (\<lambda>n.
     bnd (put_next m elm n) (\<lambda>m.
     bnd (if n = Null then put_last m head (Next elm) else Inr m) (\<lambda>m. put_next m listelm (Ref elm))))"

definition STAILQ_INSERT_TAIL :: "qmem \<Rightarrow> nat \<Rightarrow> nat \<Rightarrow> qmem res" where
  "STAILQ_INSERT_TAIL m head elm =
     bnd (put_next m elm Null) (\<lambda>m.
     bnd (get_last m head) (\<lambda>s.
     bnd (write_slot m s (Ref elm)) (\<lambda>m. put_last m head (Next elm))))"

definition STAILQ_CONCAT :: "qmem \<Rightarrow> nat \<Rightarrow> nat \<Rightarrow> qmem res" where
  "STAILQ_CONCAT m head1 head2 =
     bnd (STAILQ_EMPTY m head2) (\<lambda>e.
       if e then Inr m
       else
         bnd (get_last m head1) (\<lambda>s.
         bnd (get_first m head2) (\<lambda>f.
         bnd (write_slot m s f) (\<lambda>m.
         bnd (get_last m head2) (\<lambda>l.
         bnd (put_last m head1 l) (\<lambda>m. STAILQ_INIT m head2))))))"

definition STAILQ_REMOVE_HEAD :: "qmem \<Rightarrow> nat \<Rightarrow> qmem res" where
  "STAILQ_REMOVE_HEAD m head =
     bnd (get_first m head) (\<lambda>f.
     bnd (addr f) (\<lambda>a.
     bnd (get_next m a) (\<lambda>n.
     bnd (put_first m head n) (\<lambda>m. if n = Null then put_last m head (First head) else Inr m))))"

definition STAILQ_REMOVE_HEAD_UNTIL :: "qmem \<Rightarrow> nat \<Rightarrow> nat \<Rightarrow> qmem res" where
  "STAILQ_REMOVE_HEAD_UNTIL m head elm =
     bnd (STAILQ_NEXT m elm) (\<lambda>n.
     bnd (put_first m head n) (\<lambda>m. if n = Null then put_last m head (First head) else Inr m))"

definition STAILQ_REMOVE_AFTER :: "qmem \<Rightarrow> nat \<Rightarrow> nat \<Rightarrow> qmem res" where
  "STAILQ_REMOVE_AFTER m head elm =
     bnd (STAILQ_NEXT m elm) (\<lambda>n.
     bnd (addr n) (\<lambda>a.
     bnd (STAILQ_NEXT m a) (\<lambda>nn.
     bnd (put_next m elm nn) (\<lambda>m. if nn = Null then put_last m head (Next elm) else Inr m))))"

text \<open>The search of \<open>STAILQ_REMOVE\<close>.\<close>

partial_function (option) stailq_find :: "qmem \<Rightarrow> ptr \<Rightarrow> nat \<Rightarrow> nat res option" where
  "stailq_find m curelm elm = (case curelm of
     Null \<Rightarrow> Some (Inl NullDeref)
   | Ref a \<Rightarrow> (case get_next m a of
       Inl e \<Rightarrow> Some (Inl e)
     | Inr n \<Rightarrow> if n \<noteq> Ref elm then stailq_find m n elm else Some (Inr a)))"

definition STAILQ_REMOVE :: "qmem \<Rightarrow> nat \<Rightarrow> nat \<Rightarrow> qmem res" where
  "STAILQ_REMOVE m head elm =
     bnd (get_first m head) (\<lambda>f.
       if f = Ref elm then STAILQ_REMOVE_HEAD m head
       else (case stailq_find m f elm of
           None \<Rightarrow> Inl Diverges
         | Some r \<Rightarrow> bnd r (\<lambda>curelm.
             bnd (get_next m curelm) (\<lambda>n.
             bnd (addr n) (\<lambda>a.
             bnd (get_next m a) (\<lambda>nn.
             bnd (put_next m curelm nn) (\<lambda>m.
               if nn = Null then put_last m head (Next curelm) else Inr m)))))))"

definition STAILQ_SWAP :: "qmem \<Rightarrow> nat \<Rightarrow> nat \<Rightarrow> qmem res" where
  "STAILQ_SWAP m head1 head2 =
     bnd (get_first m head1) (\<lambda>f1.
     bnd (get_last m head1) (\<lambda>l1.
     bnd (get_first m head2) (\<lambda>f2.
     bnd (put_first m head1 f2) (\<lambda>m.
     bnd (get_last m head2) (\<lambda>l2.
     bnd (put_last m head1 l2) (\<lambda>m.
     bnd (put_first m head2 f1) (\<lambda>m.
     bnd (put_last m head2 l1) (\<lambda>m.
     bnd (STAILQ_EMPTY m head1) (\<lambda>e.
     bnd (if e then put_last m head1 (First head1) else Inr m) (\<lambda>m.
     bnd (STAILQ_EMPTY m head2) (\<lambda>e.
       if e then put_last m head2 (First head2) else Inr m)))))))))))"

definition STAILQ_FOREACH :: "qmem \<Rightarrow> nat \<Rightarrow> nat list res option" where
  "STAILQ_FOREACH m head = (case get_first m head of Inl e \<Rightarrow> Some (Inl e) | Inr f \<Rightarrow> follow m f [])"

definition STAILQ_FOREACH_SAFE :: "(qmem \<Rightarrow> nat \<Rightarrow> qmem res) \<Rightarrow> qmem \<Rightarrow> nat \<Rightarrow> qmem res option" where
  "STAILQ_FOREACH_SAFE body m head =
     (case STAILQ_FIRST m head of Inl e \<Rightarrow> Some (Inl e) | Inr f \<Rightarrow> follow_safe body m f)"

section \<open>What they do to a list\<close>

abbreviation stailq_rep :: "nat \<Rightarrow> qmem \<Rightarrow> nat list \<Rightarrow> bool" where
  "stailq_rep \<equiv> tail_rep False"

lemma stailq_init: "h \<in> dom (heads m) \<Longrightarrow> \<exists>m0. STAILQ_INIT m h = Inr m0 \<and> stailq_rep h m0 [] \<and> cells m0 = cells m"
  by (auto simp: STAILQ_INIT_def q_simps tail_rep_def)

lemma stailq_insert_head:
  assumes "stailq_rep h m xs" and "a \<notin> set xs" and "cells m a = Some c"
  shows "\<exists>m'. STAILQ_INSERT_HEAD m h a = Inr m' \<and> stailq_rep h m' (a # xs) \<and> touches (insert a (set xs)) {h} m m'"
  using assms
  by (cases xs) (auto simp: STAILQ_INSERT_HEAD_def q_simps tail_rep_def touches_def chain_upd)

lemma stailq_insert_tail:
  assumes "stailq_rep h m xs" and "a \<notin> set xs" and "cells m a = Some c"
  shows "\<exists>m'. STAILQ_INSERT_TAIL m h a = Inr m' \<and> stailq_rep h m' (xs @ [a]) \<and> touches (insert a (set xs)) {h} m m'"
proof -
  obtain hd where hd: "heads m h = Some hd" and s: "seg False m h xs Null (q_last hd)"
    by (rule tail_end [OF assms(1)])
  let ?m = "m\<lparr>cells := (cells m)(a \<mapsto> c\<lparr>q_next := Null\<rparr>)\<rparr>"
  have t1: "touches {a} {} m ?m" using assms(3) by (rule touches_cell)
  have g: "seg False ?m h xs Null (q_last hd)" using seg_touches [OF t1 _ _ s] assms(2) by simp
  obtain m2 where w: "write_slot ?m (q_last hd) (Ref a) = Inr m2" "seg False m2 h xs (Ref a) (q_last hd)"
      "touches (set xs) {h} ?m m2"
    by (rule seg_write [OF g tail_rep_distinct [OF assms(1)]])
  obtain k where k: "heads m2 h = Some k" using w(2) by (auto simp: seg_def)
  let ?m3 = "m2\<lparr>heads := (heads m2)(h \<mapsto> k\<lparr>q_last := Next a\<rparr>)\<rparr>"
  have a2: "cells m2 a = Some (c\<lparr>q_next := Null\<rparr>)" using w(3) assms(2) by (auto simp: touches_def)
  have "STAILQ_INSERT_TAIL m h a = Inr ?m3" using w(1) hd k assms(3) by (simp add: STAILQ_INSERT_TAIL_def q_simps)
  moreover have "tail_rep False h ?m3 (xs @ [a])"
    by (rule tail_paste [of False _ _ xs "Ref a" "q_last hd" "[a]" "Next a"]) (use w(2) k a2 in \<open>auto simp: seg_def\<close>)
  moreover have "touches (insert a (set xs)) {h} m ?m3"
    by (rule touches_mono [OF touches_trans [OF touches_trans [OF t1 w(3)] touches_head [OF k]]]) auto
  ultimately show ?thesis by blast
qed

lemma stailq_insert_after:
  assumes "stailq_rep h m (us @ b # vs)" and "a \<notin> set (us @ b # vs)" and "cells m a = Some c"
  shows "\<exists>m'. STAILQ_INSERT_AFTER m h b a = Inr m' \<and> stailq_rep h m' (us @ b # a # vs) \<and>
    touches (insert a (set (us @ b # vs))) {h} m m'"
proof -
  obtain s x hd where s: "seg False m h us (Ref b) s" and x: "cells m b = Some x" and hd: "heads m h = Some hd"
      and v: "chain False (cells m) (q_next x) (Next b) vs Null (q_last hd)" and d: "distinct (us @ b # vs)"
    by (rule tail_cut [OF assms(1)])
  have n: "a \<noteq> b" "b \<noteq> a" "a \<notin> set us" "b \<notin> set us" "a \<notin> set vs" "b \<notin> set vs" using d assms(2) by auto
  let ?m = "m\<lparr>cells := (cells m)(a \<mapsto> c\<lparr>q_next := q_next x\<rparr>, b \<mapsto> x\<lparr>q_next := Ref a\<rparr>),
      heads := (heads m)(h \<mapsto> if q_next x = Null then hd\<lparr>q_last := Next a\<rparr> else hd)\<rparr>"
  have "STAILQ_INSERT_AFTER m h b a = Inr ?m"
    using x hd n assms(3) by (simp add: STAILQ_INSERT_AFTER_def q_simps fun_upd_idem)
  moreover have "stailq_rep h ?m (us @ b # a # vs)"
  proof (rule tail_paste)
    show "seg False ?m h us (Ref b) s" using s hd n by (auto simp: seg_def chain_upd)
    show "chain False (cells ?m) (Ref b) s (b # a # vs) Null (if q_next x = Null then Next a else q_last hd)"
      using v n by (cases vs) (auto simp: chain_upd)
  qed simp
  moreover have "touches (insert a (set (us @ b # vs))) {h} m ?m"
    using x hd assms(3) by (auto simp: touches_def)
  ultimately show ?thesis by blast
qed

text \<open>Without back pointers a chain does not depend on the slot that points to it.\<close>

lemma chain_reslot: "xs \<noteq> [] \<Longrightarrow> chain False c p s xs q t \<Longrightarrow> chain False c p s' xs q t"
  by (cases xs) auto

lemma stailq_remove_head:
  assumes "stailq_rep h m (a # xs)"
  shows "\<exists>m'. STAILQ_REMOVE_HEAD m h = Inr m' \<and> stailq_rep h m' xs \<and> touches {} {h} m m'"
proof -
  obtain hd x where hd: "heads m h = Some hd" "q_first hd = Ref a" "cells m a = Some x"
      "chain False (cells m) (q_next x) (Next a) xs Null (q_last hd)"
    using assms by (auto simp: tail_rep_def)
  show ?thesis
  proof (cases xs)
    case Nil
    then show ?thesis using hd by (auto simp: STAILQ_REMOVE_HEAD_def q_simps tail_rep_def touches_def)
  next
    case (Cons b ys)
    then show ?thesis using hd by (auto simp: STAILQ_REMOVE_HEAD_def q_simps tail_rep_def touches_def)
  qed
qed

lemma stailq_remove_head_until:
  assumes "stailq_rep h m (us @ a # vs)"
  shows "\<exists>m'. STAILQ_REMOVE_HEAD_UNTIL m h a = Inr m' \<and> stailq_rep h m' vs \<and> touches {} {h} m m'"
proof -
  obtain s x hd where x: "cells m a = Some x" and hd: "heads m h = Some hd"
      and v: "chain False (cells m) (q_next x) (Next a) vs Null (q_last hd)"
    by (rule tail_cut [OF assms])
  then show ?thesis
    by (cases vs) (auto simp: STAILQ_REMOVE_HEAD_UNTIL_def STAILQ_NEXT_def q_simps tail_rep_def touches_def)
qed

lemma stailq_remove_after:
  assumes "stailq_rep h m (us @ b # a # vs)"
  shows "\<exists>m'. STAILQ_REMOVE_AFTER m h b = Inr m' \<and> stailq_rep h m' (us @ b # vs) \<and> touches {b} {h} m m'"
proof -
  obtain s x hd where s: "seg False m h us (Ref b) s" and x: "cells m b = Some x" and hd: "heads m h = Some hd"
      and v: "chain False (cells m) (q_next x) (Next b) (a # vs) Null (q_last hd)" and d: "distinct (us @ b # a # vs)"
    by (rule tail_cut [OF assms])
  obtain y where y: "q_next x = Ref a" "cells m a = Some y" "chain False (cells m) (q_next y) (Next a) vs Null (q_last hd)"
    using v by auto
  have n: "b \<notin> set us" "b \<notin> set vs" "a \<noteq> b" using d by auto
  let ?m = "m\<lparr>cells := (cells m)(b \<mapsto> x\<lparr>q_next := q_next y\<rparr>),
      heads := (heads m)(h \<mapsto> if q_next y = Null then hd\<lparr>q_last := Next b\<rparr> else hd)\<rparr>"
  have "STAILQ_REMOVE_AFTER m h b = Inr ?m"
    using x y hd n by (simp add: STAILQ_REMOVE_AFTER_def STAILQ_NEXT_def q_simps fun_upd_idem)
  moreover have "stailq_rep h ?m (us @ b # vs)"
  proof (rule tail_paste)
    show "seg False ?m h us (Ref b) s" using s hd n by (auto simp: seg_def chain_upd)
    show "chain False (cells ?m) (Ref b) s (b # vs) Null (if q_next y = Null then Next b else q_last hd)"
      using y n by (cases vs) (auto simp: chain_upd)
  qed simp
  moreover have "touches {b} {h} m ?m" using x hd by (auto simp: touches_def)
  ultimately show ?thesis by blast
qed

lemma stailq_find_pred:
  "chain b (cells m) p s (us @ c # a # vs) q t \<Longrightarrow> a \<notin> set (us @ [c]) \<Longrightarrow> stailq_find m p a = Some (Inr c)"
proof (induction us arbitrary: p s)
  case Nil
  then show ?case by (subst stailq_find.simps) (auto simp: q_simps)
next
  case (Cons u us)
  then obtain x where x: "p = Ref u" "cells m u = Some x" "chain b (cells m) (q_next x) (Next u) (us @ c # a # vs) q t"
    by auto
  have "q_next x \<noteq> Ref a" using x(3) Cons.prems(2) by (cases us) auto
  then show ?case using Cons.IH [OF x(3)] Cons.prems(2) x by (subst stailq_find.simps) (simp add: q_simps)
qed

lemma stailq_remove:
  assumes rep: "stailq_rep h m (us @ a # vs)"
  shows "\<exists>m' A. STAILQ_REMOVE m h a = Inr m' \<and> stailq_rep h m' (us @ vs) \<and> touches A {h} m m'"
proof -
  obtain hd where hd: "heads m h = Some hd" and c: "chain False (cells m) (q_first hd) (First h) (us @ a # vs) Null (q_last hd)"
    using rep by (auto simp: tail_rep_def)
  have d: "distinct (us @ a # vs)" using tail_rep_distinct [OF rep] .
  show ?thesis
  proof (cases us rule: rev_cases)
    case Nil
    then have "STAILQ_REMOVE m h a = STAILQ_REMOVE_HEAD m h" using hd c by (simp add: STAILQ_REMOVE_def q_simps)
    then show ?thesis using stailq_remove_head [of h m a vs] rep Nil by auto
  next
    case (snoc ws b)
    have "q_first hd \<noteq> Ref a" using c d snoc by (cases ws) auto
    moreover have "stailq_find m (q_first hd) a = Some (Inr b)"
      using stailq_find_pred [of False m _ _ ws b a vs] c d snoc by auto
    ultimately have "STAILQ_REMOVE m h a = STAILQ_REMOVE_AFTER m h b"
      using hd by (simp add: STAILQ_REMOVE_def STAILQ_REMOVE_AFTER_def STAILQ_NEXT_def q_simps)
    then show ?thesis using stailq_remove_after [of h m ws b a vs] rep snoc by auto
  qed
qed

lemma stailq_concat:
  assumes "stailq_rep h m xs" and "stailq_rep k m ys" and "h \<noteq> k" and "set xs \<inter> set ys = {}"
  shows "\<exists>m'. STAILQ_CONCAT m h k = Inr m' \<and> stailq_rep h m' (xs @ ys) \<and> stailq_rep k m' []"
proof (cases ys)
  case Nil
  then show ?thesis using assms
    by (auto simp: STAILQ_CONCAT_def STAILQ_EMPTY_def q_simps tail_rep_def)
next
  case (Cons y zs)
  obtain hd where hd: "heads m h = Some hd" and s: "seg False m h xs Null (q_last hd)" by (rule tail_end [OF assms(1)])
  obtain kd where kd: "heads m k = Some kd" "chain False (cells m) (q_first kd) (First k) ys Null (q_last kd)"
    using assms(2) by (auto simp: tail_rep_def)
  have ne: "q_first kd \<noteq> Null" using kd(2) Cons by auto
  obtain m2 where w: "write_slot m (q_last hd) (q_first kd) = Inr m2" "seg False m2 h xs (q_first kd) (q_last hd)"
      "touches (set xs) {h} m m2"
    by (rule seg_write [OF s tail_rep_distinct [OF assms(1)]])
  obtain h2 where h2: "heads m2 h = Some h2" using w(2) by (auto simp: seg_def)
  have k2: "heads m2 k = Some kd" using w(3) kd(1) assms(3) by (auto simp: touches_def)
  have y2: "chain False (cells m2) (q_first kd) (q_last hd) ys Null (q_last kd)"
    using chain_reslot [OF _ chain_touches [OF w(3) _ kd(2)]] assms(4) Cons by auto
  let ?m = "m2\<lparr>heads := (heads m2)(h \<mapsto> h2\<lparr>q_last := q_last kd\<rparr>, k \<mapsto> kd\<lparr>q_first := Null, q_last := First k\<rparr>)\<rparr>"
  have "STAILQ_CONCAT m h k = Inr ?m"
    using hd kd ne w(1) h2 k2 assms(3)
    by (simp add: STAILQ_CONCAT_def STAILQ_EMPTY_def STAILQ_INIT_def q_simps)
  moreover have "stailq_rep h ?m (xs @ ys)"
    by (rule tail_paste [of False _ _ xs "q_first kd" "q_last hd" _ "q_last kd"])
      (use w(2) y2 h2 assms(3) in \<open>auto simp: seg_def\<close>)
  moreover have "stailq_rep k ?m []" by (simp add: tail_rep_def)
  ultimately show ?thesis by blast
qed

lemma stailq_swap:
  assumes "stailq_rep h m xs" and "stailq_rep k m ys" and "h \<noteq> k"
  shows "\<exists>m'. STAILQ_SWAP m h k = Inr m' \<and> stailq_rep h m' ys \<and> stailq_rep k m' xs"
  using assms
  by (cases xs; cases ys) (auto simp: STAILQ_SWAP_def STAILQ_EMPTY_def q_simps tail_rep_def)

lemma stailq_foreach: "stailq_rep h m xs \<Longrightarrow> STAILQ_FOREACH m h = Some (Inr xs)"
  by (auto simp: tail_rep_def STAILQ_FOREACH_def q_simps follow_chain)

lemma stailq_foreach_safe_free:
  "stailq_rep h m xs \<Longrightarrow> \<exists>m'. STAILQ_FOREACH_SAFE free_elem m h = Some (Inr m') \<and> dom (cells m') = dom (cells m) - set xs"
  using follow_safe_free by (auto simp: tail_rep_def STAILQ_FOREACH_SAFE_def STAILQ_FIRST_def q_simps)

lemma stailq_last: "stailq_rep h m xs \<Longrightarrow> STAILQ_LAST m h = Inr (if xs = [] then Null else Ref (last xs))"
  using tail_last [of False h m xs] by (cases xs) (auto simp: STAILQ_LAST_def STAILQ_EMPTY_def tail_rep_def q_simps)

section \<open>The contract\<close>

fun stailq_supported :: "cmd \<Rightarrow> bool" where
  "stailq_supported (Insert_before b a) \<longleftrightarrow> False"
| "stailq_supported (Replace b a) \<longleftrightarrow> False"
| "stailq_supported _ \<longleftrightarrow> True"

fun stailq_exec :: "nat \<Rightarrow> cmd \<Rightarrow> qmem \<Rightarrow> qmem res" where
  "stailq_exec h (Insert_head a) m = STAILQ_INSERT_HEAD m h a"
| "stailq_exec h (Insert_tail a) m = STAILQ_INSERT_TAIL m h a"
| "stailq_exec h (Insert_after b a) m = STAILQ_INSERT_AFTER m h b a"
| "stailq_exec h (Remove a) m = STAILQ_REMOVE m h a"
| "stailq_exec h Remove_head m = STAILQ_REMOVE_HEAD m h"
| "stailq_exec h c m = Inl Uninitialised"

lemma stailq_exec_ok:
  assumes rep: "stailq_rep h m xs" and sup: "stailq_supported c" and mean: "meaning c xs = Some ys"
    and el: "cmd_elems c \<subseteq> dom (cells m)"
  shows "\<exists>m'. stailq_exec h c m = Inr m' \<and> stailq_rep h m' ys \<and> dom (cells m') = dom (cells m)"
proof -
  have "\<exists>m' A. stailq_exec h c m = Inr m' \<and> stailq_rep h m' ys \<and> touches A {h} m m'"
  proof (cases c)
    case (Insert_head a)
    then obtain k where "cells m a = Some k" using el by auto
    then show ?thesis using stailq_insert_head [OF rep, of a] mean Insert_head by (auto split: if_splits)
  next
    case (Insert_tail a)
    then obtain k where "cells m a = Some k" using el by auto
    then show ?thesis using stailq_insert_tail [OF rep, of a] mean Insert_tail by (auto split: if_splits)
  next
    case (Insert_after b a)
    then have b: "b \<in> set xs" "a \<notin> set xs" "ys = upto_elem b xs @ b # a # after_elem b xs"
      using mean by (auto split: if_splits)
    obtain k where "cells m a = Some k" using el Insert_after by auto
    then show ?thesis
      using stailq_insert_after [of h m _ b _ a] rep b around_elem [OF b(1)] Insert_after by (metis stailq_exec.simps(3))
  next
    case (Remove a)
    then have b: "a \<in> set xs" "ys = upto_elem a xs @ after_elem a xs" using mean by (auto split: if_splits)
    then show ?thesis using stailq_remove [of h m _ a] rep around_elem [OF b(1)] Remove by (metis stailq_exec.simps(4))
  next
    case Remove_head
    then obtain a where "xs = a # ys" using mean by (cases xs) auto
    then show ?thesis using stailq_remove_head [of h m a ys] rep Remove_head by auto
  qed (use sup in auto)
  then show ?thesis by (auto simp: touches_def)
qed

interpretation tail_queue: linked_list "tail_rep False h" "\<lambda>m. dom (cells m)" stailq_supported "stailq_exec h" "\<lambda>m. STAILQ_FOREACH m h" for h
  by unfold_locales (auto intro: stailq_exec_ok stailq_foreach)

section \<open>Properties\<close>

text \<open>
  C38. The STAILQ macros implement queues: after \<open>STAILQ_INIT\<close> and any sequence of insertions at
  both ends and behind an element and of removals that makes sense on plain lists, no macro has
  faulted, \<open>STAILQ_FOREACH\<close> meets exactly the elements of the resulting list in order,
  \<open>STAILQ_LAST\<close> is its last element, and \<open>STAILQ_REMOVE_HEAD_UNTIL\<close> an element cuts it off behind.
\<close>

theorem stailq_macros_refine:
  assumes "h \<in> dom (heads m)" and "list_all stailq_supported cs" and "meaning_all cs [] = Some ys"
    and "\<forall>c \<in> set cs. cmd_elems c \<subseteq> dom (cells m)"
  shows "\<exists>m0 m'. STAILQ_INIT m h = Inr m0 \<and> linked_list.exec_all (stailq_exec h) cs m0 = Inr m' \<and>
    STAILQ_FOREACH m' h = Some (Inr ys) \<and>
    STAILQ_LAST m' h = Inr (if ys = [] then Null else Ref (last ys)) \<and>
    (\<forall>a \<in> set ys. \<exists>m''. STAILQ_REMOVE_HEAD_UNTIL m' h a = Inr m'' \<and>
      STAILQ_FOREACH m'' h = Some (Inr (after_elem a ys)))"
proof -
  obtain m0 where m0: "STAILQ_INIT m h = Inr m0" "stailq_rep h m0 []" "cells m0 = cells m"
    using stailq_init [OF assms(1)] by blast
  obtain m' where m': "linked_list.exec_all (stailq_exec h) cs m0 = Inr m'" "stailq_rep h m' ys"
    using tail_queue.exec_all_ok [OF m0(2) assms(2,3)] assms(4) m0(3) by auto
  have "\<exists>m''. STAILQ_REMOVE_HEAD_UNTIL m' h a = Inr m'' \<and> STAILQ_FOREACH m'' h = Some (Inr (after_elem a ys))"
    if "a \<in> set ys" for a
    using stailq_remove_head_until [of h m' "upto_elem a ys" a "after_elem a ys"] m'(2) around_elem [OF that] stailq_foreach
    by metis
  then show ?thesis using m0(1) m'(1) stailq_foreach [OF m'(2)] stailq_last [OF m'(2)] by blast
qed

theorem stailq_macros_refine_witness:
  "\<exists>m0 m'. STAILQ_INIT raw_mem 0 = Inr m0 \<and>
    linked_list.exec_all (stailq_exec 0) [Insert_tail 1, Insert_tail 2, Insert_head 3, Remove 2, Insert_tail 5] m0 = Inr m' \<and>
    STAILQ_FOREACH m' 0 = Some (Inr [3, 1, 5]) \<and> STAILQ_LAST m' 0 = Inr (Ref 5)"
proof -
  let ?cs = "[Insert_tail 1, Insert_tail 2, Insert_head 3, Remove 2, Insert_tail 5]"
  have h: "0 \<in> dom (heads raw_mem)" "list_all stailq_supported ?cs" "\<forall>c \<in> set ?cs. cmd_elems c \<subseteq> dom (cells raw_mem)"
    by simp_all
  have m: "meaning_all ?cs [] = Some [3, 1, 5]" by (simp add: upto_elem_def after_elem_def)
  from stailq_macros_refine [OF h(1,2) m h(3)] show ?thesis by fastforce
qed

end
