(* ===== verification/Queue_Tailq.thy ===== *)
theory Queue_Tailq
  imports Queue_Stailq
begin

text \<open>
  The TAILQ macros of \<open>server/queue.h\<close>: doubly-linked queues. \<open>TAILQ_LAST\<close> and \<open>TAILQ_PREV\<close> read an
  element's link fields as if they were a head.
\<close>

section \<open>The macros\<close>

definition TAILQ_INIT :: "qmem \<Rightarrow> nat \<Rightarrow> qmem res" where
  "TAILQ_INIT m head = bnd (put_first m head Null) (\<lambda>m. put_last m head (First head))"

text \<open>The static initialiser of a head, and that initialising at run time makes the same head.\<close>

definition TAILQ_HEAD_INITIALIZER :: "nat \<Rightarrow> qhead" where
  "TAILQ_HEAD_INITIALIZER head = \<lparr>q_first = Null, q_last = First head\<rparr>"

lemma TAILQ_INIT_static:
  "heads m head = Some h \<Longrightarrow> TAILQ_INIT m head = Inr (m\<lparr>heads := (heads m)(head \<mapsto> TAILQ_HEAD_INITIALIZER head)\<rparr>)"
  by (cases h) (simp add: TAILQ_INIT_def TAILQ_HEAD_INITIALIZER_def put_first_def put_last_def head_at_def)

definition TAILQ_FIRST :: "qmem \<Rightarrow> nat \<Rightarrow> ptr res" where
  "TAILQ_FIRST m head = get_first m head"

definition TAILQ_NEXT :: "qmem \<Rightarrow> nat \<Rightarrow> ptr res" where
  "TAILQ_NEXT m elm = get_next m elm"

definition TAILQ_EMPTY :: "qmem \<Rightarrow> nat \<Rightarrow> bool res" where
  "TAILQ_EMPTY m head = bnd (get_first m head) (\<lambda>f. Inr (f = Null))"

definition TAILQ_LAST :: "qmem \<Rightarrow> nat \<Rightarrow> ptr res" where
  "TAILQ_LAST m head = bnd (get_last m head) (\<lambda>s. bnd (second_of m s) (read_slot m))"

definition TAILQ_PREV :: "qmem \<Rightarrow> nat \<Rightarrow> ptr res" where
  "TAILQ_PREV m elm = bnd (get_prev m elm) (\<lambda>s. bnd (second_of m s) (read_slot m))"

definition TAILQ_INSERT_HEAD :: "qmem \<Rightarrow> nat \<Rightarrow> nat \<Rightarrow> qmem res" where
  "TAILQ_INSERT_HEAD m head elm =
     bnd (get_first m head) (\<lambda>f.
     bnd (put_next m elm f) (\<lambda>m.
     bnd (if f \<noteq> Null then bnd (addr f) (\<lambda>b. put_prev m b (Next elm)) else put_last m head (Next elm)) (\<lambda>m.
     bnd (put_first m head (Ref elm)) (\<lambda>m. put_prev m elm (First head)))))"

definition TAILQ_INSERT_BEFORE :: "qmem \<Rightarrow> nat \<Rightarrow> nat \<Rightarrow> qmem res" where
  "TAILQ_INSERT_BEFORE m listelm elm =
     bnd (get_prev m listelm) (\<lambda>s.
     bnd (put_prev m elm s) (\<lambda>m.
     bnd (put_next m elm (Ref listelm)) (\<lambda>m.
     bnd (get_prev m listelm) (\<lambda>s.
     bnd (write_slot m s (Ref elm)) (\<lambda>m. put_prev m listelm (Next elm))))))"

definition TAILQ_INSERT_AFTER :: "qmem \<Rightarrow> nat \<Rightarrow> nat \<Rightarrow> nat \<Rightarrow> qmem res" where
  "TAILQ_INSERT_AFTER m head listelm elm =
     bnd (get_next m listelm) (\<lambda>n.
     bnd (put_next m elm n) (\<lambda>m.
     bnd (if n \<noteq> Null
          then bnd (get_next m elm) (\<lambda>n. bnd (addr n) (\<lambda>b. put_prev m b (Next elm)))
          else put_last m head (Next elm)) (\<lambda>m.
     bnd (put_next m listelm (Ref elm)) (\<lambda>m. put_prev m elm (Next listelm)))))"

definition TAILQ_INSERT_TAIL :: "qmem \<Rightarrow> nat \<Rightarrow> nat \<Rightarrow> qmem res" where
  "TAILQ_INSERT_TAIL m head elm =
     bnd (put_next m elm Null) (\<lambda>m.
     bnd (get_last m head) (\<lambda>s.
     bnd (put_prev m elm s) (\<lambda>m.
     bnd (get_last m head) (\<lambda>s.
     bnd (write_slot m s (Ref elm)) (\<lambda>m. put_last m head (Next elm))))))"

definition TAILQ_CONCAT :: "qmem \<Rightarrow> nat \<Rightarrow> nat \<Rightarrow> qmem res" where
  "TAILQ_CONCAT m head1 head2 =
     bnd (TAILQ_EMPTY m head2) (\<lambda>e.
       if e then Inr m
       else
         bnd (get_last m head1) (\<lambda>s.
         bnd (get_first m head2) (\<lambda>f.
         bnd (write_slot m s f) (\<lambda>m.
         bnd (get_first m head2) (\<lambda>f.
         bnd (addr f) (\<lambda>b.
         bnd (get_last m head1) (\<lambda>s.
         bnd (put_prev m b s) (\<lambda>m.
         bnd (get_last m head2) (\<lambda>l.
         bnd (put_last m head1 l) (\<lambda>m. TAILQ_INIT m head2))))))))))"

definition TAILQ_REMOVE :: "qmem \<Rightarrow> nat \<Rightarrow> nat \<Rightarrow> qmem res" where
  "TAILQ_REMOVE m head elm =
     bnd (get_next m elm) (\<lambda>n.
     bnd (get_prev m elm) (\<lambda>s.
     bnd (if n \<noteq> Null then bnd (addr n) (\<lambda>b. put_prev m b s) else put_last m head s) (\<lambda>m.
     bnd (get_prev m elm) (\<lambda>s.
     bnd (get_next m elm) (\<lambda>n. write_slot m s n)))))"

definition TAILQ_REPLACE :: "qmem \<Rightarrow> nat \<Rightarrow> nat \<Rightarrow> nat \<Rightarrow> qmem res" where
  "TAILQ_REPLACE m head elm elm2 =
     bnd (get_next m elm) (\<lambda>n.
     bnd (put_next m elm2 n) (\<lambda>m.
     bnd (if n \<noteq> Null then bnd (addr n) (\<lambda>b. put_prev m b (Next elm2)) else put_last m head (Next elm2)) (\<lambda>m.
     bnd (get_prev m elm) (\<lambda>s.
     bnd (put_prev m elm2 s) (\<lambda>m.
     bnd (get_prev m elm2) (\<lambda>s. write_slot m s (Ref elm2)))))))"

definition TAILQ_SWAP :: "qmem \<Rightarrow> nat \<Rightarrow> nat \<Rightarrow> qmem res" where
  "TAILQ_SWAP m head1 head2 =
     bnd (get_first m head1) (\<lambda>f1.
     bnd (get_last m head1) (\<lambda>l1.
     bnd (get_first m head2) (\<lambda>f2.
     bnd (put_first m head1 f2) (\<lambda>m.
     bnd (get_last m head2) (\<lambda>l2.
     bnd (put_last m head1 l2) (\<lambda>m.
     bnd (put_first m head2 f1) (\<lambda>m.
     bnd (put_last m head2 l1) (\<lambda>m.
     bnd (get_first m head1) (\<lambda>f.
     bnd (if f \<noteq> Null then bnd (addr f) (\<lambda>b. put_prev m b (First head1)) else put_last m head1 (First head1)) (\<lambda>m.
     bnd (get_first m head2) (\<lambda>f.
       if f \<noteq> Null then bnd (addr f) (\<lambda>b. put_prev m b (First head2)) else put_last m head2 (First head2))))))))))))"

definition TAILQ_FOREACH :: "qmem \<Rightarrow> nat \<Rightarrow> nat list res option" where
  "TAILQ_FOREACH m head = (case get_first m head of Inl e \<Rightarrow> Some (Inl e) | Inr f \<Rightarrow> follow m f [])"

definition TAILQ_FOREACH_SAFE :: "(qmem \<Rightarrow> nat \<Rightarrow> qmem res) \<Rightarrow> qmem \<Rightarrow> nat \<Rightarrow> qmem res option" where
  "TAILQ_FOREACH_SAFE body m head =
     (case get_first m head of Inl e \<Rightarrow> Some (Inl e) | Inr f \<Rightarrow> follow_safe body m f)"

text \<open>The loop of \<open>TAILQ_FOREACH_REVERSE\<close>.\<close>

partial_function (option) tailq_back :: "qmem \<Rightarrow> ptr \<Rightarrow> nat list \<Rightarrow> nat list res option" where
  "tailq_back m var met = (case var of
     Null \<Rightarrow> Some (Inr met)
   | Ref a \<Rightarrow> (case TAILQ_PREV m a of
       Inl e \<Rightarrow> Some (Inl e)
     | Inr p \<Rightarrow> tailq_back m p (met @ [a])))"

definition TAILQ_FOREACH_REVERSE :: "qmem \<Rightarrow> nat \<Rightarrow> nat list res option" where
  "TAILQ_FOREACH_REVERSE m head =
     (case TAILQ_LAST m head of Inl e \<Rightarrow> Some (Inl e) | Inr v \<Rightarrow> tailq_back m v [])"

text \<open>The loop of \<open>TAILQ_FOREACH_REVERSE_SAFE\<close>.\<close>

partial_function (option) tailq_back_safe :: "(qmem \<Rightarrow> nat \<Rightarrow> qmem res) \<Rightarrow> qmem \<Rightarrow> ptr \<Rightarrow> qmem res option" where
  "tailq_back_safe body m var = (case var of
     Null \<Rightarrow> Some (Inr m)
   | Ref a \<Rightarrow> (case TAILQ_PREV m a of
       Inl e \<Rightarrow> Some (Inl e)
     | Inr p \<Rightarrow> (case body m a of
         Inl e \<Rightarrow> Some (Inl e)
       | Inr m \<Rightarrow> tailq_back_safe body m p)))"

definition TAILQ_FOREACH_REVERSE_SAFE :: "(qmem \<Rightarrow> nat \<Rightarrow> qmem res) \<Rightarrow> qmem \<Rightarrow> nat \<Rightarrow> qmem res option" where
  "TAILQ_FOREACH_REVERSE_SAFE body m head =
     (case TAILQ_LAST m head of Inl e \<Rightarrow> Some (Inl e) | Inr v \<Rightarrow> tailq_back_safe body m v)"

section \<open>What they do to a queue\<close>

abbreviation tailq_rep :: "nat \<Rightarrow> qmem \<Rightarrow> nat list \<Rightarrow> bool" where
  "tailq_rep \<equiv> tail_rep True"

lemma tailq_init: "h \<in> dom (heads m) \<Longrightarrow> \<exists>m0. TAILQ_INIT m h = Inr m0 \<and> tailq_rep h m0 [] \<and> cells m0 = cells m"
  by (auto simp: TAILQ_INIT_def q_simps tail_rep_def)

lemma tailq_insert_head:
  assumes "tailq_rep h m xs" and "a \<notin> set xs" and "cells m a = Some c"
  shows "\<exists>m'. TAILQ_INSERT_HEAD m h a = Inr m' \<and> tailq_rep h m' (a # xs) \<and> touches (insert a (set xs)) {h} m m'"
proof (cases xs)
  case Nil
  then show ?thesis using assms by (auto simp: TAILQ_INSERT_HEAD_def q_simps tail_rep_def touches_def)
next
  case (Cons b ys)
  have "b \<notin> set ys" "b \<noteq> a" "a \<notin> set ys" using tail_rep_distinct [OF assms(1)] assms(2) Cons by auto
  then show ?thesis using assms Cons
    by (auto simp: TAILQ_INSERT_HEAD_def q_simps tail_rep_def touches_def chain_upd)
qed

lemma tailq_insert_tail:
  assumes "tailq_rep h m xs" and "a \<notin> set xs" and "cells m a = Some c"
  shows "\<exists>m'. TAILQ_INSERT_TAIL m h a = Inr m' \<and> tailq_rep h m' (xs @ [a]) \<and> touches (insert a (set xs)) {h} m m'"
proof -
  obtain hd where hd: "heads m h = Some hd" and s: "seg True m h xs Null (q_last hd)"
    by (rule tail_end [OF assms(1)])
  let ?m = "m\<lparr>cells := (cells m)(a \<mapsto> c\<lparr>q_next := Null, q_prev := q_last hd\<rparr>)\<rparr>"
  have t1: "touches {a} {} m ?m" using assms(3) by (rule touches_cell)
  have g: "seg True ?m h xs Null (q_last hd)" using seg_touches [OF t1 _ _ s] assms(2) by simp
  obtain m2 where w: "write_slot ?m (q_last hd) (Ref a) = Inr m2" "seg True m2 h xs (Ref a) (q_last hd)"
      "touches (set xs) {h} ?m m2"
    by (rule seg_write [OF g tail_rep_distinct [OF assms(1)]])
  obtain k where k: "heads m2 h = Some k" using w(2) by (auto simp: seg_def)
  let ?m3 = "m2\<lparr>heads := (heads m2)(h \<mapsto> k\<lparr>q_last := Next a\<rparr>)\<rparr>"
  have a2: "cells m2 a = Some (c\<lparr>q_next := Null, q_prev := q_last hd\<rparr>)" using w(3) assms(2) by (auto simp: touches_def)
  have "TAILQ_INSERT_TAIL m h a = Inr ?m3" using w(1) hd k assms(3) by (simp add: TAILQ_INSERT_TAIL_def q_simps)
  moreover have "tail_rep True h ?m3 (xs @ [a])"
    by (rule tail_paste [of True _ _ xs "Ref a" "q_last hd" "[a]" "Next a"]) (use w(2) k a2 in \<open>auto simp: seg_def\<close>)
  moreover have "touches (insert a (set xs)) {h} m ?m3"
    by (rule touches_mono [OF touches_trans [OF touches_trans [OF t1 w(3)] touches_head [OF k]]]) auto
  ultimately show ?thesis by blast
qed

lemma tailq_insert_before:
  assumes "tailq_rep h m (us @ b # vs)" and "a \<notin> set (us @ b # vs)" and "cells m a = Some c"
  shows "\<exists>m'. TAILQ_INSERT_BEFORE m b a = Inr m' \<and> tailq_rep h m' (us @ a # b # vs) \<and>
    touches (insert a (set (us @ b # vs))) {h} m m'"
proof -
  obtain s x hd where s: "seg True m h us (Ref b) s" and x: "cells m b = Some x" "q_prev x = s"
      and hd: "heads m h = Some hd" and v: "chain True (cells m) (q_next x) (Next b) vs Null (q_last hd)"
      and d: "distinct (us @ b # vs)"
    by (rule tail_cut [OF assms(1)]) auto
  let ?m = "m\<lparr>cells := (cells m)(a \<mapsto> c\<lparr>q_prev := s, q_next := Ref b\<rparr>)\<rparr>"
  have t1: "touches {a} {} m ?m" using assms(3) by (rule touches_cell)
  have g: "seg True ?m h us (Ref b) s" using seg_touches [OF t1 _ _ s] assms(2) by simp
  have du: "distinct us" using d by simp
  obtain m2 where w: "write_slot ?m s (Ref a) = Inr m2" "seg True m2 h us (Ref a) s" "touches (set us) {h} ?m m2"
      "\<forall>k. map_option q_last (heads m2 k) = map_option q_last (heads ?m k)"
    by (rule seg_write [OF g du])
  have x2: "cells m2 b = Some x" and a2: "cells m2 a = Some (c\<lparr>q_prev := s, q_next := Ref b\<rparr>)"
    using w(3) x d assms(2) by (auto simp: touches_def)
  let ?m3 = "m2\<lparr>cells := (cells m2)(b \<mapsto> x\<lparr>q_prev := Next a\<rparr>)\<rparr>"
  have t3: "touches {b} {} m2 ?m3" using x2 by (rule touches_cell)
  have t13: "touches (insert a (set us)) {h} m m2" using touches_trans [OF t1 w(3)] by simp
  have "chain True (cells m2) (q_next x) (Next b) vs Null (q_last hd)"
    by (rule chain_touches [OF t13 _ v]) (use assms(2) d in auto)
  then have "chain True (cells ?m3) (Ref a) s (a # b # vs) Null (q_last hd)"
    using a2 x2 d assms(2) by (auto simp: chain_upd)
  moreover have "seg True ?m3 h us (Ref a) s" using seg_touches [OF t3 _ _ w(2)] d by auto
  moreover have "map_option q_last (heads ?m3 h) = Some (q_last hd)" using w(4) hd by simp
  ultimately have "tailq_rep h ?m3 (us @ a # b # vs)" by (intro tail_paste)
  moreover have "TAILQ_INSERT_BEFORE m b a = Inr ?m3"
    using assms(2,3) x x2 w(1) by (simp add: TAILQ_INSERT_BEFORE_def q_simps)
  moreover have "touches (insert a (set (us @ b # vs))) {h} m ?m3"
    by (rule touches_mono [OF touches_trans [OF t13 t3]]) auto
  ultimately show ?thesis by blast
qed

text \<open>
  The first half of the other operations on an element: the element behind is pointed back to a
  slot, or the head's last slot is set when there is none.
\<close>

definition fix_behind :: "qmem \<Rightarrow> nat \<Rightarrow> ptr \<Rightarrow> slot \<Rightarrow> qmem res" where
  "fix_behind m h n s = (if n \<noteq> Null then bnd (addr n) (\<lambda>b. put_prev m b s) else put_last m h s)"

lemma fix_behind:
  assumes hd: "heads m h = Some k" and v: "chain True (cells m) n t vs Null (q_last k)" and d: "distinct vs"
  obtains m' k' where "fix_behind m h n s = Inr m'" and "heads m' h = Some k'" and "q_first k' = q_first k"
    and "chain True (cells m') n s vs Null (q_last k')" and "touches (set vs) {h} m m'"
proof (cases vs)
  case Nil
  then show thesis using hd v
    by (intro that [of "m\<lparr>heads := (heads m)(h \<mapsto> k\<lparr>q_last := s\<rparr>)\<rparr>" "k\<lparr>q_last := s\<rparr>"])
      (auto simp: fix_behind_def q_simps touches_def)
next
  case (Cons y ys)
  then obtain cy where cy: "cells m y = Some cy" "n = Ref y" using v by auto
  have "y \<notin> set ys" using d Cons by auto
  then show thesis using v cy Cons hd
    by (intro that [of "m\<lparr>cells := (cells m)(y \<mapsto> cy\<lparr>q_prev := s\<rparr>)\<rparr>" k])
      (auto simp: fix_behind_def q_simps touches_def chain_upd)
qed

lemma seg_same_first:
  assumes "seg b m h us p s" and "touches A {h} m m'" and "set us \<inter> A = {}"
    and "heads m h = Some k" and "heads m' h = Some k'" and "q_first k' = q_first k"
  shows "seg b m' h us p s"
  using assms chain_touches [OF assms(2,3)] by (auto simp: seg_def)

lemma tailq_insert_after:
  assumes "tailq_rep h m (us @ b # vs)" and "a \<notin> set (us @ b # vs)" and "cells m a = Some c"
  shows "\<exists>m'. TAILQ_INSERT_AFTER m h b a = Inr m' \<and> tailq_rep h m' (us @ b # a # vs) \<and>
    touches (insert a (set (us @ b # vs))) {h} m m'"
proof -
  obtain s x k where s: "seg True m h us (Ref b) s" and x: "cells m b = Some x" "q_prev x = s"
      and k: "heads m h = Some k" and v: "chain True (cells m) (q_next x) (Next b) vs Null (q_last k)"
      and d: "distinct (us @ b # vs)"
    by (rule tail_cut [OF assms(1)]) auto
  have n: "a \<noteq> b" "b \<noteq> a" "a \<notin> set vs" "b \<notin> set vs" "distinct vs" "a \<notin> set us" "b \<notin> set us"
    using d assms(2) by auto
  let ?m = "m\<lparr>cells := (cells m)(a \<mapsto> c\<lparr>q_next := q_next x\<rparr>)\<rparr>"
  have t1: "touches {a} {} m ?m" using assms(3) by (rule touches_cell)
  have k1: "heads ?m h = Some k" using k by simp
  have v1: "chain True (cells ?m) (q_next x) (Next b) vs Null (q_last k)" using v n(3) by (simp add: chain_upd)
  obtain m2 k2 where f: "fix_behind ?m h (q_next x) (Next a) = Inr m2" and k2: "heads m2 h = Some k2"
      and kf: "q_first k2 = q_first k" and v2: "chain True (cells m2) (q_next x) (Next a) vs Null (q_last k2)"
      and t2: "touches (set vs) {h} ?m m2"
    by (rule fix_behind [OF k1 v1 n(5)])
  have a2: "cells m2 a = Some (c\<lparr>q_next := q_next x\<rparr>)" and b2: "cells m2 b = Some x"
    using t2 x n by (auto simp: touches_def)
  let ?m3 = "m2\<lparr>cells := (cells m2)(b \<mapsto> x\<lparr>q_next := Ref a\<rparr>, a \<mapsto> c\<lparr>q_next := q_next x, q_prev := Next b\<rparr>)\<rparr>"
  have t3: "touches {a, b} {} m2 ?m3" using a2 b2 by (auto simp: touches_def)
  have t: "touches (insert a (insert b (set vs))) {h} m ?m3"
    by (rule touches_mono [OF touches_trans [OF touches_trans [OF t1 t2] t3]]) auto
  have "seg True ?m3 h us (Ref b) s"
    by (rule seg_same_first [OF s t _ k, of k2]) (use d n k2 kf in auto)
  moreover have "chain True (cells ?m3) (Ref b) s (b # a # vs) Null (q_last k2)"
    using v2 n x(2) by (simp add: chain_upd)
  moreover have "map_option q_last (heads ?m3 h) = Some (q_last k2)" using k2 by simp
  ultimately have "tailq_rep h ?m3 (us @ b # a # vs)" by (rule tail_paste)
  moreover have "TAILQ_INSERT_AFTER m h b a = Inr ?m3"
    using x f a2 b2 n assms(3) unfolding fix_behind_def
    by (cases "q_next x") (simp_all add: TAILQ_INSERT_AFTER_def q_simps)
  moreover have "touches (insert a (set (us @ b # vs))) {h} m ?m3" by (rule touches_mono [OF t]) auto
  ultimately show ?thesis by blast
qed

lemma tailq_remove:
  assumes "tailq_rep h m (us @ a # vs)"
  shows "\<exists>m'. TAILQ_REMOVE m h a = Inr m' \<and> tailq_rep h m' (us @ vs) \<and> touches (set (us @ vs)) {h} m m'"
proof -
  obtain s x k where s: "seg True m h us (Ref a) s" and x: "cells m a = Some x" "q_prev x = s"
      and k: "heads m h = Some k" and v: "chain True (cells m) (q_next x) (Next a) vs Null (q_last k)"
      and d: "distinct (us @ a # vs)"
    by (rule tail_cut [OF assms(1)]) auto
  have n: "a \<notin> set vs" "distinct vs" "a \<notin> set us" "distinct us" "set us \<inter> set vs = {}" "set vs \<inter> set us = {}"
    using d by auto
  obtain m1 k1 where f: "fix_behind m h (q_next x) s = Inr m1" and k1: "heads m1 h = Some k1"
      and kf: "q_first k1 = q_first k" and v1: "chain True (cells m1) (q_next x) s vs Null (q_last k1)"
      and t1: "touches (set vs) {h} m m1"
    by (rule fix_behind [OF k v n(2)])
  have a1: "cells m1 a = Some x" using t1 x n by (auto simp: touches_def)
  have g: "seg True m1 h us (Ref a) s" by (rule seg_same_first [OF s t1 n(5) k k1 kf])
  obtain m2 where w: "write_slot m1 s (q_next x) = Inr m2" "seg True m2 h us (q_next x) s" "touches (set us) {h} m1 m2"
      "\<forall>k. map_option q_last (heads m2 k) = map_option q_last (heads m1 k)"
    by (rule seg_write [OF g n(4)])
  have "tailq_rep h m2 (us @ vs)"
    by (rule tail_paste [OF w(2) chain_touches [OF w(3) n(6) v1]]) (simp add: w(4) k1)
  moreover have "TAILQ_REMOVE m h a = Inr m2"
    using x f a1 w(1) unfolding fix_behind_def by (cases "q_next x") (simp_all add: TAILQ_REMOVE_def q_simps)
  moreover have "touches (set (us @ vs)) {h} m m2" by (rule touches_mono [OF touches_trans [OF t1 w(3)]]) auto
  ultimately show ?thesis by blast
qed

lemma tailq_replace:
  assumes "tailq_rep h m (us @ a # vs)" and "b \<notin> set (us @ a # vs)" and "cells m b = Some c"
  shows "\<exists>m'. TAILQ_REPLACE m h a b = Inr m' \<and> tailq_rep h m' (us @ b # vs) \<and>
    touches (insert b (set (us @ vs))) {h} m m'"
proof -
  obtain s x k where s: "seg True m h us (Ref a) s" and x: "cells m a = Some x" "q_prev x = s"
      and k: "heads m h = Some k" and v: "chain True (cells m) (q_next x) (Next a) vs Null (q_last k)"
      and d: "distinct (us @ a # vs)"
    by (rule tail_cut [OF assms(1)]) auto
  have n: "a \<noteq> b" "b \<noteq> a" "a \<notin> set vs" "b \<notin> set vs" "distinct vs" "a \<notin> set us" "b \<notin> set us" "distinct us"
    using d assms(2) by auto
  let ?m = "m\<lparr>cells := (cells m)(b \<mapsto> c\<lparr>q_next := q_next x\<rparr>)\<rparr>"
  have t1: "touches {b} {} m ?m" using assms(3) by (rule touches_cell)
  have k1: "heads ?m h = Some k" using k by simp
  have v1: "chain True (cells ?m) (q_next x) (Next a) vs Null (q_last k)" using v n by (simp add: chain_upd)
  obtain m2 k2 where f: "fix_behind ?m h (q_next x) (Next b) = Inr m2" and k2: "heads m2 h = Some k2"
      and kf: "q_first k2 = q_first k" and v2: "chain True (cells m2) (q_next x) (Next b) vs Null (q_last k2)"
      and t2: "touches (set vs) {h} ?m m2"
    by (rule fix_behind [OF k1 v1 n(5)])
  have a2: "cells m2 a = Some x" and b2: "cells m2 b = Some (c\<lparr>q_next := q_next x\<rparr>)"
    using t2 x n by (auto simp: touches_def)
  let ?m3 = "m2\<lparr>cells := (cells m2)(b \<mapsto> c\<lparr>q_next := q_next x, q_prev := s\<rparr>)\<rparr>"
  have t3: "touches {b} {} m2 ?m3" using b2 by (rule touches_cell)
  have t: "touches (insert b (set vs)) {h} m ?m3"
    by (rule touches_mono [OF touches_trans [OF touches_trans [OF t1 t2] t3]]) auto
  have g: "seg True ?m3 h us (Ref a) s"
    by (rule seg_same_first [OF s t _ k, of k2]) (use d n k2 kf in auto)
  obtain m4 where w: "write_slot ?m3 s (Ref b) = Inr m4" "seg True m4 h us (Ref b) s" "touches (set us) {h} ?m3 m4"
      "\<forall>k. map_option q_last (heads m4 k) = map_option q_last (heads ?m3 k)"
    by (rule seg_write [OF g n(8)])
  have v3: "chain True (cells ?m3) (Ref b) s (b # vs) Null (q_last k2)" using v2 n by (simp add: chain_upd)
  have "set (b # vs) \<inter> set us = {}" using d n by auto
  then have "tailq_rep h m4 (us @ b # vs)"
    by (rule tail_paste [OF w(2) chain_touches [OF w(3) _ v3]]) (simp add: w(4) k2)
  moreover have "TAILQ_REPLACE m h a b = Inr m4"
    using x f a2 b2 n w(1) assms(3) unfolding fix_behind_def
    by (cases "q_next x") (simp_all add: TAILQ_REPLACE_def q_simps)
  moreover have "touches (insert b (set (us @ vs))) {h} m m4" by (rule touches_mono [OF touches_trans [OF t w(3)]]) auto
  ultimately show ?thesis by blast
qed

section \<open>Going back\<close>

lemma chain_read: "chain b (cells m) p s xs q t \<Longrightarrow> read_slot m s = Inr p \<Longrightarrow> read_slot m t = Inr q"
  by (induction xs arbitrary: p s) (auto simp: q_simps)

lemma seg_read: "seg b m h xs q t \<Longrightarrow> read_slot m t = Inr q"
  using chain_read [of b m _ "First h" xs q t] by (auto simp: seg_def q_simps)

text \<open>Reading through the slot at the end of a segment as if it were a head gives the element before.\<close>

lemma before_slot:
  assumes rep: "tailq_rep h m (us @ vs)" and s: "seg True m h us p s"
  shows "bnd (second_of m s) (read_slot m) = Inr (if us = [] then Null else Ref (last us))"
proof (cases us rule: rev_cases)
  case Nil
  obtain k where k: "heads m h = Some k" "seg True m h (us @ vs) Null (q_last k)" by (rule tail_end [OF rep])
  have "s = First h" using s Nil by (auto simp: seg_def)
  then show ?thesis using Nil k seg_read [OF k(2)] by (simp add: q_simps)
next
  case (snoc ws c)
  obtain p' s' where w: "seg True m h ws p' s'" "chain True (cells m) p' s' [c] p s"
    using s unfolding snoc seg_append by blast
  then have "p' = Ref c" "s = Next c" "second_of m s = Inr s'" by (auto simp: q_simps)
  then show ?thesis using seg_read [OF w(1)] snoc by simp
qed

lemma tailq_last:
  assumes "tailq_rep h m xs"
  shows "TAILQ_LAST m h = Inr (if xs = [] then Null else Ref (last xs))"
proof -
  obtain k where k: "heads m h = Some k" "seg True m h xs Null (q_last k)" by (rule tail_end [OF assms])
  then show ?thesis using before_slot [of h m xs "[]"] assms by (simp add: TAILQ_LAST_def q_simps)
qed

lemma tailq_prev:
  assumes "tailq_rep h m (us @ a # vs)"
  shows "TAILQ_PREV m a = Inr (if us = [] then Null else Ref (last us))"
proof -
  obtain s x where s: "seg True m h us (Ref a) s" and x: "cells m a = Some x" "q_prev x = s"
    by (rule tail_cut [OF assms]) auto
  then show ?thesis using before_slot [OF assms s] by (simp add: TAILQ_PREV_def q_simps)
qed

lemma tailq_foreach: "tailq_rep h m xs \<Longrightarrow> TAILQ_FOREACH m h = Some (Inr xs)"
  by (auto simp: tail_rep_def TAILQ_FOREACH_def q_simps follow_chain)

lemma tailq_back_prefix:
  "tailq_rep h m (us @ vs) \<Longrightarrow>
    tailq_back m (if us = [] then Null else Ref (last us)) met = Some (Inr (met @ rev us))"
proof (induction us arbitrary: vs met rule: rev_induct)
  case Nil
  then show ?case by (subst tailq_back.simps) simp
next
  case (snoc a us)
  have "tailq_rep h m (us @ a # vs)" using snoc.prems by simp
  then have "tailq_back m (Ref a) met = tailq_back m (if us = [] then Null else Ref (last us)) (met @ [a])"
    by (subst tailq_back.simps) (simp add: tailq_prev)
  then show ?case using snoc.IH [of "a # vs" "met @ [a]"] snoc.prems by simp
qed

lemma tailq_foreach_reverse: "tailq_rep h m xs \<Longrightarrow> TAILQ_FOREACH_REVERSE m h = Some (Inr (rev xs))"
  using tailq_back_prefix [of h m xs "[]" "[]"] by (simp add: TAILQ_FOREACH_REVERSE_def tailq_last)

section \<open>Two queues\<close>

lemma tailq_concat:
  assumes "tailq_rep h m xs" and "tailq_rep k m ys" and hk: "h \<noteq> k" and dis: "set xs \<inter> set ys = {}"
  shows "\<exists>m'. TAILQ_CONCAT m h k = Inr m' \<and> tailq_rep h m' (xs @ ys) \<and> tailq_rep k m' []"
proof (cases ys)
  case Nil
  then show ?thesis using assms
    by (auto simp: TAILQ_CONCAT_def TAILQ_EMPTY_def q_simps tail_rep_def)
next
  case (Cons y zs)
  obtain i where i: "heads m h = Some i" and s: "seg True m h xs Null (q_last i)" by (rule tail_end [OF assms(1)])
  obtain j where j: "heads m k = Some j" "chain True (cells m) (q_first j) (First k) ys Null (q_last j)"
    using assms(2) by (auto simp: tail_rep_def)
  have fy: "q_first j = Ref y" using j(2) Cons by auto
  have d: "distinct ys" using chain_distinct [OF j(2)] .
  obtain m2 where w: "write_slot m (q_last i) (Ref y) = Inr m2" "seg True m2 h xs (Ref y) (q_last i)"
      "touches (set xs) {h} m m2" "\<forall>k. map_option q_last (heads m2 k) = map_option q_last (heads m k)"
    by (rule seg_write [OF s tail_rep_distinct [OF assms(1)]])
  have "map_option q_last (heads m2 h) = Some (q_last i)" using w(4) i by simp
  then obtain i2 where i2: "heads m2 h = Some i2" "q_last i2 = q_last i" by auto
  have k2: "heads m2 k = Some j" using w(3) j(1) hk by (auto simp: touches_def)
  have "set ys \<inter> set xs = {}" using dis by auto
  then have "chain True (cells m2) (Ref y) (First k) ys Null (q_last j)"
    using chain_touches [OF w(3) _ j(2)] fy by simp
  then obtain cy where cy: "cells m2 y = Some cy"
      and c3: "chain True ((cells m2)(y \<mapsto> cy\<lparr>q_prev := q_last i\<rparr>)) (Ref y) (q_last i) ys Null (q_last j)"
    using chain_rehang [of True "cells m2" "Ref y" "First k" y zs] d Cons by auto
  let ?m = "m2\<lparr>cells := (cells m2)(y \<mapsto> cy\<lparr>q_prev := q_last i\<rparr>),
    heads := (heads m2)(h \<mapsto> i2\<lparr>q_last := q_last j\<rparr>, k \<mapsto> j\<lparr>q_first := Null, q_last := First k\<rparr>)\<rparr>"
  have yx: "y \<notin> set xs" using dis Cons by auto
  have "TAILQ_CONCAT m h k = Inr ?m"
    using i j(1) fy w(1) i2 k2 cy hk
    by (simp add: TAILQ_CONCAT_def TAILQ_EMPTY_def TAILQ_INIT_def q_simps)
  moreover have "tailq_rep h ?m (xs @ ys)"
  proof (rule tail_paste)
    show "seg True ?m h xs (Ref y) (q_last i)" using w(2) i2 hk yx by (auto simp: seg_def chain_upd)
    show "chain True (cells ?m) (Ref y) (q_last i) ys Null (q_last j)" using c3 by simp
  qed (simp add: hk)
  moreover have "tailq_rep k ?m []" by (simp add: tail_rep_def)
  ultimately show ?thesis by blast
qed

lemma tailq_swap:
  assumes "tailq_rep h m xs" and "tailq_rep k m ys" and "h \<noteq> k" and dis: "set xs \<inter> set ys = {}"
  shows "\<exists>m'. TAILQ_SWAP m h k = Inr m' \<and> tailq_rep h m' ys \<and> tailq_rep k m' xs"
proof -
  obtain p where p: "heads m h = Some p" "chain True (cells m) (q_first p) (First h) xs Null (q_last p)"
    using assms(1) by (auto simp: tail_rep_def)
  obtain q where q: "heads m k = Some q" "chain True (cells m) (q_first q) (First k) ys Null (q_last q)"
    using assms(2) by (auto simp: tail_rep_def)
  have d: "distinct xs" "distinct ys" using chain_distinct p(2) q(2) by blast+
  note f = TAILQ_SWAP_def q_simps tail_rep_def chain_upd
  show ?thesis
  proof (cases xs)
    case Nil
    then show ?thesis using p q assms(3) d by (cases ys) (auto simp: f)
  next
    case (Cons a as)
    note xs = this
    show ?thesis
    proof (cases ys)
      case Nil
      then show ?thesis using xs p q assms(3) d by (auto simp: f)
    next
      case (Cons b bs)
      have n: "a \<noteq> b" "b \<noteq> a" "a \<notin> set as" "a \<notin> set bs" "b \<notin> set as" "b \<notin> set bs"
        using dis d xs Cons by auto
      obtain x where x: "q_first p = Ref a" "cells m a = Some x" "chain True (cells m) (q_next x) (Next a) as Null (q_last p)"
        using p(2) xs by auto
      obtain y where y: "q_first q = Ref b" "cells m b = Some y" "chain True (cells m) (q_next y) (Next b) bs Null (q_last q)"
        using q(2) Cons by auto
      show ?thesis using xs Cons p(1) q(1) x y n assms(3) by (auto simp: f)
    qed
  qed
qed

section \<open>The contract\<close>

fun tailq_exec :: "nat \<Rightarrow> cmd \<Rightarrow> qmem \<Rightarrow> qmem res" where
  "tailq_exec h (Insert_head a) m = TAILQ_INSERT_HEAD m h a"
| "tailq_exec h (Insert_tail a) m = TAILQ_INSERT_TAIL m h a"
| "tailq_exec h (Insert_before b a) m = TAILQ_INSERT_BEFORE m b a"
| "tailq_exec h (Insert_after b a) m = TAILQ_INSERT_AFTER m h b a"
| "tailq_exec h (Remove a) m = TAILQ_REMOVE m h a"
| "tailq_exec h Remove_head m = bnd (TAILQ_FIRST m h) (\<lambda>f. bnd (addr f) (TAILQ_REMOVE m h))"
| "tailq_exec h (Replace b a) m = TAILQ_REPLACE m h b a"

lemma tailq_exec_ok:
  assumes rep: "tailq_rep h m xs" and mean: "meaning c xs = Some ys" and el: "cmd_elems c \<subseteq> dom (cells m)"
  shows "\<exists>m'. tailq_exec h c m = Inr m' \<and> tailq_rep h m' ys \<and> dom (cells m') = dom (cells m)"
proof -
  have "\<exists>m' A. tailq_exec h c m = Inr m' \<and> tailq_rep h m' ys \<and> touches A {h} m m'"
  proof (cases c)
    case (Insert_head a)
    then obtain k where "cells m a = Some k" using el by auto
    then show ?thesis using tailq_insert_head [OF rep, of a] mean Insert_head by (auto split: if_splits)
  next
    case (Insert_tail a)
    then obtain k where "cells m a = Some k" using el by auto
    then show ?thesis using tailq_insert_tail [OF rep, of a] mean Insert_tail by (auto split: if_splits)
  next
    case (Insert_before b a)
    then have b: "b \<in> set xs" "a \<notin> set xs" "ys = upto_elem b xs @ a # b # after_elem b xs"
      using mean by (auto split: if_splits)
    obtain k where "cells m a = Some k" using el Insert_before by auto
    then show ?thesis
      using tailq_insert_before [of h m _ b _ a] rep b around_elem [OF b(1)] Insert_before by (metis tailq_exec.simps(3))
  next
    case (Insert_after b a)
    then have b: "b \<in> set xs" "a \<notin> set xs" "ys = upto_elem b xs @ b # a # after_elem b xs"
      using mean by (auto split: if_splits)
    obtain k where "cells m a = Some k" using el Insert_after by auto
    then show ?thesis
      using tailq_insert_after [of h m _ b _ a] rep b around_elem [OF b(1)] Insert_after by (metis tailq_exec.simps(4))
  next
    case (Remove a)
    then have b: "a \<in> set xs" "ys = upto_elem a xs @ after_elem a xs" using mean by (auto split: if_splits)
    then show ?thesis using tailq_remove [of h m _ a] rep around_elem [OF b(1)] Remove by (metis tailq_exec.simps(5))
  next
    case Remove_head
    then obtain a where a: "xs = a # ys" using mean by (cases xs) auto
    then have "TAILQ_FIRST m h = Inr (Ref a)" using rep by (auto simp: tail_rep_def TAILQ_FIRST_def q_simps)
    then show ?thesis using tailq_remove [of h m "[]" a ys] rep a Remove_head by (auto simp: q_simps)
  next
    case (Replace b a)
    then have b: "b \<in> set xs" "a \<notin> set xs" "ys = upto_elem b xs @ a # after_elem b xs"
      using mean by (auto split: if_splits)
    obtain k where "cells m a = Some k" using el Replace by auto
    then show ?thesis
      using tailq_replace [of h m _ b _ a] rep b around_elem [OF b(1)] Replace by (metis tailq_exec.simps(7))
  qed
  then show ?thesis by (auto simp: touches_def)
qed

interpretation deque: two_way_list "tail_rep True h" "\<lambda>m. dom (cells m)" "\<lambda>_. True" "tailq_exec h"
    "\<lambda>m. TAILQ_FOREACH m h" "\<lambda>m. TAILQ_FOREACH_REVERSE m h" for h
  by unfold_locales (auto intro: tailq_exec_ok tailq_foreach tailq_foreach_reverse)

section \<open>Properties\<close>

text \<open>
  C17. The TAILQ macros implement double-ended queues: after \<open>TAILQ_INIT\<close> and any sequence of
  insertions (at both ends, before and after an element), removals and replacements that makes
  sense on plain lists, no macro has faulted, \<open>TAILQ_FOREACH\<close> meets exactly the elements of the
  resulting list in order and \<open>TAILQ_FOREACH_REVERSE\<close> meets them in the opposite order.
\<close>

theorem tailq_macros_refine:
  assumes "h \<in> dom (heads m)" and "meaning_all cs [] = Some ys"
    and "\<forall>c \<in> set cs. cmd_elems c \<subseteq> dom (cells m)"
  shows "\<exists>m0 m'. TAILQ_INIT m h = Inr m0 \<and> linked_list.exec_all (tailq_exec h) cs m0 = Inr m' \<and>
    TAILQ_FOREACH m' h = Some (Inr ys) \<and> TAILQ_FOREACH_REVERSE m' h = Some (Inr (rev ys))"
proof -
  obtain m0 where m0: "TAILQ_INIT m h = Inr m0" "tailq_rep h m0 []" "cells m0 = cells m"
    using tailq_init [OF assms(1)] by blast
  have "list_all (\<lambda>_. True) cs" by (simp add: list_all_iff)
  then show ?thesis using deque.visit_back_after [OF m0(2) _ assms(2)] assms(3) m0(1,3) by auto
qed

theorem tailq_macros_refine_witness:
  "\<exists>m0 m'. TAILQ_INIT raw_mem 0 = Inr m0 \<and>
    linked_list.exec_all (tailq_exec 0) [Insert_tail 1, Insert_head 2, Insert_before 1 3, Remove 2, Replace 1 4] m0 = Inr m' \<and>
    TAILQ_FOREACH m' 0 = Some (Inr [3, 4]) \<and> TAILQ_FOREACH_REVERSE m' 0 = Some (Inr [4, 3])"
proof -
  let ?cs = "[Insert_tail 1, Insert_head 2, Insert_before 1 3, Remove 2, Replace 1 4]"
  have h: "0 \<in> dom (heads raw_mem)" "\<forall>c \<in> set ?cs. cmd_elems c \<subseteq> dom (cells raw_mem)" by simp_all
  have m: "meaning_all ?cs [] = Some [3, 4]" by (simp add: upto_elem_def after_elem_def)
  from tailq_macros_refine [OF h(1) m h(2)] show ?thesis by simp
qed

text \<open>
  \<open>TAILQ_CONCAT\<close> moves the elements of one queue behind those of another and leaves the
  first one empty; \<open>TAILQ_SWAP\<close> exchanges two queues. Both are right forwards and backwards, for
  any two queues without a common element, the empty ones included.
\<close>

theorem tailq_concat_and_swap:
  assumes "tailq_rep h m xs" and "tailq_rep k m ys" and "h \<noteq> k" and "set xs \<inter> set ys = {}"
  shows "(\<exists>m'. TAILQ_CONCAT m h k = Inr m' \<and>
      TAILQ_FOREACH m' h = Some (Inr (xs @ ys)) \<and> TAILQ_FOREACH_REVERSE m' h = Some (Inr (rev (xs @ ys))) \<and>
      TAILQ_FOREACH m' k = Some (Inr [])) \<and>
    (\<exists>m'. TAILQ_SWAP m h k = Inr m' \<and>
      TAILQ_FOREACH m' h = Some (Inr ys) \<and> TAILQ_FOREACH_REVERSE m' h = Some (Inr (rev ys)) \<and>
      TAILQ_FOREACH m' k = Some (Inr xs) \<and> TAILQ_FOREACH_REVERSE m' k = Some (Inr (rev xs)))"
proof -
  obtain m1 where m1: "TAILQ_CONCAT m h k = Inr m1" "tailq_rep h m1 (xs @ ys)" "tailq_rep k m1 []"
    using tailq_concat [OF assms] by blast
  obtain m2 where m2: "TAILQ_SWAP m h k = Inr m2" "tailq_rep h m2 ys" "tailq_rep k m2 xs"
    using tailq_swap [OF assms] by blast
  show ?thesis
    using m1(1) m2(1) m1(2,3) [THEN tailq_foreach] m2(2,3) [THEN tailq_foreach]
      m1(2) [THEN tailq_foreach_reverse] m2(2,3) [THEN tailq_foreach_reverse] by blast
qed

definition two_queues :: qmem where
  "two_queues = \<lparr>cells = [1 \<mapsto> \<lparr>q_next = Null, q_prev = First 0\<rparr>, 2 \<mapsto> \<lparr>q_next = Null, q_prev = First 9\<rparr>],
     heads = [0 \<mapsto> \<lparr>q_first = Ref 1, q_last = Next 1\<rparr>, 9 \<mapsto> \<lparr>q_first = Ref 2, q_last = Next 2\<rparr>]\<rparr>"

theorem tailq_concat_and_swap_witness:
  "\<exists>m'. TAILQ_CONCAT two_queues 0 9 = Inr m' \<and> TAILQ_FOREACH_REVERSE m' 0 = Some (Inr [2, 1])"
proof -
  have "tailq_rep 0 two_queues [1]" "tailq_rep 9 two_queues [2]" by (simp_all add: two_queues_def tail_rep_def)
  from tailq_concat_and_swap [OF this] show ?thesis by auto
qed

end
