(* ===== verification/Queue_Circleq.thy ===== *)
theory Queue_Circleq
  imports Queue_Tailq
begin

text \<open>
  The CIRCLEQ macros of \<open>server/queue.h\<close>: rings through the head. A ring is abstracted to a tail
  queue by reading the head as the end; under this abstraction each macro is the TAILQ macro
  of the same name, from which its correctness follows.
\<close>

section \<open>The ring in memory\<close>

text \<open>A \<open>struct type *\<close> here is an element or \<open>(void * )head\<close>, the head of the queue itself.\<close>

datatype cptr = Head | Elem nat

record ccell =
  cqe_next :: cptr
  cqe_prev :: cptr

record chead =
  cqh_first :: cptr
  cqh_last :: cptr

text \<open>The elements and the one head the macros are applied to.\<close>

record cmem =
  ccells :: "nat \<Rightarrow> ccell option"
  chead :: chead

text \<open>Access to a field of an element through a pointer; the head is no element.\<close>

definition elem :: "cptr \<Rightarrow> nat res" where
  "elem p = (case p of Head \<Rightarrow> Inl OutOfBounds | Elem a \<Rightarrow> Inr a)"

definition ccell_at :: "cmem \<Rightarrow> nat \<Rightarrow> ccell res" where
  "ccell_at m a = (case ccells m a of None \<Rightarrow> Inl Dangling | Some c \<Rightarrow> Inr c)"

definition cnext :: "cmem \<Rightarrow> nat \<Rightarrow> cptr res" where
  "cnext m a = bnd (ccell_at m a) (\<lambda>c. Inr (cqe_next c))"

definition cprev :: "cmem \<Rightarrow> nat \<Rightarrow> cptr res" where
  "cprev m a = bnd (ccell_at m a) (\<lambda>c. Inr (cqe_prev c))"

definition put_cnext :: "cmem \<Rightarrow> nat \<Rightarrow> cptr \<Rightarrow> cmem res" where
  "put_cnext m a p = bnd (ccell_at m a) (\<lambda>c. Inr (m\<lparr>ccells := (ccells m)(a \<mapsto> c\<lparr>cqe_next := p\<rparr>)\<rparr>))"

definition put_cprev :: "cmem \<Rightarrow> nat \<Rightarrow> cptr \<Rightarrow> cmem res" where
  "put_cprev m a p = bnd (ccell_at m a) (\<lambda>c. Inr (m\<lparr>ccells := (ccells m)(a \<mapsto> c\<lparr>cqe_prev := p\<rparr>)\<rparr>))"

definition put_cfirst :: "cmem \<Rightarrow> cptr \<Rightarrow> cmem" where
  "put_cfirst m p = m\<lparr>chead := (chead m)\<lparr>cqh_first := p\<rparr>\<rparr>"

definition put_clast :: "cmem \<Rightarrow> cptr \<Rightarrow> cmem" where
  "put_clast m p = m\<lparr>chead := (chead m)\<lparr>cqh_last := p\<rparr>\<rparr>"

section \<open>The macros\<close>

definition CIRCLEQ_FIRST :: "cmem \<Rightarrow> cptr" where
  "CIRCLEQ_FIRST m = cqh_first (chead m)"

definition CIRCLEQ_LAST :: "cmem \<Rightarrow> cptr" where
  "CIRCLEQ_LAST m = cqh_last (chead m)"

definition CIRCLEQ_NEXT :: "cmem \<Rightarrow> nat \<Rightarrow> cptr res" where
  "CIRCLEQ_NEXT m elm = cnext m elm"

definition CIRCLEQ_PREV :: "cmem \<Rightarrow> nat \<Rightarrow> cptr res" where
  "CIRCLEQ_PREV m elm = cprev m elm"

definition CIRCLEQ_EMPTY :: "cmem \<Rightarrow> bool" where
  "CIRCLEQ_EMPTY m \<longleftrightarrow> CIRCLEQ_FIRST m = Head"

definition CIRCLEQ_INIT :: "cmem \<Rightarrow> cmem" where
  "CIRCLEQ_INIT m = put_clast (put_cfirst m Head) Head"

definition CIRCLEQ_HEAD_INITIALIZER :: chead where
  "CIRCLEQ_HEAD_INITIALIZER = \<lparr>cqh_first = Head, cqh_last = Head\<rparr>"

lemma CIRCLEQ_INIT_static: "CIRCLEQ_INIT m = m\<lparr>chead := CIRCLEQ_HEAD_INITIALIZER\<rparr>"
  by (simp add: CIRCLEQ_INIT_def CIRCLEQ_HEAD_INITIALIZER_def put_clast_def put_cfirst_def)

definition CIRCLEQ_INSERT_HEAD :: "cmem \<Rightarrow> nat \<Rightarrow> cmem res" where
  "CIRCLEQ_INSERT_HEAD m elm =
     bnd (put_cnext m elm (cqh_first (chead m))) (\<lambda>m.
     bnd (put_cprev m elm Head) (\<lambda>m.
     bnd (if cqh_last (chead m) = Head then Inr (put_clast m (Elem elm))
          else bnd (elem (cqh_first (chead m))) (\<lambda>b. put_cprev m b (Elem elm))) (\<lambda>m.
       Inr (put_cfirst m (Elem elm)))))"

definition CIRCLEQ_INSERT_BEFORE :: "cmem \<Rightarrow> nat \<Rightarrow> nat \<Rightarrow> cmem res" where
  "CIRCLEQ_INSERT_BEFORE m listelm elm =
     bnd (put_cnext m elm (Elem listelm)) (\<lambda>m.
     bnd (cprev m listelm) (\<lambda>p.
     bnd (put_cprev m elm p) (\<lambda>m.
     bnd (cprev m listelm) (\<lambda>p.
     bnd (if p = Head then Inr (put_cfirst m (Elem elm))
          else bnd (elem p) (\<lambda>b. put_cnext m b (Elem elm))) (\<lambda>m.
       put_cprev m listelm (Elem elm))))))"

definition CIRCLEQ_INSERT_AFTER :: "cmem \<Rightarrow> nat \<Rightarrow> nat \<Rightarrow> cmem res" where
  "CIRCLEQ_INSERT_AFTER m listelm elm =
     bnd (cnext m listelm) (\<lambda>n.
     bnd (put_cnext m elm n) (\<lambda>m.
     bnd (put_cprev m elm (Elem listelm)) (\<lambda>m.
     bnd (cnext m listelm) (\<lambda>n.
     bnd (if n = Head then Inr (put_clast m (Elem elm))
          else bnd (elem n) (\<lambda>b. put_cprev m b (Elem elm))) (\<lambda>m.
       put_cnext m listelm (Elem elm))))))"

definition CIRCLEQ_INSERT_TAIL :: "cmem \<Rightarrow> nat \<Rightarrow> cmem res" where
  "CIRCLEQ_INSERT_TAIL m elm =
     bnd (put_cnext m elm Head) (\<lambda>m.
     bnd (put_cprev m elm (cqh_last (chead m))) (\<lambda>m.
     bnd (if cqh_first (chead m) = Head then Inr (put_cfirst m (Elem elm))
          else bnd (elem (cqh_last (chead m))) (\<lambda>b. put_cnext m b (Elem elm))) (\<lambda>m.
       Inr (put_clast m (Elem elm)))))"

definition CIRCLEQ_REMOVE :: "cmem \<Rightarrow> nat \<Rightarrow> cmem res" where
  "CIRCLEQ_REMOVE m elm =
     bnd (cnext m elm) (\<lambda>n.
     bnd (cprev m elm) (\<lambda>p.
     bnd (if n = Head then Inr (put_clast m p) else bnd (elem n) (\<lambda>b. put_cprev m b p)) (\<lambda>m.
     bnd (cprev m elm) (\<lambda>p.
     bnd (cnext m elm) (\<lambda>n.
       if p = Head then Inr (put_cfirst m n) else bnd (elem p) (\<lambda>b. put_cnext m b n))))))"

definition CIRCLEQ_LOOP_NEXT :: "cmem \<Rightarrow> nat \<Rightarrow> cptr res" where
  "CIRCLEQ_LOOP_NEXT m elm =
     bnd (cnext m elm) (\<lambda>n. if n = Head then Inr (cqh_first (chead m)) else cnext m elm)"

definition CIRCLEQ_LOOP_PREV :: "cmem \<Rightarrow> nat \<Rightarrow> cptr res" where
  "CIRCLEQ_LOOP_PREV m elm =
     bnd (cprev m elm) (\<lambda>p. if p = Head then Inr (cqh_last (chead m)) else cprev m elm)"

text \<open>The loops of \<open>CIRCLEQ_FOREACH\<close> and \<open>CIRCLEQ_FOREACH_REVERSE\<close>.\<close>

partial_function (option) circ_walk :: "(cmem \<Rightarrow> nat \<Rightarrow> cptr res) \<Rightarrow> cmem \<Rightarrow> cptr \<Rightarrow> nat list \<Rightarrow> nat list res option" where
  "circ_walk move m var met = (case var of
     Head \<Rightarrow> Some (Inr met)
   | Elem a \<Rightarrow> (case move m a of
       Inl e \<Rightarrow> Some (Inl e)
     | Inr n \<Rightarrow> circ_walk move m n (met @ [a])))"

definition CIRCLEQ_FOREACH :: "cmem \<Rightarrow> nat list res option" where
  "CIRCLEQ_FOREACH m = circ_walk CIRCLEQ_NEXT m (CIRCLEQ_FIRST m) []"

definition CIRCLEQ_FOREACH_REVERSE :: "cmem \<Rightarrow> nat list res option" where
  "CIRCLEQ_FOREACH_REVERSE m = circ_walk CIRCLEQ_PREV m (CIRCLEQ_LAST m) []"

text \<open>The loop of \<open>CIRCLEQ_FOREACH_SAFE\<close>: the next pointer is read before the body runs.\<close>

partial_function (option) circ_walk_safe :: "(cmem \<Rightarrow> nat \<Rightarrow> cmem res) \<Rightarrow> cmem \<Rightarrow> cptr \<Rightarrow> cmem res option" where
  "circ_walk_safe body m var = (case var of
     Head \<Rightarrow> Some (Inr m)
   | Elem a \<Rightarrow> (case CIRCLEQ_NEXT m a of
       Inl e \<Rightarrow> Some (Inl e)
     | Inr n \<Rightarrow> (case body m a of
         Inl e \<Rightarrow> Some (Inl e)
       | Inr m \<Rightarrow> circ_walk_safe body m n)))"

definition CIRCLEQ_FOREACH_SAFE :: "(cmem \<Rightarrow> nat \<Rightarrow> cmem res) \<Rightarrow> cmem \<Rightarrow> cmem res option" where
  "CIRCLEQ_FOREACH_SAFE body m = circ_walk_safe body m (CIRCLEQ_FIRST m)"

section \<open>The ring as a tail queue\<close>

fun as_ptr :: "cptr \<Rightarrow> ptr" where
  "as_ptr Head = Null"
| "as_ptr (Elem a) = Ref a"

fun as_slot :: "cptr \<Rightarrow> slot" where
  "as_slot Head = First 0"
| "as_slot (Elem a) = Next a"

definition as_cell :: "ccell \<Rightarrow> qcell" where
  "as_cell c = \<lparr>q_next = as_ptr (cqe_next c), q_prev = as_slot (cqe_prev c)\<rparr>"

definition as_tailq :: "cmem \<Rightarrow> qmem" where
  "as_tailq m = \<lparr>cells = (\<lambda>a. map_option as_cell (ccells m a)),
     heads = [0 \<mapsto> \<lparr>q_first = as_ptr (cqh_first (chead m)), q_last = as_slot (cqh_last (chead m))\<rparr>]\<rparr>"

lemma as_ptr_iff [simp]: "as_ptr p = Null \<longleftrightarrow> p = Head" "as_ptr p = Ref a \<longleftrightarrow> p = Elem a"
  by (cases p; simp)+

lemma as_slot_iff [simp]: "as_slot p = First h \<longleftrightarrow> p = Head \<and> h = 0" "as_slot p = Next a \<longleftrightarrow> p = Elem a"
  by (cases p; auto)+

lemma as_tailq_sel [simp]:
  "cells (as_tailq m) a = map_option as_cell (ccells m a)"
  "heads (as_tailq m) 0 = Some \<lparr>q_first = as_ptr (cqh_first (chead m)), q_last = as_slot (cqh_last (chead m))\<rparr>"
  by (simp_all add: as_tailq_def)

lemma as_cell_sel [simp]: "q_next (as_cell c) = as_ptr (cqe_next c)" "q_prev (as_cell c) = as_slot (cqe_prev c)"
  by (simp_all add: as_cell_def)

lemma dom_as_tailq [simp]: "dom (cells (as_tailq m)) = dom (ccells m)"
  by (auto simp: dom_def)

lemma as_tailq_updates:
  "(as_tailq m)\<lparr>cells := (cells (as_tailq m))(a \<mapsto> (as_cell c)\<lparr>q_next := as_ptr p\<rparr>)\<rparr> =
     as_tailq (m\<lparr>ccells := (ccells m)(a \<mapsto> c\<lparr>cqe_next := p\<rparr>)\<rparr>)"
  "(as_tailq m)\<lparr>cells := (cells (as_tailq m))(a \<mapsto> (as_cell c)\<lparr>q_prev := as_slot p\<rparr>)\<rparr> =
     as_tailq (m\<lparr>ccells := (ccells m)(a \<mapsto> c\<lparr>cqe_prev := p\<rparr>)\<rparr>)"
  by (auto simp: as_tailq_def as_cell_def)

section \<open>Each macro is the one of TAILQ\<close>

fun map_res :: "('a \<Rightarrow> 'b) \<Rightarrow> 'a res \<Rightarrow> 'b res" where
  "map_res f (Inl e) = Inl e"
| "map_res f (Inr x) = Inr (f x)"

lemma map_res_bnd: "map_res f (bnd r g) = bnd r (\<lambda>x. map_res f (g x))"
  by (cases r) simp_all

lemma bnd_map_res: "bnd (map_res f r) g = bnd r (\<lambda>x. g (f x))"
  by (cases r) simp_all

text \<open>The accesses commute with the abstraction.\<close>

lemma access_commutes:
  "get_next (as_tailq m) a = map_res as_ptr (cnext m a)"
  "get_prev (as_tailq m) a = map_res as_slot (cprev m a)"
  "put_next (as_tailq m) a (as_ptr p) = map_res as_tailq (put_cnext m a p)"
  "put_prev (as_tailq m) a (as_slot p) = map_res as_tailq (put_cprev m a p)"
  by (auto simp: get_next_def get_prev_def put_next_def put_prev_def cnext_def cprev_def put_cnext_def put_cprev_def
      cell_at_def ccell_at_def as_tailq_updates split: option.split)

lemma head_commutes:
  "get_first (as_tailq m) 0 = Inr (as_ptr (cqh_first (chead m)))"
  "get_last (as_tailq m) 0 = Inr (as_slot (cqh_last (chead m)))"
  "put_first (as_tailq m) 0 (as_ptr p) = Inr (as_tailq (put_cfirst m p))"
  "put_last (as_tailq m) 0 (as_slot p) = Inr (as_tailq (put_clast m p))"
  by (auto simp: get_first_def get_last_def put_first_def put_last_def head_at_def put_cfirst_def put_clast_def as_tailq_def)

lemma constants_commute:
  "put_next (as_tailq m) a Null = map_res as_tailq (put_cnext m a Head)"
  "put_next (as_tailq m) a (Ref b) = map_res as_tailq (put_cnext m a (Elem b))"
  "put_prev (as_tailq m) a (First 0) = map_res as_tailq (put_cprev m a Head)"
  "put_prev (as_tailq m) a (Next b) = map_res as_tailq (put_cprev m a (Elem b))"
  "put_first (as_tailq m) 0 (Ref b) = Inr (as_tailq (put_cfirst m (Elem b)))"
  "put_last (as_tailq m) 0 (Next b) = Inr (as_tailq (put_clast m (Elem b)))"
  using access_commutes(3) [of m a Head] access_commutes(3) [of m a "Elem b"] access_commutes(4) [of m a Head]
    access_commutes(4) [of m a "Elem b"] head_commutes(3) [of m "Elem b"] head_commutes(4) [of m "Elem b"] by simp_all

lemmas commutes = access_commutes head_commutes constants_commute map_res_bnd bnd_map_res

text \<open>The branches of the macros: storing through a pointer to an element or the head.\<close>

definition cwrite :: "cmem \<Rightarrow> cptr \<Rightarrow> cptr \<Rightarrow> cmem res" where
  "cwrite m s p = (if s = Head then Inr (put_cfirst m p) else bnd (elem s) (\<lambda>b. put_cnext m b p))"

definition cbehind :: "cmem \<Rightarrow> cptr \<Rightarrow> cptr \<Rightarrow> cmem res" where
  "cbehind m n s = (if n = Head then Inr (put_clast m s) else bnd (elem n) (\<lambda>b. put_cprev m b s))"

lemma write_commutes: "write_slot (as_tailq m) (as_slot s) (as_ptr p) = map_res as_tailq (cwrite m s p)"
  by (cases s) (simp_all add: commutes elem_def cwrite_def)

lemma write_Elem_commutes: "write_slot (as_tailq m) (as_slot s) (Ref a) = map_res as_tailq (cwrite m s (Elem a))"
  using write_commutes [of m s "Elem a"] by simp

lemma behind_commutes: "fix_behind (as_tailq m) 0 (as_ptr n) (as_slot s) = map_res as_tailq (cbehind m n s)"
  by (cases n) (simp_all add: fix_behind_def commutes elem_def addr_simps cbehind_def)

lemma behind_Elem_commutes: "fix_behind (as_tailq m) 0 (as_ptr n) (Next a) = map_res as_tailq (cbehind m n (Elem a))"
  using behind_commutes [of m n "Elem a"] by simp

lemma ccell_accesses:
  assumes "ccells m a = Some c"
  shows "cnext m a = Inr (cqe_next c)" and "cprev m a = Inr (cqe_prev c)"
    and "put_cnext m a p = Inr (m\<lparr>ccells := (ccells m)(a \<mapsto> c\<lparr>cqe_next := p\<rparr>)\<rparr>)"
    and "put_cprev m a p = Inr (m\<lparr>ccells := (ccells m)(a \<mapsto> c\<lparr>cqe_prev := p\<rparr>)\<rparr>)"
  using assms by (simp_all add: cnext_def cprev_def put_cnext_def put_cprev_def ccell_at_def)

lemma circleq_init_is_tailq: "TAILQ_INIT (as_tailq m) 0 = Inr (as_tailq (CIRCLEQ_INIT m))"
  using head_commutes(3) [of m Head] head_commutes(4) [of _ Head] by (simp add: TAILQ_INIT_def CIRCLEQ_INIT_def)

lemma circleq_remove_is_tailq: "TAILQ_REMOVE (as_tailq m) 0 a = map_res as_tailq (CIRCLEQ_REMOVE m a)"
  unfolding TAILQ_REMOVE_def CIRCLEQ_REMOVE_def fix_behind_def [symmetric] cbehind_def [symmetric] cwrite_def [symmetric]
  by (simp add: commutes behind_commutes write_commutes)

lemma circleq_insert_before_is_tailq:
  assumes "a \<noteq> b" and "ccells m a = Some x" and "ccells m b = Some y"
  shows "TAILQ_INSERT_BEFORE (as_tailq m) b a = map_res as_tailq (CIRCLEQ_INSERT_BEFORE m b a)"
  using assms unfolding TAILQ_INSERT_BEFORE_def CIRCLEQ_INSERT_BEFORE_def cwrite_def [symmetric]
  by (cases x) (simp add: commutes ccell_accesses write_Elem_commutes)

lemma circleq_insert_after_is_tailq:
  assumes "a \<noteq> b" and "ccells m a = Some x" and "ccells m b = Some y"
    and "\<And>d. cqe_next y = Elem d \<Longrightarrow> d \<noteq> a \<and> d \<noteq> b \<and> d \<in> dom (ccells m)"
  shows "TAILQ_INSERT_AFTER (as_tailq m) 0 b a = map_res as_tailq (CIRCLEQ_INSERT_AFTER m b a)"
proof (cases "cqe_next y")
  case Head
  then show ?thesis using assms(1-3)
    by (cases x) (simp add: TAILQ_INSERT_AFTER_def CIRCLEQ_INSERT_AFTER_def commutes ccell_accesses put_clast_def fun_upd_twist)
next
  case (Elem d)
  then obtain z where z: "ccells m d = Some z" "d \<noteq> a" "a \<noteq> d" "d \<noteq> b" "b \<noteq> d" using assms(4) by blast
  then show ?thesis using Elem assms(1-3)
    by (cases x) (simp add: TAILQ_INSERT_AFTER_def CIRCLEQ_INSERT_AFTER_def commutes ccell_accesses elem_def addr_simps fun_upd_twist)
qed

text \<open>
  At the ends the macros look at the other end of the head where TAILQ looks at the pointer it
  replaces, which is the same on a well-formed queue.
\<close>

lemma circleq_insert_head_is_tailq:
  assumes "ccells m a = Some x" and "cqh_first (chead m) = Head \<longleftrightarrow> cqh_last (chead m) = Head"
    and "\<And>d. cqh_first (chead m) = Elem d \<Longrightarrow> d \<noteq> a \<and> d \<in> dom (ccells m)"
  shows "TAILQ_INSERT_HEAD (as_tailq m) 0 a = map_res as_tailq (CIRCLEQ_INSERT_HEAD m a)"
proof (cases "cqh_first (chead m)")
  case Head
  then show ?thesis using assms(1,2)
    by (cases x; cases m) (simp add: TAILQ_INSERT_HEAD_def CIRCLEQ_INSERT_HEAD_def commutes ccell_accesses put_clast_def put_cfirst_def fun_upd_twist)
next
  case (Elem d)
  then obtain z where z: "ccells m d = Some z" "d \<noteq> a" "a \<noteq> d" using assms(3) by blast
  then show ?thesis using Elem assms(1,2)
    by (cases x; cases m) (simp add: TAILQ_INSERT_HEAD_def CIRCLEQ_INSERT_HEAD_def commutes ccell_accesses elem_def addr_simps
        put_cfirst_def fun_upd_twist)
qed

lemma circleq_insert_tail_is_tailq:
  assumes "ccells m a = Some x" and "cqh_first (chead m) = Head \<longleftrightarrow> cqh_last (chead m) = Head"
  shows "TAILQ_INSERT_TAIL (as_tailq m) 0 a = map_res as_tailq (CIRCLEQ_INSERT_TAIL m a)"
proof (cases "cqh_last (chead m)")
  case Head
  then show ?thesis using assms
    by (simp add: TAILQ_INSERT_TAIL_def CIRCLEQ_INSERT_TAIL_def commutes ccell_accesses)
next
  case (Elem d)
  then show ?thesis using assms
    by (simp add: TAILQ_INSERT_TAIL_def CIRCLEQ_INSERT_TAIL_def commutes ccell_accesses elem_def)
qed

section \<open>Rings\<close>

definition circ_rep :: "cmem \<Rightarrow> nat list \<Rightarrow> bool" where
  "circ_rep m xs \<longleftrightarrow> tailq_rep 0 (as_tailq m) xs"

lemma circ_ends: "circ_rep m xs \<Longrightarrow> cqh_first (chead m) = Head \<longleftrightarrow> cqh_last (chead m) = Head"
proof -
  assume "circ_rep m xs"
  then have c: "chain True (cells (as_tailq m)) (as_ptr (cqh_first (chead m))) (First 0) xs Null (as_slot (cqh_last (chead m)))"
    by (simp add: circ_rep_def tail_rep_def)
  show ?thesis using chain_slot [OF c] chain_first [OF c] by (cases xs) auto
qed

lemma circ_elems: "circ_rep m xs \<Longrightarrow> set xs \<subseteq> dom (ccells m)"
  using seg_cells [of True "as_tailq m" 0 xs] by (auto simp: circ_rep_def elim!: tail_end)

lemma circ_first: "circ_rep m xs \<Longrightarrow> cqh_first (chead m) = (case xs of [] \<Rightarrow> Head | a # _ \<Rightarrow> Elem a)"
  by (cases xs) (auto simp: circ_rep_def tail_rep_def)

lemma circ_last: "circ_rep m xs \<Longrightarrow> cqh_last (chead m) = (if xs = [] then Head else Elem (last xs))"
  using tail_last [of True 0 "as_tailq m" xs] by (auto simp: circ_rep_def head_commutes split: if_splits)

text \<open>The neighbours of an element.\<close>

lemma circ_links:
  assumes "circ_rep m (us @ b # vs)"
  obtains y where "ccells m b = Some y" and "cqe_next y = (case vs of [] \<Rightarrow> Head | d # _ \<Rightarrow> Elem d)"
    and "cqe_prev y = (if us = [] then Head else Elem (last us))"
proof -
  obtain s x k where s: "seg True (as_tailq m) 0 us (Ref b) s" and x: "cells (as_tailq m) b = Some x" "True \<longrightarrow> q_prev x = s"
      and "heads (as_tailq m) 0 = Some k"
      and v: "chain True (cells (as_tailq m)) (q_next x) (Next b) vs Null (q_last k)" and "distinct (us @ b # vs)"
    by (rule tail_cut [OF assms [unfolded circ_rep_def]])
  obtain y where y: "ccells m b = Some y" "x = as_cell y" using x(1) by auto
  have "s = (if us = [] then First 0 else Next (last us))" using s chain_slot by (fastforce simp: seg_def)
  then show thesis using that [OF y(1)] y(2) x(2) chain_first [OF v] by (cases vs; cases us) auto
qed

lemma circ_next_elem:
  assumes "circ_rep m (us @ b # vs)" and "a \<notin> set (us @ b # vs)" and "ccells m b = Some y" and "cqe_next y = Elem d"
  shows "d \<noteq> a \<and> d \<noteq> b \<and> d \<in> dom (ccells m)"
proof -
  have dis: "distinct (us @ b # vs)" by (rule tail_rep_distinct [OF assms(1) [unfolded circ_rep_def]])
  obtain z where "ccells m b = Some z" "cqe_next z = (case vs of [] \<Rightarrow> Head | d # _ \<Rightarrow> Elem d)"
    by (rule circ_links [OF assms(1)])
  then obtain ds where vs: "vs = d # ds" using assms(3,4) by (cases vs) auto
  then show ?thesis using dis assms(2) circ_elems [OF assms(1)] by auto
qed

section \<open>The contract\<close>

fun circ_supported :: "cmd \<Rightarrow> bool" where
  "circ_supported (Replace b a) \<longleftrightarrow> False"
| "circ_supported Remove_head \<longleftrightarrow> False"
| "circ_supported _ \<longleftrightarrow> True"

fun circ_exec :: "cmd \<Rightarrow> cmem \<Rightarrow> cmem res" where
  "circ_exec (Insert_head a) m = CIRCLEQ_INSERT_HEAD m a"
| "circ_exec (Insert_tail a) m = CIRCLEQ_INSERT_TAIL m a"
| "circ_exec (Insert_before b a) m = CIRCLEQ_INSERT_BEFORE m b a"
| "circ_exec (Insert_after b a) m = CIRCLEQ_INSERT_AFTER m b a"
| "circ_exec (Remove a) m = CIRCLEQ_REMOVE m a"
| "circ_exec c m = Inl Uninitialised"

lemma map_res_Inr: "map_res f r = Inr y \<longleftrightarrow> (\<exists>x. r = Inr x \<and> y = f x)"
  by (cases r) auto

text \<open>On a ring every command is the one on the tail queue.\<close>

lemma circ_exec_is_tailq:
  assumes rep: "circ_rep m xs" and sup: "circ_supported c" and mean: "meaning c xs = Some ys"
    and el: "cmd_elems c \<subseteq> dom (ccells m)"
  shows "tailq_exec 0 c (as_tailq m) = map_res as_tailq (circ_exec c m)"
proof (cases c)
  case (Insert_head a)
  then obtain x where x: "ccells m a = Some x" using el by auto
  have "d \<noteq> a \<and> d \<in> dom (ccells m)" if "cqh_first (chead m) = Elem d" for d
    using that circ_first [OF rep] circ_elems [OF rep] mean Insert_head by (cases xs) (auto split: if_splits)
  then show ?thesis using circleq_insert_head_is_tailq [OF x circ_ends [OF rep]] Insert_head by simp
next
  case (Insert_tail a)
  then obtain x where "ccells m a = Some x" using el by auto
  then show ?thesis using circleq_insert_tail_is_tailq [OF _ circ_ends [OF rep]] Insert_tail by simp
next
  case (Insert_before b a)
  then have b: "b \<in> set xs" "a \<notin> set xs" using mean by (auto split: if_splits)
  then obtain y where "ccells m b = Some y" using circ_elems [OF rep] by auto
  moreover obtain x where "ccells m a = Some x" using el Insert_before by auto
  ultimately show ?thesis using circleq_insert_before_is_tailq [of a b m x y] b Insert_before by auto
next
  case (Insert_after b a)
  then have b: "b \<in> set xs" "a \<notin> set xs" using mean by (auto split: if_splits)
  then obtain y where y: "ccells m b = Some y" using circ_elems [OF rep] by auto
  obtain x where x: "ccells m a = Some x" using el Insert_after by auto
  have "d \<noteq> a \<and> d \<noteq> b \<and> d \<in> dom (ccells m)" if "cqe_next y = Elem d" for d
    using circ_next_elem [of m _ b _ a y d] rep around_elem [OF b(1)] b(2) y that by metis
  then show ?thesis using circleq_insert_after_is_tailq [OF _ x y] b Insert_after by auto
next
  case (Remove a)
  then show ?thesis using circleq_remove_is_tailq by simp
qed (use sup in auto)

lemma circ_exec_ok:
  assumes "circ_rep m xs" and "circ_supported c" and "meaning c xs = Some ys" and "cmd_elems c \<subseteq> dom (ccells m)"
  shows "\<exists>m'. circ_exec c m = Inr m' \<and> circ_rep m' ys \<and> dom (ccells m') = dom (ccells m)"
proof -
  obtain n where n: "tailq_exec 0 c (as_tailq m) = Inr n" "tailq_rep 0 n ys" "dom (cells n) = dom (ccells m)"
    using tailq_exec_ok [of 0 "as_tailq m" xs c ys] assms by (auto simp: circ_rep_def)
  then obtain m' where "circ_exec c m = Inr m'" "n = as_tailq m'"
    using circ_exec_is_tailq [OF assms] by (auto simp: map_res_Inr)
  then show ?thesis using n(2,3) by (auto simp: circ_rep_def)
qed

lemma circ_moves:
  "ccells m a = Some y \<Longrightarrow> CIRCLEQ_NEXT m a = Inr (cqe_next y)"
  "ccells m a = Some y \<Longrightarrow> CIRCLEQ_PREV m a = Inr (cqe_prev y)"
  by (simp_all add: CIRCLEQ_NEXT_def CIRCLEQ_PREV_def ccell_accesses)

lemma circ_foreach_suffix:
  "circ_rep m (us @ vs) \<Longrightarrow>
    circ_walk CIRCLEQ_NEXT m (case vs of [] \<Rightarrow> Head | a # _ \<Rightarrow> Elem a) met = Some (Inr (met @ vs))"
proof (induction vs arbitrary: us met)
  case Nil
  then show ?case by (subst circ_walk.simps) simp
next
  case (Cons a vs)
  obtain y where "ccells m a = Some y" "cqe_next y = (case vs of [] \<Rightarrow> Head | d # _ \<Rightarrow> Elem d)"
    by (rule circ_links [OF Cons.prems])
  then show ?case using Cons.IH [of "us @ [a]"] Cons.prems
    by (subst circ_walk.simps) (simp add: circ_moves)
qed

lemma circ_foreach: "circ_rep m xs \<Longrightarrow> CIRCLEQ_FOREACH m = Some (Inr xs)"
  using circ_foreach_suffix [of m "[]" xs "[]"] by (simp add: CIRCLEQ_FOREACH_def CIRCLEQ_FIRST_def circ_first)

lemma circ_foreach_prefix:
  "circ_rep m (us @ vs) \<Longrightarrow>
    circ_walk CIRCLEQ_PREV m (if us = [] then Head else Elem (last us)) met = Some (Inr (met @ rev us))"
proof (induction us arbitrary: vs met rule: rev_induct)
  case Nil
  then show ?case by (subst circ_walk.simps) simp
next
  case (snoc a us)
  have r: "circ_rep m (us @ a # vs)" using snoc.prems by simp
  obtain y where "ccells m a = Some y" "cqe_prev y = (if us = [] then Head else Elem (last us))"
    by (rule circ_links [OF r])
  then show ?case using snoc.IH [OF r, of "met @ [a]"]
    by (subst circ_walk.simps) (simp add: circ_moves)
qed

lemma circ_foreach_reverse: "circ_rep m xs \<Longrightarrow> CIRCLEQ_FOREACH_REVERSE m = Some (Inr (rev xs))"
  using circ_foreach_prefix [of m xs "[]" "[]"] by (simp add: CIRCLEQ_FOREACH_REVERSE_def CIRCLEQ_LAST_def circ_last)

interpretation circle: two_way_list circ_rep "\<lambda>m. dom (ccells m)" circ_supported circ_exec CIRCLEQ_FOREACH CIRCLEQ_FOREACH_REVERSE
  by unfold_locales (auto intro: circ_exec_ok circ_foreach circ_foreach_reverse)

lemma circ_init: "circ_rep (CIRCLEQ_INIT m) []" "ccells (CIRCLEQ_INIT m) = ccells m"
  by (simp_all add: circ_rep_def tail_rep_def CIRCLEQ_INIT_def put_clast_def put_cfirst_def)

section \<open>Properties\<close>

text \<open>
  C18. The CIRCLEQ macros implement rings: after \<open>CIRCLEQ_INIT\<close> and any sequence of insertions and
  removals that makes sense on plain lists no macro has faulted, the two FOREACH loops meet the
  elements of the resulting list forwards and backwards, and \<open>CIRCLEQ_LOOP_NEXT\<close> and
  \<open>CIRCLEQ_LOOP_PREV\<close> go round: from the last element to the first and back.
\<close>

theorem circleq_macros_refine:
  assumes "list_all circ_supported cs" and "meaning_all cs [] = Some ys"
    and "\<forall>c \<in> set cs. cmd_elems c \<subseteq> dom (ccells m)"
  shows "\<exists>m'. linked_list.exec_all circ_exec cs (CIRCLEQ_INIT m) = Inr m' \<and>
    CIRCLEQ_FOREACH m' = Some (Inr ys) \<and> CIRCLEQ_FOREACH_REVERSE m' = Some (Inr (rev ys)) \<and>
    (\<forall>us b vs. ys = us @ b # vs \<longrightarrow>
      CIRCLEQ_LOOP_NEXT m' b = Inr (Elem (hd (vs @ us @ [b]))) \<and>
      CIRCLEQ_LOOP_PREV m' b = Inr (Elem (last (b # vs @ us))))"
proof -
  obtain m' where m': "linked_list.exec_all circ_exec cs (CIRCLEQ_INIT m) = Inr m'" "circ_rep m' ys"
    using circle.exec_all_ok [OF circ_init(1) assms(1,2), of m] assms(3) by (auto simp: circ_init)
  have "CIRCLEQ_LOOP_NEXT m' b = Inr (Elem (hd (vs @ us @ [b])))"
    and "CIRCLEQ_LOOP_PREV m' b = Inr (Elem (last (b # vs @ us)))" if ys: "ys = us @ b # vs" for us b vs
  proof -
    have r: "circ_rep m' (us @ b # vs)" using m'(2) ys by simp
    obtain y where y: "ccells m' b = Some y" "cqe_next y = (case vs of [] \<Rightarrow> Head | d # _ \<Rightarrow> Elem d)"
        "cqe_prev y = (if us = [] then Head else Elem (last us))"
      by (rule circ_links [OF r])
    show "CIRCLEQ_LOOP_NEXT m' b = Inr (Elem (hd (vs @ us @ [b])))"
      using y circ_first [OF r] by (cases vs; cases us) (simp_all add: CIRCLEQ_LOOP_NEXT_def ccell_accesses)
    show "CIRCLEQ_LOOP_PREV m' b = Inr (Elem (last (b # vs @ us)))"
      using y circ_last [OF r] by (cases us) (simp_all add: CIRCLEQ_LOOP_PREV_def ccell_accesses)
  qed
  then show ?thesis using m'(1) circ_foreach [OF m'(2)] circ_foreach_reverse [OF m'(2)] by blast
qed

theorem circleq_macros_refine_witness:
  "\<exists>m'. linked_list.exec_all circ_exec [Insert_tail 1, Insert_head 2, Insert_after 2 3, Remove 2]
      (CIRCLEQ_INIT \<lparr>ccells = (\<lambda>_. Some \<lparr>cqe_next = Elem 9, cqe_prev = Elem 9\<rparr>),
        chead = \<lparr>cqh_first = Elem 9, cqh_last = Elem 9\<rparr>\<rparr>) = Inr m' \<and>
    CIRCLEQ_FOREACH m' = Some (Inr [3, 1]) \<and> CIRCLEQ_LOOP_NEXT m' 1 = Inr (Elem 3)"
proof -
  let ?cs = "[Insert_tail 1, Insert_head 2, Insert_after 2 3, Remove 2]"
  let ?m = "\<lparr>ccells = (\<lambda>_. Some \<lparr>cqe_next = Elem 9, cqe_prev = Elem 9\<rparr>), chead = \<lparr>cqh_first = Elem 9, cqh_last = Elem 9\<rparr>\<rparr>"
  have h: "list_all circ_supported ?cs" "\<forall>c \<in> set ?cs. cmd_elems c \<subseteq> dom (ccells ?m)" by auto
  have m: "meaning_all ?cs [] = Some [3, 1]" by (simp add: upto_elem_def after_elem_def)
  obtain m' where m': "linked_list.exec_all circ_exec ?cs (CIRCLEQ_INIT ?m) = Inr m'" "CIRCLEQ_FOREACH m' = Some (Inr [3, 1])"
      and l: "\<forall>us b vs. [3, 1] = us @ b # vs \<longrightarrow> CIRCLEQ_LOOP_NEXT m' b = Inr (Elem (hd (vs @ us @ [b])))"
    using circleq_macros_refine [OF h(1) m h(2)] by blast
  have "CIRCLEQ_LOOP_NEXT m' 1 = Inr (Elem 3)" using l [rule_format, of "[3]" 1 "[]"] by simp
  then show ?thesis using m' by blast
qed

end
