(* ===== verification/Socket_File.thy ===== *)
theory Socket_File
  imports Socket_Data
begin

text \<open>
  The socket server on a regular file: without USE_AESD_CHAR_DEVICE the output file is
  \<open>/var/tmp/aesdsocketdata\<close>. The same two functions then work for messages in any number of
  pieces and for files of any length. What the receiving function does with an error or an early
  end of the connection, on any file, is here too.
\<close>

section \<open>A regular file\<close>

record plain_file =
  content :: "u8 list"
  descriptors :: nat

text \<open>
  Opened with O_APPEND for writing; reads are from the position of their descriptor. The
  request of the seek command is unknown to a regular file (ENOTTY).
\<close>

definition plain_ops :: "plain_file file_ops" where
  "plain_ops = \<lparr>
     op_open = (\<lambda>f. (f\<lparr>descriptors := descriptors f + 1\<rparr>, 3)),
     op_close = (\<lambda>f. f\<lparr>descriptors := descriptors f - 1\<rparr>),
     op_write = (\<lambda>f bs. Inr (f\<lparr>content := content f @ bs\<rparr>, int (length bs))),
     op_seekto = (\<lambda>f k. Inr (f, - 1)),
     op_read = (\<lambda>f pos count.
       let bs = take (unat count) (drop (unat pos) (content f))
       in Inr (f, pos + of_nat (length bs), int (length bs), bs))\<rparr>"

text \<open>\<open>send\<close> takes everything.\<close>

definition sent_whole :: "nat \<Rightarrow> u8 list \<Rightarrow> int" where
  "sent_whole i bs = int (length bs)"

section \<open>Receiving\<close>

text \<open>
  The pieces of a message: the newline that ends it is in the last one, none is taken for a
  command, and each has something for \<open>strtok\<close> to return.
\<close>

fun message :: "nat \<Rightarrow> u8 list list \<Rightarrow> bool" where
  "message cap [] \<longleftrightarrow> False"
| "message cap [c] \<longleftrightarrow> plain_chunk c \<and> length c \<le> cap \<and> strchr_found (cstr c) lf"
| "message cap (c # cs) \<longleftrightarrow> plain_chunk c \<and> length c \<le> cap \<and> \<not> strchr_found (cstr c) lf \<and> message cap cs"

definition arrivals :: "u8 list list \<Rightarrow> recv_event list" where
  "arrivals cs = map (\<lambda>c. arrives c) cs"

lemma receive_message:
  assumes "message BUF_SIZE cs" and "length buf = BUF_SIZE + 1"
  shows "receive_loop plain_ops (arrivals cs @ evs) buf f leaked =
    Inr (f\<lparr>content := content f @ concat cs, descriptors := descriptors f - 1\<rparr>, leaked + length cs, Some 0)"
  using assms
proof (induction BUF_SIZE cs arbitrary: f buf leaked rule: message.induct)
  case (2 c)
  then have "length c < length buf" by simp
  then show ?case using 2 by (simp add: arrivals_def receive_plain plain_ops_def)
next
  case (3 c c' cs)
  then have len: "length c < length buf" by simp
  let ?buf = "(c @ drop (length c) buf)[length c := 0]"
  have "length ?buf = BUF_SIZE + 1" using buf_after_recv(3) [OF len] 3(3) by simp
  then have "receive_loop plain_ops (arrivals (c' # cs) @ evs) ?buf (f\<lparr>content := content f @ c\<rparr>) (leaked + 1) =
      Inr (f\<lparr>content := content f @ c @ concat (c' # cs), descriptors := descriptors f - 1\<rparr>,
        leaked + 1 + length (c' # cs), Some 0)"
    using 3(1) [of ?buf "f\<lparr>content := content f @ c\<rparr>" "leaked + 1"] 3(2) by simp
  then show ?case using 3(2) len
    by (simp add: arrivals_def receive_plain plain_ops_def)
qed simp

section \<open>Sending back\<close>

lemma BUF_word: "unat (of_nat BUF_SIZE :: u64) = BUF_SIZE"
  by (intro unat_of_nat_u64) (simp add: BUF_SIZE_def)

text \<open>The loop sends the rest of the file and needs one turn for each full buffer and one more.\<close>

lemma return_rest:
  "unat pos \<le> length (content f) \<Longrightarrow> length (content f) + BUF_SIZE < 2 ^ 64 \<Longrightarrow>
    (length (content f) - unat pos) div BUF_SIZE < fuel \<Longrightarrow>
    return_loop fuel plain_ops sent_whole i f pos sent =
      Some (Inr (f\<lparr>descriptors := descriptors f - 1\<rparr>, 0, sent @ drop (unat pos) (content f)))"
proof (induction fuel arbitrary: i pos sent)
  case (Suc fuel)
  let ?rest = "drop (unat pos) (content f)"
  let ?bs = "take BUF_SIZE ?rest"
  have B: "0 < BUF_SIZE" by (simp add: BUF_SIZE_def)
  show ?case
  proof (cases "BUF_SIZE \<le> length ?rest")
    case True
    then have l: "length ?bs = BUF_SIZE" by simp
    have p: "unat (pos + of_nat BUF_SIZE) = unat pos + BUF_SIZE"
      using Suc.prems(1,2) BUF_word unat_plus_u64 [of pos "of_nat BUF_SIZE"] by simp
    have "(length (content f) - unat pos) div BUF_SIZE = Suc ((length (content f) - unat (pos + of_nat BUF_SIZE)) div BUF_SIZE)"
      using True B p by (simp add: le_div_geq)
    then have fuel: "(length (content f) - unat (pos + of_nat BUF_SIZE)) div BUF_SIZE < fuel" using Suc.prems(3) by simp
    have "return_loop (Suc fuel) plain_ops sent_whole i f pos sent =
        return_loop fuel plain_ops sent_whole (Suc i) f (pos + of_nat BUF_SIZE) (sent @ ?bs)"
      using l by (simp add: plain_ops_def sent_whole_def BUF_word Let_def)
    moreover have "return_loop fuel plain_ops sent_whole (Suc i) f (pos + of_nat BUF_SIZE) (sent @ ?bs) =
        Some (Inr (f\<lparr>descriptors := descriptors f - 1\<rparr>, 0, (sent @ ?bs) @ drop (unat (pos + of_nat BUF_SIZE)) (content f)))"
      using True p Suc.prems(1,2) fuel by (intro Suc.IH) auto
    moreover have "?bs @ drop (unat (pos + of_nat BUF_SIZE)) (content f) = ?rest"
      unfolding p by (metis append_take_drop_id drop_drop add.commute)
    ultimately show ?thesis by simp
  next
    case False
    then show ?thesis by (simp add: plain_ops_def sent_whole_def BUF_word)
  qed
qed simp

section \<open>Properties\<close>

text \<open>
  C28. On a regular file, for a message in any number of pieces that the receiving loop takes as
  plain data: each fits the buffer, has something other than colons before its first NUL and does
  not start as the seek command, and the last is the first in which a newline comes before any
  NUL. The message is appended whole, one copy of the buffer is leaked for each piece, and the
  reply is the whole file. The reply loop ends after one turn for each full buffer and one more,
  whatever the length, also when it is a multiple of the buffer.
\<close>

theorem regular_file_session:
  assumes "message BUF_SIZE cs" and "length buf = BUF_SIZE + 1"
    and "length (content f @ concat cs) + BUF_SIZE < 2 ^ 64"
  shows "\<exists>f'. recieve_socket_data plain_ops (arrivals cs @ evs) buf f = Inr (f', length cs, Some 0) \<and>
    content f' = content f @ concat cs \<and> descriptors f' = descriptors f \<and>
    return_socket_data (Suc (length (content f') div BUF_SIZE)) plain_ops sent_whole f' = Some (Inr (f', 0, content f'))"
proof -
  let ?f = "f\<lparr>content := content f @ concat cs\<rparr>"
  have "recieve_socket_data plain_ops (arrivals cs @ evs) buf f = Inr (?f, length cs, Some 0)"
    using receive_message [OF assms(1,2), of evs "f\<lparr>descriptors := descriptors f + 1\<rparr>" 0]
    by (simp add: recieve_socket_data_def plain_ops_def)
  moreover have "return_socket_data (Suc (length (content ?f) div BUF_SIZE)) plain_ops sent_whole ?f =
      Some (Inr (?f, 0, content ?f))"
    using return_rest [of 0 "?f\<lparr>descriptors := descriptors f + 1\<rparr>" "Suc (length (content ?f) div BUF_SIZE)" 0 "[]"] assms(3)
    by (simp add: return_socket_data_def plain_ops_def)
  ultimately show ?thesis by simp
qed

text \<open>"a", then "b" and a newline, after a file that holds "x".\<close>

theorem regular_file_session_witness:
  "\<exists>f'. recieve_socket_data plain_ops (arrivals [[97], [98, 10]]) (replicate 30721 0) \<lparr>content = [120], descriptors = 0\<rparr> =
      Inr (f', 2, Some 0) \<and> content f' = [120, 97, 98, 10]"
proof -
  have m: "message BUF_SIZE [[97], [98, 10]]"
    by (auto simp: plain_chunk_def cstr_def strtok_def seekto_name_def BUF_SIZE_def strchr_found_def)
  have b: "length (replicate 30721 (0 :: u8)) = BUF_SIZE + 1" by (simp add: BUF_SIZE_def)
  have s: "length (content \<lparr>content = [120], descriptors = 0\<rparr> @ concat [[97], [98, 10]]) + BUF_SIZE < 2 ^ 64"
    by (simp add: BUF_SIZE_def)
  show ?thesis using regular_file_session [OF m b s, of "[]"] by auto
qed

section \<open>Errors while receiving\<close>

text \<open>The pieces that came before, none the last of a message, and their writes, which succeed.\<close>

fun writes :: "'s file_ops \<Rightarrow> u8 list list \<Rightarrow> 's \<Rightarrow> 's option" where
  "writes ops [] s = Some s"
| "writes ops (c # cs) s = (case op_write ops s c of
     Inr (s', nwrit) \<Rightarrow> if nwrit < 0 then None else writes ops cs s'
   | Inl _ \<Rightarrow> None)"

definition unfinished :: "nat \<Rightarrow> u8 list \<Rightarrow> bool" where
  "unfinished cap c \<longleftrightarrow> plain_chunk c \<and> length c < cap \<and> \<not> strchr_found (cstr c) lf"

lemma receive_pieces:
  "list_all (unfinished (length buf)) cs \<Longrightarrow> writes ops cs s = Some t \<Longrightarrow>
    \<exists>buf'. length buf' = length buf \<and>
      receive_loop ops (arrivals cs @ evs) buf s leaked = receive_loop ops evs buf' t (leaked + length cs)"
proof (induction cs arbitrary: buf s leaked)
  case (Cons c cs)
  let ?buf = "(c @ drop (length c) buf)[length c := 0]"
  have c: "plain_chunk c" "length c < length buf" "\<not> strchr_found (cstr c) lf"
    using Cons.prems(1) by (simp_all add: unfinished_def)
  have l: "length ?buf = length buf" by (rule buf_after_recv(3) [OF c(2)])
  obtain s' n where w: "op_write ops s c = Inr (s', n)" "\<not> n < 0" "writes ops cs s' = Some t"
    using Cons.prems(2) by (auto split: sum.splits if_splits)
  have "receive_loop ops (arrivals (c # cs) @ evs) buf s leaked = receive_loop ops (arrivals cs @ evs) ?buf s' (leaked + 1)"
    using c(3) w(1,2) receive_plain [OF _ _ c(2,1), of "arrives c" ops "arrivals cs @ evs" s leaked]
    by (simp add: arrivals_def)
  moreover have "list_all (unfinished (length ?buf)) cs" unfolding l using Cons.prems(1) by simp
  then obtain buf' where "length buf' = length ?buf"
      "receive_loop ops (arrivals cs @ evs) ?buf s' (leaked + 1) = receive_loop ops evs buf' t (leaked + 1 + length cs)"
    using Cons.IH [of ?buf s' "leaked + 1"] w(3) by blast
  ultimately show ?case using l by (intro exI [of _ buf']) simp
qed (auto simp: arrivals_def)

text \<open>
  C35. In whatever turn of the receiving loop, after any number of pieces of plain data without a
  newline that the file has taken, on whatever file: when \<open>recv\<close> fails the function
  writes in front of its buffer before it looks at the result; when the peer closes before it has
  sent a newline, or a piece has only colons before its first NUL, it passes NULL to \<open>strcmp\<close>.
\<close>

theorem receive_error_faults:
  assumes "op_open ops s = (s1, fd)" and "0 \<le> fd"
    and "list_all (unfinished (length buf)) cs" and "writes ops cs s1 = Some t"
    and "length bs < length buf" and "set (cstr bs) \<subseteq> {colon}"
  shows "recieve_socket_data ops (arrivals cs @ \<lparr>received = None, malloced = a\<rparr> # evs) buf s = Inl OutOfBounds \<and>
    recieve_socket_data ops (arrivals cs @ arrives [] # evs) buf s = Inl NullDeref \<and>
    recieve_socket_data ops (arrivals cs @ arrives bs # evs) buf s = Inl NullDeref"
proof -
  have faults: "recieve_socket_data ops (arrivals cs @ arrives xs # evs) buf s = Inl NullDeref"
    if xs: "length xs < length buf" "set (cstr xs) \<subseteq> {colon}" for xs
  proof -
    obtain buf' where b: "length buf' = length buf" "receive_loop ops (arrivals cs @ arrives xs # evs) buf s1 0 =
        receive_loop ops (arrives xs # evs) buf' t (0 + length cs)"
      using receive_pieces [OF assms(3,4)] by blast
    have st: "strtok {colon} (cstr xs) = None" using xs(2) by (simp add: strtok_None_iff)
    have len: "length xs < length buf'" using xs(1) b(1) by simp
    have "receive_loop ops (arrives xs # evs) buf' t (0 + length cs) = Inl NullDeref"
      by (subst receive_loop_step [OF _ _ len]) (simp_all only: st option.case recv_event.select_convs)
    then show ?thesis using assms(1,2) b(2) by (simp add: recieve_socket_data_def)
  qed
  obtain buf' where "receive_loop ops (arrivals cs @ \<lparr>received = None, malloced = a\<rparr> # evs) buf s1 0 =
      receive_loop ops (\<lparr>received = None, malloced = a\<rparr> # evs) buf' t (0 + length cs)"
    using receive_pieces [OF assms(3,4)] by blast
  then have "recieve_socket_data ops (arrivals cs @ \<lparr>received = None, malloced = a\<rparr> # evs) buf s = Inl OutOfBounds"
    using assms(1,2) by (simp add: recieve_socket_data_def receive_loop.simps(2))
  moreover have "length ([] :: u8 list) < length buf" using assms(5) by (cases buf) simp_all
  ultimately show ?thesis using faults [OF assms(5,6)] faults [of "[]"] by (simp add: cstr_def)
qed

text \<open>After a first piece "a".\<close>

theorem receive_error_faults_witness:
  "recieve_socket_data plain_ops (arrivals [[97]] @ [\<lparr>received = None, malloced = True\<rparr>]) [1, 2, 3] \<lparr>content = [], descriptors = 0\<rparr> =
      Inl OutOfBounds \<and>
   recieve_socket_data plain_ops (arrivals [[97]] @ [arrives [58]]) [1, 2, 3] \<lparr>content = [], descriptors = 0\<rparr> = Inl NullDeref"
proof -
  have o: "op_open plain_ops \<lparr>content = [], descriptors = 0\<rparr> = (\<lparr>content = [], descriptors = 1\<rparr>, 3)" by (simp add: plain_ops_def)
  have u: "list_all (unfinished (length [1, 2, 3 :: u8])) [[97]]"
    by (auto simp: unfinished_def plain_chunk_def cstr_def strtok_def seekto_name_def strchr_found_def)
  have w: "writes plain_ops [[97]] \<lparr>content = [], descriptors = 1\<rparr> = Some \<lparr>content = [97], descriptors = 1\<rparr>"
    by (simp add: plain_ops_def)
  have c: "length [58 :: u8] < length [1, 2, 3 :: u8]" "set (cstr [58]) \<subseteq> {colon}" by (simp_all add: cstr_def)
  show ?thesis using receive_error_faults [OF o _ u w c, of True "[]"] by simp
qed

end
