(* ===== verification/Socket_Timer.thy ===== *)
theory Socket_Timer
  imports Socket_Main Socket_Device Socket_File
begin

text \<open>
  \<open>ten_second_timer\<close> of \<open>server/aesdsocket.c\<close>: the process that writes a time stamp for each
  alarm. \<open>main\<close> never starts it (\<open>start_timer\<close> is false); these are the facts about it for the
  day it is switched on, on a regular file and on the character device.
\<close>

section \<open>One time stamp\<close>

text \<open>"timestamp:" with its terminating NUL (\<open>sizeof(header)\<close>).\<close>

definition header :: "u8 list" where
  "header = [116, 105, 109, 101, 115, 116, 97, 109, 112, 58, 0]"

text \<open>
  A turn of the loop: the signals that arrive before the flag is tested, whether \<open>localtime\<close>
  succeeds, what \<open>strftime\<close> prints, the empty text when it returns 0, and the signals that arrive
  while the stamp is written.
\<close>

record timer_event =
  alarms :: "int list"
  localtime :: bool
  strftime :: "u8 list"
  meanwhile :: "int list"

text \<open>
  What the stack holds after \<open>strftime\<close> and after the newline is stored in place of the NUL. \<open>outstr\<close>
  has 200 bytes.
\<close>

definition outstr_after :: "u8 list \<Rightarrow> u8 list \<Rightarrow> u8 list res" where
  "outstr_after outstr text =
     (if length outstr \<le> length text then Inl OutOfBounds
      else Inr (text @ lf # drop (length text + 1) outstr))"

text \<open>
  How a stamp ends: the process goes on, exits with a status, or waits for ever for the mutex.
  The process is forked, so its mutex is a copy: if a thread of the server held it at that moment,
  nobody will ever release the copy.
\<close>

datatype timer_end = Goes_on | Exits int | Blocks

text \<open>
  The body of the branch. Printing with %s runs off the array when nothing in it is NUL any more.
  The result of the lock is not used.
\<close>

definition timestamp ::
  "bool \<Rightarrow> 's file_ops \<Rightarrow> 's \<Rightarrow> u8 list \<Rightarrow> timer_event \<Rightarrow> ('s \<times> u8 list \<times> timer_end) res" where
  "timestamp mutex_held ops s outstr ev =
     (if \<not> localtime ev then Inr (s, outstr, Exits (- 1))
      else if strftime ev = [] then Inr (s, outstr, Exits (- 1))
      else
        let num_char = length (strftime ev)
        in bnd (outstr_after outstr (strftime ev)) (\<lambda>outstr.
           if mutex_held then Inr (s, outstr, Blocks)
           else if 0 \<notin> set outstr then Inl OutOfBounds
           else
             let (s, output_file) = op_open ops s
             in if output_file < 0 then Inr (s, outstr, Exits (- 1))
                else
                  bnd (op_write ops s header) (\<lambda>(s, r).
                  bnd (op_write ops s (take (num_char + 1) outstr)) (\<lambda>(s, r).
                    if r < 0 then Inr (op_close ops s, outstr, Exits (- 1))
                    else Inr (s, outstr, Goes_on)))))"

text \<open>
  The loop, for the events to come; \<open>Goes_on\<close> at the end while it waits for more. The flag is reset
  after the stamp, so an alarm that arrives meanwhile is lost.
\<close>

fun timer_loop ::
  "bool \<Rightarrow> 's file_ops \<Rightarrow> timer_event list \<Rightarrow> 's \<Rightarrow> u8 list \<Rightarrow> sigs \<Rightarrow> ('s \<times> sigs \<times> timer_end) res" where
  "timer_loop mutex_held ops [] s outstr g = Inr (s, g, if should_continue g then Goes_on else Exits 0)"
| "timer_loop mutex_held ops (ev # evs) s outstr g =
     (if \<not> should_continue g then Inr (s, g, Exits 0)
      else
        let g = foldl (\<lambda>g n. signal_handler n g) g (alarms ev)
        in if caught_sigalrm g then
             bnd (timestamp mutex_held ops s outstr ev) (\<lambda>(s, outstr, status).
               if status = Goes_on
               then timer_loop mutex_held ops evs s outstr
                 ((foldl (\<lambda>g n. signal_handler n g) g (meanwhile ev))\<lparr>caught_sigalrm := False\<rparr>)
               else Inr (s, g, status))
           else timer_loop mutex_held ops evs s outstr g)"

definition ten_second_timer ::
  "bool \<Rightarrow> int \<Rightarrow> 's file_ops \<Rightarrow> timer_event list \<Rightarrow> 's \<Rightarrow> u8 list \<Rightarrow> sigs \<Rightarrow> ('s \<times> sigs \<times> timer_end) res" where
  "ten_second_timer mutex_held setitimer ops evs s outstr g =
     (if setitimer \<noteq> 0 then Inr (s, g, Exits (- 1)) else timer_loop mutex_held ops evs s outstr g)"

section \<open>Turns\<close>

abbreviation ticks :: "timer_event \<Rightarrow> bool" where
  "ticks ev \<equiv> SIGALRM \<in> set (alarms ev)"

text \<open>
  A turn, quiet or with an alarm, in which no signal that ends the process arrives and the time
  can be had. \<open>strftime\<close> prints less than the 200 bytes it was given, and no NUL among them.
\<close>

definition turn_ok :: "timer_event \<Rightarrow> bool" where
  "turn_ok ev \<longleftrightarrow> {SIGINT, SIGTERM} \<inter> (set (alarms ev) \<union> set (meanwhile ev)) = {} \<and>
     (ticks ev \<longrightarrow> localtime ev \<and> strftime ev \<noteq> [] \<and> length (strftime ev) < 200 \<and> 0 \<notin> set (strftime ev))"

definition stamp :: "timer_event \<Rightarrow> u8 list" where
  "stamp ev = header @ strftime ev @ [lf]"

lemma handlers_continue:
  "should_continue (foldl (\<lambda>g n. signal_handler n g) g ns) \<longleftrightarrow>
     should_continue g \<and> SIGINT \<notin> set ns \<and> SIGTERM \<notin> set ns"
  "caught_sigalrm (foldl (\<lambda>g n. signal_handler n g) g ns) \<longleftrightarrow> caught_sigalrm g \<or> SIGALRM \<in> set ns"
  by (induction ns arbitrary: g) (auto simp: handler_cases signal_defs)

text \<open>What the loop does in a turn.\<close>

lemma timer_loop_quiet:
  assumes "turn_ok ev" and "\<not> ticks ev" and "should_continue g" and "\<not> caught_sigalrm g"
  obtains g' where "should_continue g'" and "\<not> caught_sigalrm g'"
    and "\<And>held ops s outstr. timer_loop held ops (ev # evs) s outstr g = timer_loop held ops evs s outstr g'"
proof -
  let ?g = "foldl (\<lambda>g n. signal_handler n g) g (alarms ev)"
  have "should_continue ?g" "\<not> caught_sigalrm ?g" using assms by (auto simp: handlers_continue turn_ok_def)
  then show thesis by (rule that) (use assms(3) \<open>\<not> caught_sigalrm ?g\<close> in simp)
qed

lemma timer_loop_quiets:
  "list_all turn_ok evs \<Longrightarrow> list_all (\<lambda>e. \<not> ticks e) evs \<Longrightarrow> should_continue g \<Longrightarrow> \<not> caught_sigalrm g \<Longrightarrow>
    \<exists>g'. should_continue g' \<and> \<not> caught_sigalrm g' \<and>
      (\<forall>held (ops :: 's file_ops) s outstr. timer_loop held ops (evs @ rest) s outstr g = timer_loop held ops rest s outstr g')"
proof (induction evs arbitrary: g)
  case (Cons ev evs)
  have e: "turn_ok ev" "\<not> ticks ev" using Cons.prems(1,2) by simp_all
  obtain g1 where g1: "should_continue g1" "\<not> caught_sigalrm g1"
    "\<And>held (ops :: 's file_ops) s outstr. timer_loop held ops (ev # evs @ rest) s outstr g = timer_loop held ops (evs @ rest) s outstr g1"
    by (rule timer_loop_quiet [OF e Cons.prems(3,4), of "evs @ rest"]) blast
  have "\<exists>g'. should_continue g' \<and> \<not> caught_sigalrm g' \<and>
      (\<forall>held (ops :: 's file_ops) s outstr. timer_loop held ops (evs @ rest) s outstr g1 = timer_loop held ops rest s outstr g')"
    by (rule Cons.IH) (use Cons.prems(1,2) g1(1,2) in simp_all)
  then show ?case using g1(3) by (simp del: timer_loop.simps)
qed auto

lemma timer_loop_tick:
  assumes "turn_ok ev" and "ticks ev" and "should_continue g"
  obtains g0 g' where "should_continue g'" and "\<not> caught_sigalrm g'"
    and "\<And>held ops s outstr. timer_loop held ops (ev # evs) s outstr g =
      bnd (timestamp held ops s outstr ev) (\<lambda>(s, outstr, status).
        if status = Goes_on then timer_loop held ops evs s outstr g' else Inr (s, g0, status))"
proof -
  let ?g = "foldl (\<lambda>g n. signal_handler n g) g (alarms ev)"
  let ?g' = "(foldl (\<lambda>g n. signal_handler n g) ?g (meanwhile ev))\<lparr>caught_sigalrm := False\<rparr>"
  have "should_continue ?g'" "caught_sigalrm ?g" using assms by (auto simp: handlers_continue turn_ok_def)
  moreover have "\<not> caught_sigalrm ?g'" by simp
  ultimately show thesis by (intro that [of ?g' ?g]) (use assms(3) in \<open>simp_all add: Let_def\<close>)
qed

section \<open>On a regular file\<close>

text \<open>What lies behind the longest stamp is never written, and a NUL there ends the printing.\<close>

lemma outstr_ticks:
  assumes "length (strftime ev) \<le> L" and "0 \<in> set (drop (Suc L) outstr)"
  shows "\<exists>outstr'. outstr_after outstr (strftime ev) = Inr outstr' \<and> drop (Suc L) outstr' = drop (Suc L) outstr \<and>
    0 \<in> set outstr' \<and> take (length (strftime ev) + 1) outstr' = strftime ev @ [lf]"
proof -
  let ?t = "strftime ev"
  let ?o = "?t @ lf # drop (length ?t + 1) outstr"
  have "drop (Suc L) outstr \<noteq> []" using assms(2) by auto
  then have "length ?t < length outstr" using assms(1) by simp
  then have "outstr_after outstr ?t = Inr ?o" by (simp add: outstr_after_def)
  moreover have d: "drop (Suc L) ?o = drop (Suc L) outstr"
  proof -
    have "drop (Suc L) ?o = drop (L - length ?t) (drop (length ?t + 1) outstr)" using assms(1) by (simp add: Suc_diff_le)
    then show ?thesis using assms(1) by simp
  qed
  moreover have "0 \<in> set ?o" using assms(2) unfolding d [symmetric] by (rule in_set_dropD)
  moreover have "take (length ?t + 1) ?o = ?t @ [lf]" by simp
  ultimately show ?thesis by (intro exI [of _ ?o] conjI)
qed

lemma timestamp_plain:
  assumes "turn_ok ev" and "ticks ev" and "length (strftime ev) \<le> L" and "0 \<in> set (drop (Suc L) outstr)"
  shows "\<exists>outstr'. timestamp False plain_ops f outstr ev =
      Inr (f\<lparr>content := content f @ stamp ev, descriptors := descriptors f + 1\<rparr>, outstr', Goes_on) \<and>
    drop (Suc L) outstr' = drop (Suc L) outstr"
proof -
  obtain outstr' where o: "outstr_after outstr (strftime ev) = Inr outstr'" "drop (Suc L) outstr' = drop (Suc L) outstr"
      "0 \<in> set outstr'" "take (length (strftime ev) + 1) outstr' = strftime ev @ [lf]"
    using outstr_ticks [OF assms(3,4)] by blast
  have "localtime ev" "strftime ev \<noteq> []" using assms(1,2) by (simp_all add: turn_ok_def)
  then show ?thesis using o by (simp add: timestamp_def plain_ops_def stamp_def)
qed

lemma timer_loop_plain:
  "list_all turn_ok evs \<Longrightarrow> \<forall>e \<in> set evs. ticks e \<longrightarrow> length (strftime e) \<le> L \<Longrightarrow>
    0 \<in> set (drop (Suc L) outstr) \<Longrightarrow> should_continue g \<Longrightarrow> \<not> caught_sigalrm g \<Longrightarrow>
    \<exists>g'. timer_loop False plain_ops evs f outstr g =
      Inr (f\<lparr>content := content f @ concat (map stamp (filter ticks evs)),
        descriptors := descriptors f + length (filter ticks evs)\<rparr>, g', Goes_on)"
proof (induction evs arbitrary: f outstr g)
  case (Cons ev evs)
  have t: "turn_ok ev" and e: "list_all turn_ok evs" and L: "\<forall>e \<in> set evs. ticks e \<longrightarrow> length (strftime e) \<le> L"
    using Cons.prems(1,2) by simp_all
  show ?case
  proof (cases "ticks ev")
    case False
    obtain g1 where "should_continue g1" "\<not> caught_sigalrm g1"
      "\<And>held (ops :: plain_file file_ops) s outstr. timer_loop held ops (ev # evs) s outstr g = timer_loop held ops evs s outstr g1"
      by (rule timer_loop_quiet [OF t False Cons.prems(4,5), of evs]) blast
    then show ?thesis using Cons.IH [OF e L Cons.prems(3)] False by (simp del: timer_loop.simps)
  next
    case True
    let ?f = "f\<lparr>content := content f @ stamp ev, descriptors := descriptors f + 1\<rparr>"
    obtain g0 g1 where g: "should_continue g1" "\<not> caught_sigalrm g1"
      "\<And>held (ops :: plain_file file_ops) s outstr. timer_loop held ops (ev # evs) s outstr g =
        bnd (timestamp held ops s outstr ev) (\<lambda>(s, outstr, status).
          if status = Goes_on then timer_loop held ops evs s outstr g1 else Inr (s, g0, status))"
      by (rule timer_loop_tick [OF t True Cons.prems(4), of evs]) blast
    have "length (strftime ev) \<le> L" using Cons.prems(2) True by simp
    then obtain outstr' where o: "timestamp False plain_ops f outstr ev = Inr (?f, outstr', Goes_on)"
        "drop (Suc L) outstr' = drop (Suc L) outstr"
      using timestamp_plain [OF t True _ Cons.prems(3), of f] by blast
    have "0 \<in> set (drop (Suc L) outstr')" using Cons.prems(3) o(2) by simp
    from Cons.IH [OF e L this g(1,2), of ?f] show ?thesis using g(3) o(1) True by (simp del: timer_loop.simps)
  qed
qed simp

section \<open>On the character device\<close>

text \<open>The header has no newline, so the second write of a stamp joins it.\<close>

lemma timestamp_device:
  assumes ok: "file_ok (env, m, d, n)" and asc: "ascending_alloc (alloc env)"
    and t: "turn_ok ev" "ticks ev" and nul: "0 \<in> set (drop (Suc (length (strftime ev))) outstr)"
  shows "timestamp False (device_ops c) (env, m, d, n) outstr ev = Inl Dangling"
proof -
  have k: "dev_inv m d" "good_alloc (alloc env)" "total_alloc (alloc env)" "\<not> mutex d" "\<not> relocked env"
      "\<not> partial d" "from_user env = Pair 0"
    using ok by auto
  obtain outstr' where o: "outstr_after outstr (strftime ev) = Inr outstr'" "0 \<in> set outstr'"
      "take (length (strftime ev) + 1) outstr' = strftime ev @ [lf]"
    using outstr_ticks [OF order_refl nul] by blast
  have h: "header \<noteq> []" "last header \<noteq> newline" "length header = 11" by (simp_all add: header_def)
  have "pending m d = []" using k(6) by (simp add: pending_def)
  moreover have "from_user env header = (0, header)" using k(7) by simp
  ultimately obtain m1 d1 where w1: "aesd_write env m d header = Inr (m1, d1, int (length header))" "dev_inv m1 d1"
      "view m1 d1 = (lines m d, header)" "\<not> mutex d1"
    using aesd_write_plain [OF k(1-3) _ k(4,6) h(1)] h(2,3) k(5) by (auto simp: spec_write_def view_def)
  then have p1: "pending m1 d1 = header" by (simp add: view_def)
  then have part1: "partial d1" using h(1) by (auto simp: pending_def split: if_splits)
  have "length (strftime ev) < 200" using t by (simp add: turn_ok_def)
  then have "aesd_write env m1 d1 (strftime ev @ [lf]) = Inl Dangling"
    using k(7) p1 h(3) by (intro pending_write_faults [OF w1(2) k(2,3) asc _ w1(4) part1]) auto
  then show ?thesis
    using t o w1(1) by (simp add: timestamp_def turn_ok_def device_ops_def)
qed

section \<open>Properties\<close>

lemma first_tick:
  fixes ops :: "'a file_ops"
  assumes "list_all turn_ok (quiet @ ev # rest)" and "list_all (\<lambda>e. \<not> ticks e) quiet" and "ticks ev"
    and "should_continue g" and "\<not> caught_sigalrm g" and "timestamp held ops s outstr ev = r"
    and "\<And>s' outstr' status. r = Inr (s', outstr', status) \<Longrightarrow> status \<noteq> Goes_on"
  shows "\<exists>g'. timer_loop held ops (quiet @ ev # rest) s outstr g = bnd r (\<lambda>(s, outstr, status). Inr (s, g', status))"
proof -
  have "list_all turn_ok quiet" "turn_ok ev" using assms(1) by simp_all
  obtain g1 where g1: "should_continue g1" "timer_loop held ops (quiet @ ev # rest) s outstr g = timer_loop held ops (ev # rest) s outstr g1"
  proof -
    obtain g' where g': "should_continue g'"
      "\<forall>held ops s outstr. timer_loop held (ops :: 'a file_ops) (quiet @ ev # rest) s outstr g = timer_loop held ops (ev # rest) s outstr g'"
      using timer_loop_quiets [OF \<open>list_all turn_ok quiet\<close> assms(2,4,5), of "ev # rest"] by (elim exE conjE) (rule that)
    show thesis by (rule that [OF g'(1)]) (rule g'(2) [rule_format])
  qed
  obtain g0 g2 where tick: "timer_loop held ops (ev # rest) s outstr g1 = bnd (timestamp held ops s outstr ev) (\<lambda>(s, outstr, status).
      if status = Goes_on then timer_loop held ops rest s outstr g2 else Inr (s, g0, status))"
    by (rule timer_loop_tick [OF \<open>turn_ok ev\<close> assms(3) g1(1), of rest]) (rule that)
  have "bnd r (\<lambda>(s, outstr, status). if status = Goes_on then timer_loop held ops rest s outstr g2 else Inr (s, g0, status)) =
      bnd r (\<lambda>(s, outstr, status). Inr (s, g0, status))"
  proof (cases r)
    case (Inr x)
    obtain s' outstr' status where "x = (s', outstr', status)" by (cases x)
    then show ?thesis using assms(7) [of s' outstr' status] Inr by (simp del: timer_loop.simps)
  qed simp
  then show ?thesis unfolding g1(2) tick assms(6) by blast
qed

text \<open>
  C33. The timer process over turns with and without an alarm, in which the time can be had and no
  signal ends it. On a regular file it appends one stamp for each turn with an alarm, leaves the
  file open each time and goes on, if the uninitialised array has a NUL behind the longest
  stamp. If there is none behind the first stamp, printing that stamp runs off the array, on any
  file. If the mutex was held when the process was forked, the first alarm blocks it for ever with
  nothing written. On the character device, with a NUL in the array, a free mutex and an allocator that does not
  hand a freed block back at once, its first stamp makes the driver write to freed memory,
  because the header is written separately and without a newline.
\<close>

theorem timer_stamps:
  fixes outstr :: "u8 list"
  assumes "list_all turn_ok (quiet @ ev # rest)" and "list_all (\<lambda>e. \<not> ticks e) quiet" and "ticks ev"
    and "should_continue g" and "\<not> caught_sigalrm g"
  defines "evs \<equiv> quiet @ ev # rest" and "behind \<equiv> drop (Suc (length (strftime ev))) outstr"
  shows "((\<forall>e \<in> set evs. ticks e \<longrightarrow> length (strftime e) \<le> L) \<longrightarrow> 0 \<in> set (drop (Suc L) outstr) \<longrightarrow>
      (\<exists>g'. ten_second_timer False 0 plain_ops evs f outstr g =
        Inr (f\<lparr>content := content f @ concat (map stamp (filter ticks evs)),
          descriptors := descriptors f + length (filter ticks evs)\<rparr>, g', Goes_on))) \<and>
    (0 \<notin> set behind \<longrightarrow> ten_second_timer False 0 ops evs s outstr g = Inl OutOfBounds) \<and>
    (length outstr = 200 \<longrightarrow> (\<exists>g'. ten_second_timer True 0 ops evs s outstr g = Inr (s, g', Blocks))) \<and>
    (0 \<in> set behind \<longrightarrow> file_ok (env, m, d, n) \<longrightarrow> ascending_alloc (alloc env) \<longrightarrow>
      ten_second_timer False 0 (device_ops c) evs (env, m, d, n) outstr g = Inl Dangling)"
proof -
  have t: "turn_ok ev" using assms(1) by simp
  then have ev: "localtime ev" "strftime ev \<noteq> []" "length (strftime ev) < 200" "0 \<notin> set (strftime ev)"
    using assms(3) by (simp_all add: turn_ok_def)
  note first = first_tick [OF assms(1-5), folded evs_def]
  have 1: "\<exists>g'. ten_second_timer False 0 plain_ops evs f outstr g =
        Inr (f\<lparr>content := content f @ concat (map stamp (filter ticks evs)),
          descriptors := descriptors f + length (filter ticks evs)\<rparr>, g', Goes_on)"
    if "\<forall>e \<in> set evs. ticks e \<longrightarrow> length (strftime e) \<le> L" "0 \<in> set (drop (Suc L) outstr)"
    using timer_loop_plain [OF _ that assms(4,5), of f] assms(1) by (simp add: ten_second_timer_def evs_def del: timer_loop.simps)
  have 2: "ten_second_timer False 0 ops evs s outstr g = Inl OutOfBounds" if "0 \<notin> set behind"
  proof -
    have "timestamp False ops s outstr ev = Inl OutOfBounds"
      using ev that by (auto simp: timestamp_def outstr_after_def behind_def)
    from first [OF this] show ?thesis by (simp add: ten_second_timer_def)
  qed
  have 3: "\<exists>g'. ten_second_timer True 0 ops evs s outstr g = Inr (s, g', Blocks)" if "length outstr = 200"
  proof -
    have "timestamp True ops s outstr ev = Inr (s, strftime ev @ lf # behind, Blocks)"
      using ev that by (simp add: timestamp_def outstr_after_def behind_def)
    from first [OF this] show ?thesis by (simp add: ten_second_timer_def)
  qed
  have 4: "ten_second_timer False 0 (device_ops c) evs (env, m, d, n) outstr g = Inl Dangling"
    if "0 \<in> set behind" "file_ok (env, m, d, n)" "ascending_alloc (alloc env)"
  proof -
    have "timestamp False (device_ops c) (env, m, d, n) outstr ev = Inl Dangling"
      by (rule timestamp_device [OF that(2,3) t assms(3)]) (use that(1) in \<open>simp add: behind_def\<close>)
    from first [OF this] show ?thesis by (simp add: ten_second_timer_def)
  qed
  show ?thesis using 1 2 3 4 by blast
qed

text \<open>A quiet turn and one with an alarm at "noon", with an array of zeros and with one of ones.\<close>

theorem timer_stamps_witness:
  "\<exists>f' evs. (\<exists>g'. ten_second_timer False 0 plain_ops evs \<lparr>content = [], descriptors = 0\<rparr> (replicate 200 0) no_signals =
      Inr (f', g', Goes_on)) \<and> content f' = header @ [110, 111, 111, 110, 10] \<and>
    ten_second_timer False 0 plain_ops evs \<lparr>content = [], descriptors = 0\<rparr> (replicate 200 1) no_signals = Inl OutOfBounds"
proof -
  let ?ev = "\<lparr>alarms = [SIGALRM], localtime = True, strftime = [110, 111, 111, 110], meanwhile = []\<rparr>"
  let ?q = "\<lparr>alarms = [], localtime = False, strftime = [], meanwhile = []\<rparr>"
  let ?f = "\<lparr>content = [], descriptors = 0\<rparr>"
  have e: "list_all turn_ok ([?q] @ ?ev # [])" "list_all (\<lambda>e. \<not> ticks e) [?q]" "ticks ?ev"
    by (simp_all add: turn_ok_def signal_defs)
  have g: "should_continue no_signals" "\<not> caught_sigalrm no_signals" by (simp_all add: no_signals_def)
  note T = timer_stamps [OF e g]
  have L: "\<forall>e \<in> set ([?q] @ ?ev # []). ticks e \<longrightarrow> length (strftime e) \<le> 4" by simp
  have z: "0 \<in> set (drop (Suc 4) (replicate 200 (0 :: u8)))" by simp
  have "\<exists>g'. ten_second_timer False 0 plain_ops ([?q] @ ?ev # []) ?f (replicate 200 0) no_signals =
      Inr (?f\<lparr>content := content ?f @ concat (map stamp (filter ticks ([?q] @ ?ev # []))),
        descriptors := descriptors ?f + length (filter ticks ([?q] @ ?ev # []))\<rparr>, g', Goes_on)"
    by (rule mp [OF mp [OF conjunct1 [OF T] L] z])
  moreover have o: "0 \<notin> set (drop (Suc (length (strftime ?ev))) (replicate 200 (1 :: u8)))" by simp
  have "ten_second_timer False 0 plain_ops ([?q] @ ?ev # []) ?f (replicate 200 1) no_signals = Inl OutOfBounds"
    by (rule mp [OF conjunct1 [OF conjunct2 [OF T]] o])
  moreover have "content ?f @ concat (map stamp (filter ticks ([?q] @ ?ev # []))) = header @ [110, 111, 111, 110, 10]"
    using e(2,3) by (simp add: stamp_def)
  ultimately show ?thesis by (metis plain_file.select_convs(1) plain_file.update_convs(1) plain_file.update_convs(2))
qed

end
