(* ===== verification/Socket_Schedule.thy ===== *)
theory Socket_Schedule
  imports Socket_Server
begin

text \<open>
  The whole server with its threads running at the same time: the main thread accepts and joins,
  the threads of the connections compete for the mutex of the output file. Which one moves next
  is not determined; the properties hold for every order.
\<close>

section \<open>The moving parts\<close>

datatype phase = Waiting | Holding | Done

text \<open>
  A connection is a client and whether it ever sends its line. Thread \<open>i\<close> serves the \<open>i\<close>-th accepted
  connection; \<open>joining\<close> are the threads the main thread is blocked on, and \<open>replies\<close> says which
  thread sent what, in order.
\<close>

record schedule =
  backlog :: "(client \<times> bool) list"
  arrived :: "(client \<times> bool) list"
  phases :: "phase list"
  main :: server
  joining :: "nat list"
  dev :: dev_file
  replies :: "(nat \<times> u8 list) list"

definition start_schedule :: "dev_file \<Rightarrow> (client \<times> bool) list \<Rightarrow> schedule" where
  "start_schedule f ks = \<lparr>backlog = ks, arrived = [], phases = [], main = start_server, joining = [],
     dev = f, replies = []\<rparr>"

text \<open>The event in which connection \<open>k\<close> is accepted and its thread, the \<open>i\<close>-th, created.\<close>

definition conn_event :: "nat \<Rightarrow> client \<Rightarrow> accept_event" where
  "conn_event i k = \<lparr>listen_result = 0, accepted = fd k, errno = 0, create_result = 0, new_thread = i, node = i,
     data_malloced = True, node_malloced = True, arriving = []\<rparr>"

text \<open>
  The main thread takes a turn of its loop, and then waits for the threads this turn joins. A
  thread locks the mutex when no other holds it; it receives, replies and unlocks when its
  client sends. The calls of receiving and replying make one step, since no other thread uses
  the file while the mutex is held; a thread that fails ends the process and takes no step.
\<close>

inductive schedule_step :: "ioc \<Rightarrow> schedule \<Rightarrow> schedule \<Rightarrow> bool" for c where
  accept: "joining s = [] \<Longrightarrow> backlog s = k # ks \<Longrightarrow>
    main_turn (main s) (conn_event (length (arrived s)) (fst k)) = Inr (Running t) \<Longrightarrow>
    schedule_step c s (s\<lparr>backlog := ks, arrived := arrived s @ [k], phases := phases s @ [Waiting], main := t,
      joining := drop (length (joined (main s))) (joined t)\<rparr>)"
| lock: "i < length (phases s) \<Longrightarrow> phases s ! i = Waiting \<Longrightarrow> Holding \<notin> set (phases s) \<Longrightarrow>
    schedule_step c s (s\<lparr>phases := (phases s)[i := Holding]\<rparr>)"
| finish: "i < length (phases s) \<Longrightarrow> phases s ! i = Holding \<Longrightarrow> arrived s ! i = (k, True) \<Longrightarrow>
    serve c (dev s) k = Inr ((f, out), False, data, Thread_returns) \<Longrightarrow>
    schedule_step c s (s\<lparr>phases := (phases s)[i := Done], dev := f, replies := replies s @ [(i, out)]\<rparr>)"
| join: "joining s = i # is \<Longrightarrow> phases s ! i = Done \<Longrightarrow> schedule_step c s (s\<lparr>joining := is\<rparr>)"

inductive_cases schedule_stepE: "schedule_step c s t"

section \<open>Who waits for whom\<close>

text \<open>
  The threads: from the second connection on, every thread that is not done is being joined, so
  the main thread cannot accept; at most one thread holds the mutex; from the third connection
  on, all but the newest are done.
\<close>

definition phase_inv :: "phase list \<Rightarrow> nat list \<Rightarrow> bool" where
  "phase_inv ps js \<longleftrightarrow>
     (length ps < 2 \<longrightarrow> js = []) \<and> length js \<le> 2 \<and> set js \<subseteq> {..<length ps} \<and>
     (2 \<le> length ps \<longrightarrow> (\<forall>i < length ps. ps ! i \<noteq> Done \<longrightarrow> i \<in> set js)) \<and>
     (\<forall>i < length ps. \<forall>j < length ps. ps ! i = Holding \<longrightarrow> ps ! j = Holding \<longrightarrow> i = j) \<and>
     (3 \<le> length ps \<longrightarrow> (\<forall>i < length ps - 1. ps ! i = Done))"

lemma phase_inv_accept:
  assumes inv: "phase_inv ps []"
  shows "phase_inv (ps @ [Waiting]) (case length ps of 0 \<Rightarrow> [] | Suc 0 \<Rightarrow> [1, 0] | Suc (Suc n) \<Rightarrow> [length ps])"
proof (cases "2 \<le> length ps")
  case False
  then consider "ps = []" | p where "ps = [p]" by (cases ps; cases "tl ps") auto
  then show ?thesis
    by cases (auto simp: phase_inv_def less_Suc_eq)
next
  case True
  then have d: "\<And>i. i < length ps \<Longrightarrow> ps ! i = Done" using inv by (auto simp: phase_inv_def)
  have n: "(ps @ [Waiting]) ! i = (if i < length ps then Done else Waiting)" if "i < length (ps @ [Waiting])" for i
    using that d by (simp add: nth_append)
  obtain m where "length ps = Suc (Suc m)" using True by (metis One_nat_def Suc_1 Suc_le_D Suc_le_mono)
  then show ?thesis using n by (auto simp: phase_inv_def)
qed

lemma phase_inv_lock:
  "phase_inv ps js \<Longrightarrow> i < length ps \<Longrightarrow> ps ! i = Waiting \<Longrightarrow> Holding \<notin> set ps \<Longrightarrow> phase_inv (ps[i := Holding]) js"
  by (auto simp: phase_inv_def nth_list_update in_set_conv_nth split: if_splits)

lemma phase_inv_finish:
  "phase_inv ps js \<Longrightarrow> i < length ps \<Longrightarrow> ps ! i = Holding \<Longrightarrow> phase_inv (ps[i := Done]) js"
  by (auto simp: phase_inv_def nth_list_update split: if_splits)

lemma phase_inv_join: "phase_inv ps (i # js) \<Longrightarrow> ps ! i = Done \<Longrightarrow> phase_inv ps js"
  by (auto simp: phase_inv_def)

text \<open>
  The main thread: its list holds the first thread until the second connection, and is empty
  between turns from then on.
\<close>

definition main_inv :: "nat \<Rightarrow> server \<Rightarrow> bool" where
  "main_inv n m \<longleftrightarrow> counter m = n \<and> dom (threads m) = {..<n} \<and> \<not> caught_a_signal (sig m) \<and>
     (\<exists>xs. slist (threads m) (head m) xs \<and> ids (threads m) xs = (if n = 1 then [0] else []))"

definition order_inv :: "schedule \<Rightarrow> bool" where
  "order_inv s \<longleftrightarrow> length (phases s) = length (arrived s) \<and> main_inv (length (arrived s)) (main s) \<and>
     (\<forall>k \<in> set (backlog s). fd (fst k) \<noteq> - 1) \<and> phase_inv (phases s) (joining s)"

lemma conn_event_accepts: "fd k \<noteq> - 1 \<Longrightarrow> accepts (conn_event i k)"
  by (simp add: accepts_def conn_event_def)

text \<open>The turn of the main thread for the next connection, and the threads it joins.\<close>

lemma accept_turn:
  assumes inv: "main_inv n m" and f: "fd k \<noteq> - 1"
  obtains t where "main_turn m (conn_event n k) = Inr (Running t)" and "main_inv (Suc n) t"
    and "joined t = joined m @ (case n of 0 \<Rightarrow> [] | Suc 0 \<Rightarrow> [1, 0] | Suc (Suc _) \<Rightarrow> [n])"
proof -
  let ?ev = "conn_event n k"
  obtain xs where xs: "slist (threads m) (head m) xs" "ids (threads m) xs = (if n = 1 then [0] else [])"
    using inv by (auto simp: main_inv_def)
  have i: "counter m = n" "dom (threads m) = {..<n}" "\<not> caught_a_signal (sig m)" using inv by (simp_all add: main_inv_def)
  have e: "accepts ?ev" "node ?ev = n" "new_thread ?ev = n"
    using conn_event_accepts [OF f] by (simp_all add: conn_event_def)
  have fresh: "node ?ev \<notin> dom (threads m)" using e(2) i(2) by simp
  obtain t where t: "main_turn m ?ev = Inr (Running t)" "counter t = counter m + 1"
      "dom (threads t) = insert (node ?ev) (dom (threads m))" "\<not> caught_a_signal (sig t)"
      and z: "counter m = 0 \<Longrightarrow> slist (threads t) (head t) (node ?ev # xs) \<and> joined t = joined m \<and>
        ids (threads t) (node ?ev # xs) = new_thread ?ev # ids (threads m) xs"
      and p: "counter m \<noteq> 0 \<Longrightarrow> head t = Null \<and> joined t = joined m @ new_thread ?ev # ids (threads m) xs"
    using accepts_turn [OF xs(1) e(1) fresh i(3)] by metis
  have d: "dom (threads t) = {..<Suc n}" using t(3) e(2) i(2) by auto
  show thesis
  proof (cases n)
    case 0
    then have "main_inv (Suc n) t" using t d i(1) z xs(2) e(3) unfolding main_inv_def by auto
    then show thesis using that t(1) z i(1) 0 by simp
  next
    case (Suc l)
    then have h: "head t = Null" "joined t = joined m @ n # ids (threads m) xs" using p i(1) e(3) by auto
    have "slist (threads t) (head t) [] \<and> ids (threads t) [] = []" using h(1) by (simp add: ids_def)
    then have "main_inv (Suc n) t" using t d i(1) Suc unfolding main_inv_def by auto
    then show thesis using that t(1) h(2) xs(2) Suc by (cases l) auto
  qed
qed

lemma order_inv_start: "\<forall>k \<in> set ks. fd (fst k) \<noteq> - 1 \<Longrightarrow> order_inv (start_schedule f ks)"
  by (auto simp: order_inv_def start_schedule_def main_inv_def phase_inv_def start_server_def SLIST_INIT_def
      no_signals_def ids_def intro!: exI [of _ "[]"])

lemma order_inv_accept:
  assumes inv: "order_inv s" and j: "joining s = []" and b: "backlog s = k # ks"
    and t: "main_turn (main s) (conn_event (length (arrived s)) (fst k)) = Inr (Running t)"
  shows "order_inv (s\<lparr>backlog := ks, arrived := arrived s @ [k], phases := phases s @ [Waiting], main := t,
    joining := drop (length (joined (main s))) (joined t)\<rparr>)"
    and "length (drop (length (joined (main s))) (joined t)) \<le> 2"
proof -
  let ?n = "length (arrived s)"
  have i: "main_inv ?n (main s)" "fd (fst k) \<noteq> - 1" "length (phases s) = ?n" "phase_inv (phases s) []"
      "\<forall>k \<in> set ks. fd (fst k) \<noteq> - 1"
    using inv j b by (simp_all add: order_inv_def)
  obtain u where u: "main_turn (main s) (conn_event ?n (fst k)) = Inr (Running u)" "main_inv (Suc ?n) u"
      "joined u = joined (main s) @ (case ?n of 0 \<Rightarrow> [] | Suc 0 \<Rightarrow> [1, 0] | Suc (Suc _) \<Rightarrow> [?n])"
    by (rule accept_turn [OF i(1,2)])
  have "u = t" using u(1) t by simp
  then have d: "main_inv (Suc ?n) t" "drop (length (joined (main s))) (joined t) =
      (case ?n of 0 \<Rightarrow> [] | Suc 0 \<Rightarrow> [1, 0] | Suc (Suc _) \<Rightarrow> [?n])"
    using u(2,3) by auto
  show "order_inv (s\<lparr>backlog := ks, arrived := arrived s @ [k], phases := phases s @ [Waiting], main := t,
    joining := drop (length (joined (main s))) (joined t)\<rparr>)"
    using d i(3,5) phase_inv_accept [OF i(4), unfolded i(3)] by (simp add: order_inv_def)
  show "length (drop (length (joined (main s))) (joined t)) \<le> 2"
    unfolding d(2) by (auto split: nat.split)
qed

lemma order_inv_step: "order_inv s \<Longrightarrow> schedule_step c s t \<Longrightarrow> order_inv t"
proof (erule schedule_stepE)
  fix k ks m
  assume "order_inv s" "joining s = []" "backlog s = k # ks"
    "main_turn (main s) (conn_event (length (arrived s)) (fst k)) = Inr (Running m)"
    "t = s\<lparr>backlog := ks, arrived := arrived s @ [k], phases := phases s @ [Waiting], main := m,
      joining := drop (length (joined (main s))) (joined m)\<rparr>"
  then show "order_inv t" using order_inv_accept(1) by simp
next
  fix i
  assume "order_inv s" "i < length (phases s)" "phases s ! i = Waiting" "Holding \<notin> set (phases s)"
    "t = s\<lparr>phases := (phases s)[i := Holding]\<rparr>"
  then show "order_inv t" using phase_inv_lock by (simp add: order_inv_def)
next
  fix i k f out data
  assume "order_inv s" "i < length (phases s)" "phases s ! i = Holding"
    "t = s\<lparr>phases := (phases s)[i := Done], dev := f, replies := replies s @ [(i, out)]\<rparr>"
  then show "order_inv t" using phase_inv_finish by (simp add: order_inv_def)
next
  fix i "is"
  assume "order_inv s" "joining s = i # is" "phases s ! i = Done" "t = s\<lparr>joining := is\<rparr>"
  then show "order_inv t" using phase_inv_join by (auto simp: order_inv_def)
qed

section \<open>A client that never sends\<close>

text \<open>As long as its thread holds the mutex nothing is stored or sent, and at most the second connection is accepted.\<close>

definition stuck_on :: "nat \<Rightarrow> schedule \<Rightarrow> bool" where
  "stuck_on i s \<longleftrightarrow> i < length (phases s) \<and> phases s ! i = Holding \<and> \<not> snd (arrived s ! i)"

lemma stuck_step:
  assumes "order_inv s" and "stuck_on i s" and "schedule_step c s t"
  shows "stuck_on i t \<and> dev t = dev s \<and> replies t = replies s \<and>
    length (arrived t) \<le> max 2 (length (arrived s))"
  using assms(3)
proof cases
  case (accept k ks m)
  have l: "length (arrived s) = length (phases s)" "phase_inv (phases s) []" using assms(1) accept by (simp_all add: order_inv_def)
  have "length (arrived s) < 2"
  proof (rule ccontr)
    assume "\<not> length (arrived s) < 2"
    then have "phases s ! i = Done" using l assms(2) by (auto simp: phase_inv_def stuck_on_def)
    then show False using assms(2) by (simp add: stuck_on_def)
  qed
  then show ?thesis using accept l assms(2) by (auto simp: stuck_on_def nth_append)
next
  case (lock j)
  then have False using assms(2) nth_mem unfolding stuck_on_def by metis
  then show ?thesis ..
next
  case (finish j k f out data)
  then have "j = i" using assms(1,2) by (auto simp: order_inv_def phase_inv_def stuck_on_def)
  then have False using finish assms(2) by (simp add: stuck_on_def)
  then show ?thesis ..
next
  case (join j js)
  then show ?thesis using assms(2) by (simp add: stuck_on_def)
qed

lemma stuck_steps:
  "(schedule_step c)\<^sup>*\<^sup>* s t \<Longrightarrow> order_inv s \<Longrightarrow> stuck_on i s \<Longrightarrow>
    order_inv t \<and> stuck_on i t \<and> dev t = dev s \<and> replies t = replies s \<and>
    length (arrived t) \<le> max 2 (length (arrived s))"
proof (induction rule: rtranclp_induct)
  case (step t u)
  then have "order_inv t" "stuck_on i t" by auto
  with stuck_step [OF this step.hyps(2)] order_inv_step [OF _ step.hyps(2)] step.IH step.prems show ?case by auto
qed simp

section \<open>What has been served\<close>

definition line_of :: "schedule \<Rightarrow> nat \<Rightarrow> u8 list" where
  "line_of s i = line (fst (arrived s ! i))"

definition served :: "schedule \<Rightarrow> nat list" where
  "served s = map fst (replies s)"

definition served_inv :: "(client \<times> bool) list \<Rightarrow> kenv \<Rightarrow> nat \<Rightarrow> u8 list list \<Rightarrow> schedule \<Rightarrow> bool" where
  "served_inv ks env n ls s \<longleftrightarrow>
     arrived s @ backlog s = ks \<and> distinct (served s) \<and>
     set (served s) = {i. i < length (phases s) \<and> phases s ! i = Done} \<and>
     drop 2 (served s) = [2..<length (served s)] \<and>
     map snd (replies s) = map (\<lambda>j. concat (ls @ map (line_of s) (take (Suc j) (served s)))) [0..<length (served s)] \<and>
     (\<exists>m d. dev s = (env, m, d, n) \<and> file_ok (env, m, d, n) \<and> lines m d = ls @ map (line_of s) (served s))"

text \<open>The clients the device can serve: each sends a line, and all lines fit.\<close>

definition good_clients :: "(client \<times> bool) list \<Rightarrow> u8 list list \<Rightarrow> bool" where
  "good_clients ks ls \<longleftrightarrow>
     (\<forall>k \<in> set ks. snd k \<and> client_line (line (fst k)) \<and> length (stack (fst k)) = BUF_SIZE + 1 \<and> fd (fst k) \<noteq> - 1) \<and>
     length ls + length ks \<le> MAXW \<and> length (concat (ls @ map (\<lambda>k. line (fst k)) ks)) < BUF_SIZE"

lemma sum_sub_list:
  assumes "distinct is" and "set is \<subseteq> {..<length xs}"
  shows "sum_list (map (\<lambda>i. f (xs ! i)) is) \<le> (sum_list (map f xs) :: nat)"
proof -
  have "sum_list (map (\<lambda>i. f (xs ! i)) is) = (\<Sum>i\<in>set is. f (xs ! i))"
    using assms(1) by (rule sum_list_distinct_conv_sum_set)
  also have "\<dots> \<le> (\<Sum>i\<in>{..<length xs}. f (xs ! i))" using assms(2) by (intro sum_mono2) auto
  also have "\<dots> = sum_list (map f xs)" by (simp add: sum_list_sum_nth atLeast0LessThan)
  finally show ?thesis .
qed

lemma length_concat_lines: "length (concat (map g xs)) = sum_list (map (\<lambda>x. length (g x)) xs)"
  by (simp add: length_concat comp_def)

text \<open>There is room for one more line as long as a thread is not done.\<close>

lemma room_for:
  assumes o: "order_inv s" and sv: "served_inv ks env n ls s" and gc: "good_clients ks ls"
    and i: "i < length (phases s)" "phases s ! i \<noteq> Done"
  shows "length (ls @ map (line_of s) (served s)) < MAXW"
    and "length (concat (ls @ map (line_of s) (served s @ [i]))) < BUF_SIZE"
proof -
  have l: "length (phases s) = length (arrived s)" using o by (simp add: order_inv_def)
  have ks: "arrived s @ backlog s = ks" and d: "distinct (served s)"
      and st: "set (served s) = {i. i < length (phases s) \<and> phases s ! i = Done}"
    using sv by (simp_all add: served_inv_def)
  have di: "distinct (served s @ [i])" using d st i(2) by simp
  have sub: "set (served s @ [i]) \<subseteq> {..<length (arrived s)}" using st i(1) l by auto
  have "length (served s @ [i]) = card (set (served s @ [i]))" using distinct_card [OF di] by simp
  also have "\<dots> \<le> length (arrived s)" using card_mono [OF _ sub] by simp
  also have "\<dots> \<le> length ks" using ks by auto
  finally show "length (ls @ map (line_of s) (served s)) < MAXW" using gc by (simp add: good_clients_def)
  have "sum_list (map (\<lambda>i. length (line (fst (arrived s ! i)))) (served s @ [i])) \<le>
      sum_list (map (\<lambda>k. length (line (fst k))) (arrived s))"
    by (rule sum_sub_list [OF di sub])
  also have "\<dots> \<le> sum_list (map (\<lambda>k. length (line (fst k))) ks)" using ks by (metis le_add1 map_append sum_list_append)
  finally have "length (concat (map (line_of s) (served s @ [i]))) \<le> length (concat (map (\<lambda>k. line (fst k)) ks))"
    unfolding length_concat_lines line_of_def .
  then show "length (concat (ls @ map (line_of s) (served s @ [i]))) < BUF_SIZE"
    using gc by (simp add: good_clients_def)
qed

text \<open>A thread that holds the mutex is served, and only in this way.\<close>

lemma serve_enabled:
  assumes o: "order_inv s" and sv: "served_inv ks env n ls s" and gc: "good_clients ks ls"
    and i: "i < length (phases s)" "phases s ! i = Holding"
  obtains k m d where "arrived s ! i = (k, True)"
    and "serve c (dev s) k = Inr (((env, m, d, n), concat (ls @ map (line_of s) (served s @ [i]))), False,
      \<lparr>thread_complete_success = True, pfd = fd k\<rparr>, Thread_returns)"
    and "file_ok (env, m, d, n)" and "lines m d = ls @ map (line_of s) (served s @ [i])"
proof -
  obtain m d where f: "dev s = (env, m, d, n)" "file_ok (env, m, d, n)" "lines m d = ls @ map (line_of s) (served s)"
    using sv by (auto simp: served_inv_def)
  obtain k b where k: "arrived s ! i = (k, b)" by (cases "arrived s ! i")
  have "(k, b) \<in> set ks"
    using nth_mem [of i "arrived s"] i(1) o sv k by (auto simp: order_inv_def served_inv_def)
  then have g: "b" "client_line (line k)" "length (stack k) = BUF_SIZE + 1" using gc by (auto simp: good_clients_def)
  have nd: "phases s ! i \<noteq> Done" using i(2) by simp
  note room = room_for [OF o sv gc i(1) nd]
  have cb: "cb_inv (buffer d)" using f(2) dev_invD(2) by auto
  have nf: "\<not> full (buffer d)"
    using room(1) full_iff_length [OF cb] f(3) by (metis length_lines less_irrefl)
  have ln: "lines m d @ [line k] = ls @ map (line_of s) (served s @ [i])" using f(3) k by (simp add: line_of_def)
  obtain m' d' where "serve c (env, m, d, n) k =
      Inr (((env, m', d', n), concat (lines m d @ [line k])), False,
        \<lparr>thread_complete_success = True, pfd = fd k\<rparr>, Thread_returns)"
      "file_ok (env, m', d', n)" "lines m' d' = lines m d @ [line k]"
    using serve_line [OF f(2) g(2,3) nf] room(2) ln by metis
  then show thesis using that [of k m' d'] k g(1) f(1) ln by simp
qed

section \<open>Every order serves every client\<close>

lemma line_of_snoc: "set is \<subseteq> {..<length (arrived s)} \<Longrightarrow>
    map (line_of (s\<lparr>backlog := b, arrived := arrived s @ [k], phases := p, main := m, joining := j\<rparr>)) is = map (line_of s) is"
  by (auto simp: line_of_def nth_append)

lemma served_inv_start:
  assumes "file_ok (env, m, d, n)" and "lines m d = ls"
  shows "served_inv ks env n ls (start_schedule (env, m, d, n) ks)"
  using assms by (simp add: served_inv_def start_schedule_def served_def del: file_ok.simps)

lemma served_accept:
  assumes o: "order_inv s" and sv: "served_inv ks env n ls s" and b: "backlog s = k # bs"
  shows "served_inv ks env n ls (s\<lparr>backlog := bs, arrived := arrived s @ [k], phases := phases s @ [Waiting],
    main := m, joining := j\<rparr>)" (is "served_inv _ _ _ _ ?t")
proof -
  have l: "length (phases s) = length (arrived s)" using o by (simp add: order_inv_def)
  have st: "set (served s) = {i. i < length (phases s) \<and> phases s ! i = Done}" using sv by (simp add: served_inv_def)
  have r: "replies ?t = replies s" "served ?t = served s" "dev ?t = dev s" by (simp_all add: served_def)
  have e: "map (line_of ?t) (take j (served s)) = map (line_of s) (take j (served s))" for j
    using st l by (intro line_of_snoc) (auto dest: in_set_takeD)
  have e': "map (line_of ?t) (served s) = map (line_of s) (served s)"
    using st l by (intro line_of_snoc) auto
  have "set (served s) = {i. i < length (phases ?t) \<and> phases ?t ! i = Done}"
    unfolding st by (auto simp: nth_append less_Suc_eq)
  then show ?thesis using sv b unfolding served_inv_def r e e' by simp
qed

lemma line_of_phases: "line_of (s\<lparr>phases := p\<rparr>) = line_of s"
  "line_of (s\<lparr>joining := j\<rparr>) = line_of s"
  "line_of (s\<lparr>phases := p, dev := f, replies := r\<rparr>) = line_of s"
  by (simp_all add: line_of_def fun_eq_iff)

lemma served_lock:
  assumes "served_inv ks env n ls s" and "i < length (phases s)" and "phases s ! i = Waiting"
  shows "served_inv ks env n ls (s\<lparr>phases := (phases s)[i := Holding]\<rparr>)"
proof -
  have "{j. j < length (phases s) \<and> phases s ! j = Done} =
      {j. j < length ((phases s)[i := Holding]) \<and> (phases s)[i := Holding] ! j = Done}"
    using assms(2,3) by (auto simp: nth_list_update)
  then show ?thesis using assms(1) unfolding served_inv_def by (simp add: line_of_phases served_def)
qed

text \<open>From the third connection on, the thread that is served is the newest one.\<close>

lemma served_next:
  assumes o: "order_inv s" and sv: "served_inv ks env n ls s"
    and i: "i < length (phases s)" "phases s ! i = Holding"
  shows "drop 2 (served s @ [i]) = [2..<Suc (length (served s))]"
proof -
  let ?D = "{j. j < length (phases s) \<and> phases s ! j = Done}"
  have d: "distinct (served s)" "set (served s) = ?D" "drop 2 (served s) = [2..<length (served s)]"
    using sv by (simp_all add: served_inv_def)
  have n: "length (served s) = card ?D" using distinct_card [OF d(1)] d(2) by simp
  show ?thesis
  proof (cases "3 \<le> length (phases s)")
    case True
    then have a: "\<forall>j < length (phases s) - 1. phases s ! j = Done" using o by (simp add: order_inv_def phase_inv_def)
    then have "i = length (phases s) - 1" using i by (metis less_antisym phase.distinct(5) Suc_diff_1 length_pos_if_in_set nth_mem)
    moreover have "?D = {..<i}" using a i calculation by (auto simp: less_Suc_eq_le intro: le_neq_implies_less)
    ultimately have "length (served s) = i" "2 \<le> i" using n True by auto
    then show ?thesis using d(3) by simp
  next
    case False
    have "?D \<subseteq> {..<length (phases s)} - {i}" using i(2) by auto
    then have "card ?D \<le> card ({..<length (phases s)} - {i})" by (rule card_mono [rotated]) simp
    then have "length (served s) \<le> 1" using n i(1) False by simp
    then show ?thesis by simp
  qed
qed

lemma served_finish:
  assumes o: "order_inv s" and sv: "served_inv ks env n ls s" and gc: "good_clients ks ls"
    and i: "i < length (phases s)" "phases s ! i = Holding" and k: "arrived s ! i = (k, True)"
    and r: "serve c (dev s) k = Inr ((f, out), False, data, Thread_returns)"
  shows "served_inv ks env n ls (s\<lparr>phases := (phases s)[i := Done], dev := f, replies := replies s @ [(i, out)]\<rparr>)"
    (is "served_inv _ _ _ _ ?t")
proof -
  obtain k' m d where e: "arrived s ! i = (k', True)"
      "serve c (dev s) k' = Inr (((env, m, d, n), concat (ls @ map (line_of s) (served s @ [i]))), False,
        \<lparr>thread_complete_success = True, pfd = fd k'\<rparr>, Thread_returns)"
      "file_ok (env, m, d, n)" "lines m d = ls @ map (line_of s) (served s @ [i])"
    by (rule serve_enabled [OF o sv gc i, of c])
  have f: "f = (env, m, d, n)" "out = concat (ls @ map (line_of s) (served s @ [i]))" using e(1,2) k r by simp_all
  have d: "distinct (served s)" "set (served s) = {j. j < length (phases s) \<and> phases s ! j = Done}"
    and h: "map snd (replies s) = map (\<lambda>j. concat (ls @ map (line_of s) (take (Suc j) (served s)))) [0..<length (served s)]"
    and a: "arrived s @ backlog s = ks"
    using sv by (simp_all add: served_inv_def)
  have t: "served ?t = served s @ [i]" "arrived ?t = arrived s" "backlog ?t = backlog s"
    "map snd (replies ?t) = map snd (replies s) @ [out]" "dev ?t = f"
    by (simp_all add: served_def)
  have "set (served s @ [i]) = {j. j < length (phases ?t) \<and> phases ?t ! j = Done}"
    using d(2) i(1) by (auto simp: nth_list_update)
  moreover have "map snd (replies s) @ [out] =
      map (\<lambda>j. concat (ls @ map (line_of s) (take (Suc j) (served s @ [i])))) [0..<length (served s @ [i])]"
    unfolding h f(2) by simp
  moreover have "distinct (served s @ [i])" using d i(2) by simp
  ultimately show ?thesis
    using served_next [OF o sv i] a e(3,4) f(1) unfolding served_inv_def t line_of_phases by (simp del: file_ok.simps)
qed

lemma served_join: "served_inv ks env n ls s \<Longrightarrow> served_inv ks env n ls (s\<lparr>joining := j\<rparr>)"
  by (simp add: served_inv_def line_of_phases served_def)

lemma served_inv_step:
  "order_inv s \<Longrightarrow> good_clients ks ls \<Longrightarrow> served_inv ks env n ls s \<Longrightarrow> schedule_step c s t \<Longrightarrow> served_inv ks env n ls t"
  by (erule schedule_stepE) (auto intro: served_accept served_lock served_finish served_join)

text \<open>The two invariants together, for one start.\<close>

definition fair_inv :: "(client \<times> bool) list \<Rightarrow> kenv \<Rightarrow> nat \<Rightarrow> u8 list list \<Rightarrow> schedule \<Rightarrow> bool" where
  "fair_inv ks env n ls s \<longleftrightarrow> order_inv s \<and> good_clients ks ls \<and> served_inv ks env n ls s"

interpretation turns: invariant_system
  "\<lambda>s. \<exists>f ks. (\<forall>k \<in> set ks. fd (fst k) \<noteq> - 1) \<and> s = start_schedule f ks" "schedule_step c" order_inv for c
  by unfold_locales (auto intro: order_inv_start order_inv_step)

interpretation service: invariant_system
  "\<lambda>s. \<exists>m d. file_ok (env, m, d, n) \<and> lines m d = ls \<and> good_clients ks ls \<and> s = start_schedule (env, m, d, n) ks"
  "schedule_step c" "fair_inv ks env n ls" for ks env n ls c
proof unfold_locales
  fix s t
  assume "\<exists>m d. file_ok (env, m, d, n) \<and> lines m d = ls \<and> good_clients ks ls \<and> s = start_schedule (env, m, d, n) ks"
  then obtain m d where s: "file_ok (env, m, d, n)" "lines m d = ls" "good_clients ks ls"
    "s = start_schedule (env, m, d, n) ks" by blast
  moreover have "\<forall>k \<in> set ks. fd (fst k) \<noteq> - 1" using s(3) by (auto simp: good_clients_def)
  ultimately show "fair_inv ks env n ls s" unfolding fair_inv_def by (blast intro: order_inv_start served_inv_start)
next
  fix s t
  assume "fair_inv ks env n ls s" "schedule_step c s t"
  then show "fair_inv ks env n ls t" unfolding fair_inv_def by (blast intro: order_inv_step served_inv_step)
qed

section \<open>Every run ends\<close>

primrec phase_work :: "phase \<Rightarrow> nat" where
  "phase_work Waiting = 2"
| "phase_work Holding = 1"
| "phase_work Done = 0"

text \<open>The steps that are left: five for a client that is not accepted yet.\<close>

definition work :: "schedule \<Rightarrow> nat" where
  "work s = 5 * length (backlog s) + sum_list (map phase_work (phases s)) + length (joining s)"

lemma phase_work_update:
  "i < length ps \<Longrightarrow> phase_work p < phase_work (ps ! i) \<Longrightarrow>
    sum_list (map phase_work (ps[i := p])) < sum_list (map phase_work ps)"
  by (induction ps arbitrary: i) (auto split: nat.split)

lemma work_decreases:
  assumes "order_inv s" and "schedule_step c s t"
  shows "work t < work s"
  using assms(2)
proof cases
  case (accept k ks m)
  have "length (joining t) \<le> 2" using order_inv_accept(2) [OF assms(1) accept(2-4)] accept(1) by simp
  then show ?thesis using accept by (simp add: work_def)
next
  case (lock i)
  then show ?thesis using phase_work_update [of i "phases s" Holding] by (simp add: work_def)
next
  case (finish i k f out data)
  then show ?thesis using phase_work_update [of i "phases s" Done] by (simp add: work_def)
next
  case (join i "is")
  then show ?thesis by (simp add: work_def)
qed

lemma work_bounds_steps: "order_inv s \<Longrightarrow> (schedule_step c ^^ j) s t \<Longrightarrow> order_inv t \<and> work t + j \<le> work s"
proof (induction j arbitrary: t)
  case (Suc j)
  then obtain u where u: "(schedule_step c ^^ j) s u" "schedule_step c u t" by auto
  then show ?case using Suc.IH [OF Suc.prems(1) u(1)] work_decreases [of u c t] order_inv_step [of u c t] by auto
qed simp

text \<open>The end of a run: everyone accepted, done and joined.\<close>

definition all_done :: "schedule \<Rightarrow> bool" where
  "all_done s \<longleftrightarrow> backlog s = [] \<and> joining s = [] \<and> (\<forall>i < length (phases s). phases s ! i = Done)"

lemma progress:
  assumes inv: "fair_inv ks env n ls s" and e: "\<not> all_done s"
  shows "\<exists>t. schedule_step c s t"
proof -
  have o: "order_inv s" and gc: "good_clients ks ls" and sv: "served_inv ks env n ls s"
    using inv by (simp_all add: fair_inv_def)
  consider (holding) i where "i < length (phases s)" "phases s ! i = Holding"
    | (waiting) i where "i < length (phases s)" "phases s ! i = Waiting" "Holding \<notin> set (phases s)"
    | (idle) "\<forall>i < length (phases s). phases s ! i = Done"
    by (metis in_set_conv_nth phase.exhaust)
  then show ?thesis
  proof cases
    case holding
    then show ?thesis using serve_enabled [OF o sv gc holding, of c] schedule_step.finish by metis
  next
    case waiting
    then show ?thesis using schedule_step.lock by blast
  next
    case idle
    show ?thesis
    proof (cases "joining s")
      case (Cons i "is")
      then have "phases s ! i = Done" using o idle by (auto simp: order_inv_def phase_inv_def)
      then show ?thesis using Cons schedule_step.join by blast
    next
      case Nil
      then obtain k bs where b: "backlog s = k # bs" using e idle by (cases "backlog s") (auto simp: all_done_def)
      have "main_inv (length (arrived s)) (main s)" "fd (fst k) \<noteq> - 1" using o b by (auto simp: order_inv_def)
      then obtain t where "main_turn (main s) (conn_event (length (arrived s)) (fst k)) = Inr (Running t)"
        by (rule accept_turn)
      then show ?thesis using Nil b schedule_step.accept by blast
    qed
  qed
qed

text \<open>What has happened at the end, for an order of the clients.\<close>

lemma all_done_served:
  assumes inv: "fair_inv ks env n ls s" and e: "all_done s"
  shows "\<exists>order. distinct order \<and> set order = {..<length ks} \<and> drop 2 order = [2..<length ks] \<and>
    replies s = map (\<lambda>j. (order ! j, concat (ls @ map (\<lambda>i. line (fst (ks ! i))) (take (Suc j) order)))) [0..<length ks] \<and>
    (\<exists>m d. dev s = (env, m, d, n) \<and> lines m d = ls @ map (\<lambda>i. line (fst (ks ! i))) order)"
proof -
  have o: "order_inv s" and sv: "served_inv ks env n ls s" using inv by (simp_all add: fair_inv_def)
  have a: "arrived s = ks" using sv e by (simp add: served_inv_def all_done_def)
  have l: "line_of s = (\<lambda>i. line (fst (ks ! i)))" by (simp add: line_of_def a fun_eq_iff)
  have st: "distinct (served s)" "set (served s) = {..<length ks}"
    using sv e o a by (auto simp: served_inv_def all_done_def order_inv_def)
  have n: "length (served s) = length ks" using distinct_card [OF st(1)] st(2) by simp
  have h: "map snd (replies s) = map (\<lambda>j. concat (ls @ map (line_of s) (take (Suc j) (served s)))) [0..<length ks]"
    using sv n by (simp add: served_inv_def)
  have f: "served s = map (\<lambda>j. served s ! j) [0..<length ks]" using n map_nth [of "served s"] by simp
  have "replies s = zip (served s) (map snd (replies s))" by (simp add: served_def zip_map_fst_snd)
  also have "\<dots> = map (\<lambda>j. (served s ! j, concat (ls @ map (line_of s) (take (Suc j) (served s))))) [0..<length ks]"
    unfolding h by (subst f) (simp add: zip_map_map zip_same_conv_map comp_def n)
  finally have "replies s = map (\<lambda>j. (served s ! j, concat (ls @ map (\<lambda>i. line (fst (ks ! i))) (take (Suc j) (served s))))) [0..<length ks]"
    unfolding l .
  moreover have "\<exists>m d. dev s = (env, m, d, n) \<and> lines m d = ls @ map (\<lambda>i. line (fst (ks ! i))) (served s)"
    using sv unfolding served_inv_def l by blast
  moreover have "drop 2 (served s) = [2..<length ks]" using sv n by (simp add: served_inv_def)
  ultimately show ?thesis using st by blast
qed

lemma can_finish: "fair_inv ks env n ls s \<Longrightarrow> \<exists>t. (schedule_step c)\<^sup>*\<^sup>* s t \<and> all_done t"
proof (induction "work s" arbitrary: s rule: less_induct)
  case less
  show ?case
  proof (cases "all_done s")
    case False
    then obtain t where t: "schedule_step c s t" using progress [OF less.prems] by blast
    moreover have "work t < work s" using work_decreases [OF _ t] less.prems by (simp add: fair_inv_def)
    ultimately obtain u where "(schedule_step c)\<^sup>*\<^sup>* t u" "all_done u"
      using less.hyps service.inv_step [OF less.prems t] by blast
    then show ?thesis using t by (meson converse_rtranclp_into_rtranclp)
  qed auto
qed

section \<open>Properties of the running server\<close>

text \<open>
  C4. From a device that holds fewer lines than ten, with clients that all send and fit into
  the ring, every schedule of the threads ends: after at most five steps per client nothing can
  move, from every state on the way such an end can be reached, and a state in which nothing can
  move is one where every client is served and every thread joined. The clients are served in an
  order in which at most the first two are swapped; each gets what the device held followed by
  the lines of all clients served up to itself, and the device holds these lines.
\<close>

theorem every_client_is_served:
  assumes "file_ok (env, m, d, n)" and "good_clients ks (lines m d)"
    and "(schedule_step c ^^ j) (start_schedule (env, m, d, n) ks) s"
  shows "j \<le> 5 * length ks \<and> (\<exists>t. (schedule_step c)\<^sup>*\<^sup>* s t \<and> all_done t) \<and>
    ((\<nexists>t. schedule_step c s t) \<longrightarrow> all_done s) \<and>
    (all_done s \<longrightarrow> (\<exists>order m' d'. distinct order \<and> set order = {..<length ks} \<and> drop 2 order = [2..<length ks] \<and>
       replies s = map (\<lambda>j. (order ! j, concat (lines m d @ map (\<lambda>i. line (fst (ks ! i))) (take (Suc j) order))))
         [0..<length ks] \<and>
       dev s = (env, m', d', n) \<and> lines m' d' = lines m d @ map (\<lambda>i. line (fst (ks ! i))) order))"
proof -
  let ?s = "start_schedule (env, m, d, n) ks"
  have st: "fair_inv ks env n (lines m d) ?s" using service.inv_start assms(1,2) by blast
  have s: "fair_inv ks env n (lines m d) s" using service.inv_steps [OF relpowp_imp_rtranclp [OF assms(3)] st] .
  have w: "work ?s = 5 * length ks" by (simp add: work_def start_schedule_def)
  have j: "j \<le> 5 * length ks" using work_bounds_steps [OF _ assms(3)] st w by (simp add: fair_inv_def)
  show ?thesis
    using j can_finish [OF s, of c] progress [OF s, of c] all_done_served [OF s] by auto
qed

text \<open>Two clients that send "d": there is an end, and both are served there.\<close>

theorem every_client_is_served_witness:
  "\<exists>t. (schedule_step asm_generic)\<^sup>*\<^sup>*
      (start_schedule (demo_env, demo_mem, demo_dev, 0) [(demo_client, True), (demo_client, True)]) t \<and>
    all_done t \<and> map snd (replies t) = [[97, 98, 10, 99, 10, 100, 10], [97, 98, 10, 99, 10, 100, 10, 100, 10]]"
proof -
  let ?ks = "[(demo_client, True), (demo_client, True)]"
  let ?s = "start_schedule (demo_env, demo_mem, demo_dev, 0) ?ks"
  have k: "good_clients ?ks (lines demo_mem demo_dev)"
    using demo_client_line unfolding good_clients_def demo_lines
    by (auto simp: demo_client_def BUF_SIZE_def MAXW_eq)
  obtain t where t: "(schedule_step asm_generic)\<^sup>*\<^sup>* ?s t" "all_done t"
    using every_client_is_served [OF demo_file_ok k, where c = asm_generic and j = 0 and s = ?s] by auto
  then obtain j where "(schedule_step asm_generic ^^ j) ?s t" using rtranclp_imp_relpowp by metis
  from every_client_is_served [OF demo_file_ok k this] t(2) have
    "\<exists>order m' d'. distinct order \<and> set order = {..<length ?ks} \<and> drop 2 order = [2..<length ?ks] \<and>
       replies t = map (\<lambda>j. (order ! j, concat (lines demo_mem demo_dev @
         map (\<lambda>i. line (fst (?ks ! i))) (take (Suc j) order)))) [0..<length ?ks] \<and>
       dev t = (demo_env, m', d', 0) \<and> lines m' d' = lines demo_mem demo_dev @ map (\<lambda>i. line (fst (?ks ! i))) order"
    by (elim conjE) (erule mp)
  then obtain order where
    o: "distinct order" "set order = {..<length ?ks}"
    and r: "replies t = map (\<lambda>j. (order ! j, concat (lines demo_mem demo_dev @
        map (\<lambda>i. line (fst (?ks ! i))) (take (Suc j) order)))) [0..<length ?ks]"
    by (elim exE conjE)
  have "length order = 2" using distinct_card [OF o(1)] o(2) by simp
  then obtain x y where xy: "order = [x, y]" by (metis length_0_conv length_Suc_conv numeral_2_eq_2)
  have "x \<in> set order" "y \<in> set order" unfolding xy by simp_all
  then have "x < 2" "y < 2" unfolding o(2) by simp_all
  then have "line (fst (?ks ! x)) = [100, 10]" "line (fst (?ks ! y)) = [100, 10]"
    by (auto simp: less_2_cases_iff demo_client_def)
  then have "map snd (replies t) = [[97, 98, 10, 99, 10, 100, 10], [97, 98, 10, 99, 10, 100, 10, 100, 10]]"
    unfolding r xy demo_lines by (simp add: upt_rec)
  with t show ?thesis by (intro exI [of _ t] conjI)
qed

text \<open>
  C27. A client that connects and never sends stops the server: once its thread holds the mutex,
  in every schedule nothing more is stored or sent, no other thread is served, and from the second
  connection on no other is accepted.
\<close>

theorem silent_client_blocks:
  assumes "\<forall>k \<in> set ks. fd (fst k) \<noteq> - 1" and "(schedule_step c)\<^sup>*\<^sup>* (start_schedule f ks) s"
    and "i < length (phases s)" and "phases s ! i = Holding" and "\<not> snd (arrived s ! i)"
    and "(schedule_step c)\<^sup>*\<^sup>* s t"
  shows "phases t ! i = Holding \<and> dev t = dev s \<and> replies t = replies s \<and> \<not> all_done t \<and>
    length (arrived t) \<le> max 2 (length (arrived s))"
proof -
  have "order_inv s" using turns.inv_reachable assms(1,2) by blast
  moreover have "stuck_on i s" using assms(3-5) by (simp add: stuck_on_def)
  ultimately have "stuck_on i t \<and> dev t = dev s \<and> replies t = replies s \<and> length (arrived t) \<le> max 2 (length (arrived s))"
    using stuck_steps [OF assms(6)] by blast
  then show ?thesis by (auto simp: stuck_on_def all_done_def)
qed

text \<open>The silent client comes first and gets the mutex.\<close>

theorem silent_client_blocks_witness:
  "\<exists>s. (schedule_step asm_generic)\<^sup>*\<^sup>*
      (start_schedule (demo_env, demo_mem, demo_dev, 0) [(demo_client, False), (demo_client, True)]) s \<and>
    (\<forall>t. (schedule_step asm_generic)\<^sup>*\<^sup>* s t \<longrightarrow> replies t = [] \<and> dev t = (demo_env, demo_mem, demo_dev, 0))"
proof -
  let ?f = "(demo_env, demo_mem, demo_dev, 0)" and ?k = "(demo_client, False)"
  let ?ks = "[?k, (demo_client, True)]"
  have f: "\<forall>k \<in> set ?ks. fd (fst k) \<noteq> - 1" by (simp add: demo_client_def)
  have o: "order_inv (start_schedule ?f ?ks)" using order_inv_start [OF f] .
  have "main_inv 0 start_server" using o by (simp add: order_inv_def start_schedule_def)
  moreover have "fd demo_client \<noteq> - 1" by (simp add: demo_client_def)
  ultimately obtain m where m: "main_turn start_server (conn_event 0 demo_client) = Inr (Running m)" "joined m = []"
    by (rule accept_turn) (auto simp: start_server_def)
  let ?s1 = "\<lparr>backlog = [(demo_client, True)], arrived = [?k], phases = [Waiting], main = m, joining = [], dev = ?f, replies = []\<rparr>"
  let ?s2 = "?s1\<lparr>phases := [Holding]\<rparr>"
  have "schedule_step asm_generic (start_schedule ?f ?ks) ?s1"
    using schedule_step.accept [of "start_schedule ?f ?ks" ?k "[(demo_client, True)]" m asm_generic] m
    by (simp add: start_schedule_def start_server_def)
  moreover have "schedule_step asm_generic ?s1 ?s2" using schedule_step.lock [of 0 ?s1 asm_generic] by simp
  ultimately have r: "(schedule_step asm_generic)\<^sup>*\<^sup>* (start_schedule ?f ?ks) ?s2" by simp
  have "\<forall>t. (schedule_step asm_generic)\<^sup>*\<^sup>* ?s2 t \<longrightarrow> replies t = [] \<and> dev t = ?f"
    using silent_client_blocks [OF f r, of 0] by simp
  with r show ?thesis by (intro exI [of _ ?s2] conjI)
qed

end
