(* ===== verification/Flush_Test.thy ===== *)
theory Flush_Test
  imports Socket_Server
begin

text \<open>
  The program \<open>flush_test.c\<close>, which asks the driver to forget everything, between the clients
  of the server.
\<close>

section \<open>The program\<close>

text \<open>
  \<open>output_file\<close> is the result of \<open>open\<close>; the result is the exit status. The request has no
  argument: \<open>arg\<close> is what the kernel finds in its place. A negative result of the driver reaches
  the program as -1, and in either case is not zero.
\<close>

definition flush_test ::
  "ioc \<Rightarrow> int \<Rightarrow> u64 \<times> aesd_seekto \<Rightarrow> dev_file \<Rightarrow> (dev_file \<times> int) res" where
  "flush_test c output_file arg f =
     (if output_file < 0 then Inr (f, - 1)
      else case f of (env, m, d, n) \<Rightarrow>
        bnd (aesd_ioctl c m d (AESDCHAR_FLUSH c) arg) (\<lambda>(m, d, res).
          Inr ((env, m, d, n), if res \<noteq> 0 then - 1 else 0)))"

lemma flush_empty:
  assumes ok: "file_ok (env, m, d, n)" and c: "good_ioc c" "AESDCHAR_IOCSEEKTO c \<noteq> AESDCHAR_FLUSH c"
    and "0 \<le> output_file"
  shows "\<exists>m' d'. flush_test c output_file arg (env, m, d, n) = Inr ((env, m', d', n), 0) \<and>
    file_ok (env, m', d', n) \<and> lines m' d' = []"
proof -
  have inv: "dev_inv m d" using ok by simp
  obtain m' d' where f: "aesd_flush m d = Inr (m', d', 0)" "dev_inv m' d'" "view m' d' = ([], [])"
      "\<not> seek d'" "mutex d' = mutex d"
    using aesd_flush_spec [OF inv] by auto
  have "\<not> partial d'" using f(1) by (auto simp: aesd_flush_def)
  moreover have "aesd_ioctl c m d (AESDCHAR_FLUSH c) arg = aesd_flush m d"
    using c by (simp add: aesd_ioctl_def good_ioc_def AESDCHAR_IOC_MAXNR_def)
  ultimately show ?thesis
    using f ok assms(4) by (intro exI [of _ m'] exI [of _ d']) (simp add: flush_test_def view_def)
qed

section \<open>Properties\<close>

text \<open>
  Whatever lines the device holds: the program exits with 0, and clients that are served
  afterwards get only their own lines and those of the clients before them.
\<close>

theorem flush_test_starts_over:
  assumes "file_ok (env, m, d, n)" and "good_ioc c" and "AESDCHAR_IOCSEEKTO c \<noteq> AESDCHAR_FLUSH c"
    and "0 \<le> output_file"
    and "\<And>k. k \<in> set ks \<Longrightarrow> client_line (line k) \<and> length (stack k) = BUF_SIZE + 1"
    and "length ks \<le> 10" and "length (concat (map line ks)) < BUF_SIZE"
  shows "\<exists>f m' d'. flush_test c output_file arg (env, m, d, n) = Inr (f, 0) \<and>
    serve_all c f ks =
      Inr ((env, m', d', n), map (\<lambda>i. (concat (map line (take (Suc i) ks)), True)) [0..<length ks]) \<and>
    lines m' d' = map line ks"
proof -
  obtain m1 d1 where f: "flush_test c output_file arg (env, m, d, n) = Inr ((env, m1, d1, n), 0)"
      "file_ok (env, m1, d1, n)" "lines m1 d1 = []"
    using flush_empty [OF assms(1-4)] by blast
  have fits: "length (lines m1 d1) + length ks \<le> MAXW" "length (concat (lines m1 d1 @ map line ks)) < BUF_SIZE"
    using f(3) assms(6,7) by (simp_all add: MAXW_eq)
  show ?thesis using serve_all_history [OF f(2) assms(5) fits, of c] f(1,3) by auto
qed

text \<open>The demo device holds two lines; after the flush a client gets back only its own.\<close>

theorem flush_test_starts_over_witness:
  "\<exists>f f'. flush_test asm_generic 3 (0, \<lparr>write_cmd = 7, write_cmd_offset = 7\<rparr>) (demo_env, demo_mem, demo_dev, 0) =
      Inr (f, 0) \<and> serve_all asm_generic f [demo_client] = Inr (f', [([100, 10], True)])"
proof -
  have ne: "AESDCHAR_IOCSEEKTO asm_generic \<noteq> AESDCHAR_FLUSH asm_generic"
    by (simp add: asm_generic_def AESDCHAR_IOCSEEKTO_def AESDCHAR_FLUSH_def AESD_IOC_MAGIC_def)
  have k: "client_line (line k) \<and> length (stack k) = BUF_SIZE + 1" if "k \<in> set [demo_client]" for k
    using that demo_client_line by (auto simp: demo_client_def BUF_SIZE_def)
  have l: "length [demo_client] \<le> 10" "length (concat (map line [demo_client])) < BUF_SIZE" "(0 :: int) \<le> 3"
    by (simp_all add: demo_client_def BUF_SIZE_def)
  show ?thesis
    using flush_test_starts_over [OF demo_file_ok good_asm_generic ne l(3) k l(1,2),
        of "(0, \<lparr>write_cmd = 7, write_cmd_offset = 7\<rparr>)"]
    by (auto simp: demo_client_def simp del: serve_all.simps)
qed

end
