(* ===== verification/Aesd_Files.thy ===== *)
theory Aesd_Files
  imports Aesd_Driver
begin

text \<open>
  Several open files of the one device. The kernel keeps a position for each open file, which
  \<open>aesd_read\<close> and \<open>aesd_llseek\<close> get through their pointer; the driver itself keeps only one
  device, and with it one pending seek request for all files. Calls come one after the other.
\<close>

section \<open>Callers with a private state each\<close>

text \<open>
  A call is made by one caller and gives an output. \<open>run_calls\<close> makes calls in the given order
  and logs each output with its caller.
\<close>

fun run_calls :: "('s \<Rightarrow> nat \<Rightarrow> 'c \<Rightarrow> ('s \<times> 'o) res) \<Rightarrow> 's \<Rightarrow> (nat \<times> 'c) list \<Rightarrow> ('s \<times> (nat \<times> 'o) list) res" where
  "run_calls call s [] = Inr (s, [])"
| "run_calls call s ((f, c) # cs) =
     bnd (call s f c) (\<lambda>(s, out). bnd (run_calls call s cs) (\<lambda>(s, log). Inr (s, (f, out) # log)))"

definition of_caller :: "nat \<Rightarrow> (nat \<times> 'a) list \<Rightarrow> 'a list" where
  "of_caller f xs = map snd (filter (\<lambda>x. fst x = f) xs)"

lemma of_caller_simps [simp]:
  "of_caller f [] = []"
  "of_caller f ((g, x) # xs) = (if g = f then x # of_caller f xs else of_caller f xs)"
  by (simp_all add: of_caller_def)

definition own :: "nat \<Rightarrow> (nat \<times> 'a) list \<Rightarrow> (nat \<times> 'a) list" where
  "own f xs = filter (\<lambda>x. fst x = f) xs"

lemma of_caller_own [simp]: "of_caller f (own f xs) = of_caller f xs"
  by (simp add: of_caller_def own_def)

text \<open>A caller alone, whose outputs depend on its private state only.\<close>

fun alone :: "('p \<Rightarrow> 'c \<Rightarrow> 'p \<times> 'o) \<Rightarrow> 'p \<Rightarrow> 'c list \<Rightarrow> 'p \<times> 'o list" where
  "alone answer p [] = (p, [])"
| "alone answer p (c # cs) =
     (let (p, out) = answer p c; (p, outs) = alone answer p cs in (p, out # outs))"

text \<open>
  The contract: every call gives what the private state of its caller determines, and changes
  no other private state. Then each caller gets what it gets without the others.
\<close>

locale private_callers =
  fixes call :: "'s \<Rightarrow> nat \<Rightarrow> 'c \<Rightarrow> ('s \<times> 'o) res"
    and priv :: "'s \<Rightarrow> nat \<Rightarrow> 'p"
    and answer :: "'p \<Rightarrow> 'c \<Rightarrow> 'p \<times> 'o"
    and inv :: "'s \<Rightarrow> bool"
    and ok :: "'c \<Rightarrow> bool"
  assumes call_answers: "inv s \<Longrightarrow> ok c \<Longrightarrow> answer (priv s f) c = (p, out) \<Longrightarrow>
    \<exists>s'. call s f c = Inr (s', out) \<and> inv s' \<and> priv s' = (priv s)(f := p)"
begin

lemma run_alone:
  "inv s \<Longrightarrow> list_all ok (map snd cs) \<Longrightarrow>
    \<exists>s' log. run_calls call s cs = Inr (s', log) \<and> inv s' \<and>
      (\<forall>f. alone answer (priv s f) (of_caller f cs) = (priv s' f, of_caller f log))"
proof (induction cs arbitrary: s)
  case (Cons fc cs)
  obtain f c where fc: "fc = (f, c)" by (cases fc)
  obtain p out where a: "answer (priv s f) c = (p, out)" by (cases "answer (priv s f) c")
  obtain s1 where s1: "call s f c = Inr (s1, out)" "inv s1" "priv s1 = (priv s)(f := p)"
    using call_answers [OF Cons.prems(1) _ a] Cons.prems(2) by (auto simp: fc)
  obtain s2 log where s2: "run_calls call s1 cs = Inr (s2, log)" "inv s2"
      "\<forall>f. alone answer (priv s1 f) (of_caller f cs) = (priv s2 f, of_caller f log)"
    using Cons.IH [OF s1(2)] Cons.prems(2) by (auto simp: fc)
  have "alone answer (priv s g) (of_caller g (fc # cs)) = (priv s2 g, of_caller g ((f, out) # log))" for g
    using s2(3) [rule_format, of g] a unfolding s1(3) by (auto simp: fc)
  then show ?case using s1(1) s2(1,2) by (auto simp: fc)
qed simp

lemma others_do_not_matter:
  assumes "inv s" and "list_all ok (map snd cs)"
  shows "\<exists>s1 log1 s2 log2. run_calls call s cs = Inr (s1, log1) \<and> run_calls call s (own f cs) = Inr (s2, log2) \<and>
    of_caller f log1 = of_caller f log2 \<and> priv s1 f = priv s2 f \<and> inv s1 \<and>
    alone answer (priv s f) (of_caller f cs) = (priv s1 f, of_caller f log1)"
proof -
  have "list_all ok (map snd (own f cs))" using assms(2) by (auto simp: own_def list_all_iff)
  then obtain s2 log2 where 2: "run_calls call s (own f cs) = Inr (s2, log2)"
      "alone answer (priv s f) (of_caller f cs) = (priv s2 f, of_caller f log2)"
    using run_alone [OF assms(1)] of_caller_own by metis
  obtain s1 log1 where 1: "run_calls call s cs = Inr (s1, log1)" "inv s1"
      "alone answer (priv s f) (of_caller f cs) = (priv s1 f, of_caller f log1)"
    using run_alone [OF assms] by blast
  then show ?thesis using 2 by simp
qed

end

section \<open>Open files\<close>

datatype file_call = File_read u64 | File_write "u8 list" | File_lseek u64 int | File_ioctl u32 "u64 \<times> aesd_seekto"

text \<open>
  The operations of \<open>aesd_fops\<close> after opening: the device and the position of every open file, and
  an output that is a result and the bytes read. Only reads and \<open>llseek\<close> move the position.
\<close>

type_synonym open_files = "kmem \<times> aesd_dev \<times> (nat \<Rightarrow> u64)"

fun on_file :: "kenv \<Rightarrow> ioc \<Rightarrow> llseek_size \<Rightarrow> open_files \<Rightarrow> nat \<Rightarrow> file_call \<Rightarrow> (open_files \<times> int \<times> u8 list) res" where
  "on_file env c generic (m, d, pos) f (File_read n) =
     bnd (aesd_read env m d n (pos f)) (\<lambda>(m, d, p, ret, user). Inr ((m, d, pos(f := p)), ret, take (nat ret) user))"
| "on_file env c generic (m, d, pos) f (File_write buf) =
     bnd (aesd_write env m d buf) (\<lambda>(m, d, ret). Inr ((m, d, pos), ret, []))"
| "on_file env c generic (m, d, pos) f (File_lseek offset whence) =
     (let (p, ret) = aesd_llseek generic d (pos f) offset whence in Inr ((m, d, pos(f := p)), ret, []))"
| "on_file env c generic (m, d, pos) f (File_ioctl cmd copied) =
     bnd (aesd_ioctl c m d cmd copied) (\<lambda>(m, d, ret). Inr ((m, d, pos), ret, []))"

section \<open>What a file gets of a device at rest\<close>

text \<open>
  From a device without a seek request, with requests larger than all it holds: a read below the
  end gets the rest of the run its position is in, one at the end nothing.
\<close>

fun file_answer :: "llseek_size \<Rightarrow> aesd_dev \<Rightarrow> u8 list list \<Rightarrow> u64 \<Rightarrow> file_call \<Rightarrow> u64 \<times> int \<times> u8 list" where
  "file_answer generic d ls p (File_read n) =
     (if unat p < length (concat ls)
      then let k = run_left (wrap_at (buffer d)) ls (unat p)
        in (p + of_nat k, int k, take k (drop (unat p) (concat ls)))
      else (p, 0, []))"
| "file_answer generic d ls p (File_lseek offset whence) =
     (let (p, ret) = aesd_llseek generic d p offset whence in (p, ret, []))"
| "file_answer generic d ls p _ = (p, 0, [])"

text \<open>Calls that leave the device alone, and positions the kernel allows.\<close>

fun plain_call :: "nat \<Rightarrow> file_call \<Rightarrow> bool" where
  "plain_call len (File_read n) \<longleftrightarrow> len < unat n \<and> unat n < 2 ^ 31"
| "plain_call len (File_lseek offset whence) \<longleftrightarrow> True"
| "plain_call len _ \<longleftrightarrow> False"

definition good_llseek :: "llseek_size \<Rightarrow> bool" where
  "good_llseek generic \<longleftrightarrow> (\<forall>pos offset whence most eof. unat pos < 2 ^ 63 \<longrightarrow>
     unat (fst (generic pos offset whence most eof)) < 2 ^ 63)"

fun files_ok :: "aesd_dev \<Rightarrow> u8 list list \<Rightarrow> open_files \<Rightarrow> bool" where
  "files_ok d0 ls (m, d, pos) \<longleftrightarrow> d = d0 \<and> dev_inv m d \<and> slots_sane (buffer d) \<and> lines m d = ls \<and> (\<forall>f. unat (pos f) < 2 ^ 63)"

lemma read_at:
  assumes inv: "dev_inv m d" and env: "kernel_ok env" "\<not> relocked env" and free: "\<not> mutex d" "\<not> seek d"
    and n: "length (concat (lines m d)) < unat n" "unat n < 2 ^ 31" and sane: "slots_sane (buffer d)" and p: "unat p < 2 ^ 63"
    and a: "file_answer g d (lines m d) p (File_read n) = (q, ret, bs)"
  obtains m' user where "aesd_read env m d n p = Inr (m', d, q, ret, user)" and "take (nat ret) user = bs"
    and "dev_inv m' d" and "lines m' d = lines m d" and "unat q < 2 ^ 63"
proof (cases "unat p < length (concat (lines m d))")
  case False
  have al: "good_alloc (alloc env)" using env(1) by (simp add: kernel_ok_def)
  obtain m' where "aesd_read env m d n p = Inr (m', d, p, 0, [])" "dev_inv m' d" "lines m' d = lines m d"
    using aesd_read_end [OF inv al free(1), of p n] False p by auto
  moreover have "q = p" "ret = 0" "bs = []" using a False by simp_all
  ultimately show thesis using p by (intro that [of m' "[]"]) simp_all
next
  case True
  let ?ls = "lines m d" and ?j = "run_left (wrap_at (buffer d)) (lines m d) (unat p)"
  have al: "good_alloc (alloc env)" "total_alloc (alloc env)" using env(1) by (simp_all add: kernel_ok_def)
  obtain i r0 where loc: "locate (map length ?ls) (unat p) = Some (i, r0)"
    using True locate_lt by (metis length_concat)
  have j: "0 < ?j" "unat p + ?j \<le> length (concat ?ls)" using run_left_pos [OF True] by auto
  have "length (?ls ! i) \<le> length (concat ?ls)"
    using locate_bounds [OF loc] by (auto simp: length_concat intro!: member_le_sum_list)
  then have big: "length (?ls ! i) < unat n" "?j < unat n" "?j = min (unat n) ?j" using n(1) j by simp_all
  obtain m' rest where r: "aesd_read env m d n p = Inr (m', d, p + of_nat ?j, int ?j,
      take ?j (drop (unat p) (concat ?ls)) @ rest)" "dev_inv m' d" "lines m' d = ?ls"
    using aesd_read_no_seek(1) [OF inv al free(1) env(2) free(2) n(2) loc big(3) disjI2 [OF sane]] big(1,2) by blast
  have "unat (p + of_nat ?j :: u64) = unat p + ?j"
  proof -
    have "unat (of_nat ?j :: u64) = ?j" using j(2) content_small [OF inv] by (intro unat_of_nat_u64) simp
    then show ?thesis using j(2) content_small [OF inv] by (simp add: unat_plus_u64)
  qed
  then have "unat (p + of_nat ?j :: u64) < 2 ^ 63" using j(2) content_small [OF inv] by simp
  moreover have "length (take ?j (drop (unat p) (concat ?ls))) = ?j" using j(2) by simp
  ultimately show thesis using r True a by (intro that [of m' "take ?j (drop (unat p) (concat ?ls)) @ rest"]) (auto simp: Let_def)
qed

lemma on_file_answers:
  assumes env: "kernel_ok env" "\<not> relocked env" and g: "good_llseek generic" and free: "\<not> mutex d0" "\<not> seek d0"
    and ok: "files_ok d0 ls (m, d, pos)" and plain: "plain_call (length (concat ls)) k"
    and a: "file_answer generic d0 ls (pos f) k = (p, out)"
  shows "\<exists>m'. on_file env c generic (m, d, pos) f k = Inr ((m', d, pos(f := p)), out) \<and> files_ok d0 ls (m', d, pos(f := p))"
proof (cases k)
  case (File_read n)
  have H: "dev_inv m d" "d0 = d" "ls = lines m d" "length (concat (lines m d)) < unat n" "unat n < 2 ^ 31"
      "slots_sane (buffer d)" "unat (pos f) < 2 ^ 63" "\<not> mutex d" "\<not> seek d"
    using ok plain free by (auto simp: File_read)
  obtain ret bs where out: "out = (ret, bs)" by (cases out)
  obtain m' user where "aesd_read env m d n (pos f) = Inr (m', d, p, ret, user)" "take (nat ret) user = bs"
      "dev_inv m' d" "lines m' d = lines m d" "unat p < 2 ^ 63"
    by (rule read_at [OF H(1) env H(8,9,4-7) a [unfolded File_read H(2,3) out]])
  then show ?thesis using ok by (auto simp: File_read out)
next
  case (File_lseek offset whence)
  have "p = fst (aesd_llseek generic d0 (pos f) offset whence)" using a by (auto simp: File_lseek split: prod.splits)
  then have "unat p < 2 ^ 63"
    using g ok by (simp add: aesd_llseek_def Let_def good_llseek_def)
  then show ?thesis using a ok by (auto simp: File_lseek split: prod.splits)
qed (use plain in simp_all)

interpretation open_files: private_callers "on_file env c generic" "\<lambda>s. snd (snd s)" "file_answer generic d0 ls"
    "\<lambda>s. files_ok d0 ls s \<and> kernel_ok env \<and> \<not> relocked env \<and> good_llseek generic \<and> \<not> mutex d0 \<and> \<not> seek d0"
    "plain_call (length (concat ls))"
  for env c generic d0 ls
proof unfold_locales
  fix s :: open_files and k f p out
  assume ok: "files_ok d0 ls s \<and> kernel_ok env \<and> \<not> relocked env \<and> good_llseek generic \<and> \<not> mutex d0 \<and> \<not> seek d0"
    and plain: "plain_call (length (concat ls)) k" and a: "file_answer generic d0 ls (snd (snd s) f) k = (p, out)"
  obtain m d pos where s: "s = (m, d, pos)" by (cases s)
  have H: "kernel_ok env" "\<not> relocked env" "good_llseek generic" "\<not> mutex d0" "\<not> seek d0" "files_ok d0 ls (m, d, pos)"
      "file_answer generic d0 ls (pos f) k = (p, out)"
    using ok a by (simp_all add: s del: files_ok.simps)
  obtain m' where m': "on_file env c generic (m, d, pos) f k = Inr ((m', d, pos(f := p)), out)" "files_ok d0 ls (m', d, pos(f := p))"
    using on_file_answers [OF H(1-6) plain H(7), of c] by blast
  show "\<exists>s'. on_file env c generic s f k = Inr (s', out) \<and>
      (files_ok d0 ls s' \<and> kernel_ok env \<and> \<not> relocked env \<and> good_llseek generic \<and> \<not> mutex d0 \<and> \<not> seek d0) \<and>
      snd (snd s') = (snd (snd s))(f := p)"
    unfolding s snd_conv using m' H(1-5) by (intro exI [of _ "(m', d, pos(f := p))"]) (simp del: files_ok.simps on_file.simps)
qed

section \<open>Properties\<close>

text \<open>
  C14. Open files do not disturb each other: in any order of reads and \<open>llseek\<close> calls of any number
  of files, with reads larger than all the device holds, every call returns, and each file gets
  the same results, bytes and position as if the calls of the others were not made. They are
  those of \<open>file_answer\<close>, which knows the lines held and this file's position only. The slots
  not held are to show no garbage for a size, as they do not any more once ten lines came in.
\<close>

theorem files_keep_apart:
  assumes "dev_inv m d" and "kernel_ok env" and "\<not> relocked env" and "\<not> mutex d" and "\<not> seek d"
    and "good_llseek generic" and "\<forall>f. unat (pos f) < 2 ^ 63"
    and "list_all (plain_call (length (concat (lines m d)))) (map snd cs)" and "slots_sane (buffer d)"
  shows "\<exists>m1 pos1 log1 m2 pos2 log2.
    run_calls (on_file env c generic) (m, d, pos) cs = Inr ((m1, d, pos1), log1) \<and>
    run_calls (on_file env c generic) (m, d, pos) (own f cs) = Inr ((m2, d, pos2), log2) \<and>
    of_caller f log1 = of_caller f log2 \<and> pos1 f = pos2 f \<and>
    alone (file_answer generic d (lines m d)) (pos f) (of_caller f cs) = (pos1 f, of_caller f log1) \<and>
    dev_inv m1 d \<and> lines m1 d = lines m d"
proof -
  let ?ok = "\<lambda>s. files_ok d (lines m d) s \<and> kernel_ok env \<and> \<not> relocked env \<and> good_llseek generic \<and> \<not> mutex d \<and> \<not> seek d"
  have ok: "?ok (m, d, pos)" using assms(1-7,9) by simp
  have own_ok: "list_all (plain_call (length (concat (lines m d)))) (map snd (own f cs))"
    using assms(8) by (auto simp: own_def list_all_iff)
  obtain s1 log1 s2 log2 where r: "run_calls (on_file env c generic) (m, d, pos) cs = Inr (s1, log1)"
      "run_calls (on_file env c generic) (m, d, pos) (own f cs) = Inr (s2, log2)"
      "of_caller f log1 = of_caller f log2" "snd (snd s1) f = snd (snd s2) f" "?ok s1"
      "alone (file_answer generic d (lines m d)) (pos f) (of_caller f cs) = (snd (snd s1) f, of_caller f log1)"
    using open_files.others_do_not_matter [OF ok assms(8), of c f] unfolding snd_conv by blast
  have "?ok s2" using open_files.run_alone [OF ok own_ok, of c] r(2) by fastforce
  then have "fst (snd s2) = d" by (cases s2) simp
  moreover have "fst (snd s1) = d \<and> dev_inv (fst s1) d \<and> lines (fst s1) d = lines m d" using r(5) by (cases s1) simp
  ultimately show ?thesis using r(1-4,6) by (cases s1; cases s2) fastforce
qed

text \<open>Two files read in turns; the first sees both lines in one read, the second goes back and reads again.\<close>

definition demo_calls :: "(nat \<times> file_call) list" where
  "demo_calls = [(0, File_read 64), (1, File_read 64), (1, File_lseek 0 0), (0, File_read 64), (1, File_read 64)]"

lemma good_generic_seek: "good_llseek generic_seek"
proof -
  have "unat w < 2 ^ 63" if "\<not> sint w < 0" for w :: u64
  proof -
    have b: "sint w < 2 ^ 63" using sint_lt [of w] by simp
    have "take_bit 64 (sint w) = sint w" by (rule take_bit_int_eq_self) (use that b in simp_all)
    then have "uint w = sint w" by (subst uint_sint) simp
    then show ?thesis using b by (simp only: unat_eq_nat_uint nat_less_iff uint_ge_0) simp
  qed
  note small = this
  show ?thesis unfolding good_llseek_def
  proof (intro allI impI)
    fix pos offset most eof :: u64 and whence :: int
    assume p: "unat pos < 2 ^ 63"
    let ?new = "(if whence = SEEK_SET then 0 else if whence = SEEK_CUR then pos else eof) + offset"
    show "unat (fst (generic_seek pos offset whence most eof)) < 2 ^ 63"
    proof (cases "sint ?new < 0 \<or> sint most < sint ?new")
      case True
      then show ?thesis unfolding generic_seek_def Let_def if_P [OF True] fst_conv by (simp only: p)
    next
      case False
      have "unat ?new < 2 ^ 63" by (rule small) (use False in blast)
      then show ?thesis unfolding generic_seek_def Let_def if_not_P [OF False] fst_conv .
    qed
  qed
qed

theorem files_keep_apart_witness:
  "\<exists>s1 log1. run_calls (on_file demo_env asm_generic generic_seek) (demo_mem, demo_dev, \<lambda>f. 0) demo_calls = Inr (s1, log1) \<and>
    of_caller 1 log1 = [(5, [97, 98, 10, 99, 10]), (0, []), (5, [97, 98, 10, 99, 10])]"
proof -
  have p: "\<not> relocked demo_env" "\<not> mutex demo_dev" "\<not> seek demo_dev" "\<forall>f :: nat. unat (0 :: u64) < 2 ^ 63"
    "list_all (plain_call (length (concat (lines demo_mem demo_dev)))) (map snd demo_calls)" "slots_sane (buffer demo_dev)"
    by (simp_all add: demo_calls_def demo_lines)
  have w: "wrap_at demo_two = 2" by (simp add: wrap_at_def demo_two_def)
  obtain m1 pos1 log1 m2 pos2 log2 where r:
    "run_calls (on_file demo_env asm_generic generic_seek) (demo_mem, demo_dev, \<lambda>f. 0) demo_calls = Inr ((m1, demo_dev, pos1), log1)"
    "alone (file_answer generic_seek demo_dev (lines demo_mem demo_dev)) 0 (of_caller 1 demo_calls) = (pos1 1, of_caller 1 log1)"
    using files_keep_apart [OF demo_inv demo_kernel_ok p(1-3) good_generic_seek p(4-6), of asm_generic 1]
    by (elim exE conjE)
  have "of_caller 1 log1 = snd (alone (file_answer generic_seek demo_dev (lines demo_mem demo_dev)) 0 (of_caller 1 demo_calls))"
    using r(2) by simp
  also have "\<dots> = [(5, [97, 98, 10, 99, 10]), (0, []), (5, [97, 98, 10, 99, 10])]"
    by (simp add: demo_calls_def demo_lines run_left_def w aesd_llseek_def generic_seek_def SEEK_SET_def MAXW_eq)
  finally show ?thesis using r(1) by blast
qed



end
