(* ===== verification/Aesd_Readers.thy ===== *)
theory Aesd_Readers
  imports Aesd_Race
begin

text \<open>
  Calls of \<open>aesd_read\<close> among other calls. The read handler is cut like the write handler of
  \<open>Aesd_Race\<close>: its first block before it looks at the mutex, its work under the mutex, and after the
  release a look at the mutex, the copy to the user, the two \<open>kfree\<close> and a last look at the size of
  the device, which the mutex no longer protects. The theory has the steps of readers, what a read finds from any position, and
  the invariant that the steps of readers keep in whatever larger system they run: neither side
  touches the private blocks of the other. \<open>Aesd_Race_Read\<close> adds writers, \<open>Aesd_Traffic\<close> the
  requests of \<open>aesd_ioctl\<close> as well.
\<close>

section \<open>The pieces of the read handler\<close>

text \<open>Under the mutex: None is the early return at the end of the content.\<close>

definition read_body ::
  "kenv \<Rightarrow> kmem \<Rightarrow> aesd_dev \<Rightarrow> ptr \<Rightarrow> u64 \<Rightarrow> u64 \<Rightarrow> (kmem \<times> aesd_dev \<times> (ptr \<times> u64 \<times> u64) option) res" where
  "read_body env m dev tmp_buf req pos =
     (if sint (total_size (buffer dev)) \<le> sint pos then Inr (m, dev, None)
      else
        let (m, byte_offset) = kmalloc (alloc env) m 8;
            pos = (if seek dev then seekto_position dev else pos);
            dev = dev\<lparr>seek := False\<rparr>
        in bnd (read_start m byte_offset (buffer dev) pos) (\<lambda>(start_entry_index, off).
           bnd (aesd_circular_buffer_read_helper (alloc env) m (buffer dev) start_entry_index
                  (read_stop (buffer dev) start_entry_index) tmp_buf req off) (\<lambda>(m, read_count).
             Inr (m, dev, Some (byte_offset, pos, read_count)))))"

text \<open>
  After the release and the look at the mutex: file position, result and the bytes for the user.
  \<open>sz\<close> is the \<open>total_size\<close> the call sees at its last look.
\<close>

definition read_finish ::
  "kmem \<Rightarrow> u64 \<Rightarrow> ptr \<Rightarrow> ptr \<Rightarrow> u64 \<Rightarrow> u64 \<Rightarrow> u64 \<Rightarrow> (kmem \<times> u64 \<times> int \<times> u8 list) res" where
  "read_finish m sz tmp_buf byte_offset req pos read_count =
     bnd (if req = 0 then Inr [] else block m tmp_buf) (\<lambda>user.
     bnd (kfree m byte_offset) (\<lambda>m.
     bnd (kfree m tmp_buf) (\<lambda>m.
       if sint pos < sint sz then Inr (m, pos + read_count, sint read_count, user)
       else Inr (m, pos, 0, user))))"

text \<open>Without other calls the pieces are the handler.\<close>

lemma aesd_read_pieces:
  "aesd_read env m d req pos =
     (let (m, tmp_buf) = kmalloc (alloc env) m req
      in if mutex d then Inr (m, d, pos, - ENOMEM, [])
         else bnd (read_body env m d tmp_buf req pos) (\<lambda>(m, d, r). case r of
             None \<Rightarrow> Inr (m, d, pos, 0, [])
           | Some (byte_offset, pos, read_count) \<Rightarrow>
               if relocked env then Inr (m, d\<lparr>mutex := True\<rparr>, pos, - ENOMEM, [])
               else bnd (read_finish m (total_size (buffer d)) tmp_buf byte_offset req pos read_count) (\<lambda>(m, pos, ret, user).
                 Inr (m, d, pos, ret, user))))"
proof -
  obtain m1 t where 1: "kmalloc (alloc env) m req = (m1, t)" by fastforce
  obtain m2 b where 2: "kmalloc (alloc env) m1 8 = (m2, b)" by fastforce
  let ?p = "if seek d then seekto_position d else pos" and ?b = "buffer d"
  consider "mutex d \<or> sint (total_size ?b) \<le> sint pos"
    | f where "\<not> mutex d" "\<not> sint (total_size ?b) \<le> sint pos" "read_start m2 b ?b ?p = Inl f"
    | i off f where "\<not> mutex d" "\<not> sint (total_size ?b) \<le> sint pos" "read_start m2 b ?b ?p = Inr (i, off)"
        "aesd_circular_buffer_read_helper (alloc env) m2 ?b i (read_stop ?b i) t req off = Inl f"
    | i off m3 rc where "\<not> mutex d" "\<not> sint (total_size ?b) \<le> sint pos" "read_start m2 b ?b ?p = Inr (i, off)"
        "aesd_circular_buffer_read_helper (alloc env) m2 ?b i (read_stop ?b i) t req off = Inr (m3, rc)"
    by (metis surj_pair sum.exhaust)
  then show ?thesis
  proof cases
    case 4
    then show ?thesis
      by (cases "if req = 0 then Inr [] else block m3 t"; cases "kfree m3 b")
        (auto simp: aesd_read_def read_body_def read_finish_def Let_def 1 2 bnd_assoc
          if_distrib [of "\<lambda>r. bnd r f" for f] cong: if_cong)
  qed (auto simp: aesd_read_def read_body_def Let_def 1 2 cong: if_cong)
qed

section \<open>Readers in flight\<close>

text \<open>
  A call of \<open>aesd_read\<close>: what it asks for and where, its blocks, what its body found, and how
  far it is; \<open>leaving\<close> is one that after the release has seen the mutex free. \<open>since\<close> and \<open>seen\<close> are not in the code: how many lines had been stored when the
  call was entered, and when its body ran.
\<close>

record rcall =
  want :: u64
  pos_at :: u64
  buf_block :: ptr
  off_block :: ptr
  got :: u64
  rstage :: stage
  leaving :: bool
  since :: nat
  seen :: nat

record answer =
  a_want :: u64
  a_pos :: u64
  a_since :: nat
  a_seen :: nat
  a_ret :: int
  a_user :: "u8 list"

definition answer_of :: "rcall \<Rightarrow> int \<Rightarrow> u8 list \<Rightarrow> answer" where
  "answer_of c ret user = \<lparr>a_want = want c, a_pos = pos_at c, a_since = since c, a_seen = seen c,
     a_ret = ret, a_user = user\<rparr>"

lemma answer_of_simps [simp]:
  "a_want (answer_of c ret user) = want c" "a_pos (answer_of c ret user) = pos_at c"
  "a_since (answer_of c ret user) = since c" "a_seen (answer_of c ret user) = seen c"
  "a_ret (answer_of c ret user) = ret" "a_user (answer_of c ret user) = user"
  by (simp_all add: answer_of_def)

record crowd =
  shared :: race
  readers :: "rcall list"
  answers :: "answer list"

text \<open>
  What a read sees at its last look, which may come at any time: the size, or while a writer is at
  work on a full ring the size between the two assignments of \<open>aesd_circular_buffer_add_entry\<close>, which
  first takes off the entry it is going to overwrite.
\<close>

definition size_between :: "aesd_circular_buffer \<Rightarrow> u64" where
  "size_between b = total_size b - esize (entry b ! unat (in_offs b))"

definition size_seen :: "race \<Rightarrow> u64 \<Rightarrow> bool" where
  "size_seen r x \<longleftrightarrow> x = total_size (buffer (device r)) \<or>
     (\<exists>c \<in> set (calls r). stage c = Locked) \<and> full (buffer (device r)) \<and> x = size_between (buffer (device r))"

text \<open>From it \<open>aesd_circular_buffer_add_entry\<close> goes on.\<close>

lemma add_entry_size_between:
  "aesd_circular_buffer_add_entry b e = Inr b' \<Longrightarrow> full b \<Longrightarrow> total_size b' = size_between b + esize e"
  by (auto simp: aesd_circular_buffer_add_entry_def size_between_def entry_at_def split: if_splits)

text \<open>
  The steps of a reader. \<open>now\<close> is the time that \<open>since\<close> and \<open>seen\<close> count, as the system the
  readers are part of counts it.
\<close>

inductive reader_step :: "kenv \<Rightarrow> nat \<Rightarrow> 'z crowd_scheme \<Rightarrow> 'z crowd_scheme \<Rightarrow> bool" for env now where
  r_enter: "unat n < 2 ^ 31 \<Longrightarrow> unat pos < 2 ^ 63 \<Longrightarrow> kmalloc (alloc env) (heap (shared s)) n = (m, p) \<Longrightarrow>
    reader_step env now s (s\<lparr>shared := (shared s)\<lparr>heap := m\<rparr>, readers := readers s @
      [\<lparr>want = n, pos_at = pos, buf_block = p, off_block = Null, got = 0, rstage = Prepared,
        leaving = False, since = now, seen = 0\<rparr>]\<rparr>)"
| r_busy: "readers s = us @ c # vs \<Longrightarrow> rstage c = Prepared \<Longrightarrow> mutex (device (shared s)) \<Longrightarrow>
    reader_step env now s (s\<lparr>readers := us @ vs, answers := answers s @ [answer_of c (- ENOMEM) []]\<rparr>)"
| r_pass: "readers s = us @ c # vs \<Longrightarrow> rstage c = Prepared \<Longrightarrow> \<not> mutex (device (shared s)) \<Longrightarrow>
    reader_step env now s (s\<lparr>readers := us @ c\<lparr>rstage := Unlocked\<rparr> # vs\<rparr>)"
| r_lock: "readers s = us @ c # vs \<Longrightarrow> rstage c = Unlocked \<Longrightarrow> \<not> mutex (device (shared s)) \<Longrightarrow>
    reader_step env now s (s\<lparr>shared := (shared s)\<lparr>device := (device (shared s))\<lparr>mutex := True\<rparr>\<rparr>,
      readers := us @ c\<lparr>rstage := Locked\<rparr> # vs\<rparr>)"
| r_nothing: "readers s = us @ c # vs \<Longrightarrow> rstage c = Locked \<Longrightarrow>
    read_body env (heap (shared s)) (device (shared s)) (buf_block c) (want c) (pos_at c) = Inr (m, d, None) \<Longrightarrow>
    reader_step env now s (s\<lparr>shared := (shared s)\<lparr>heap := m, device := d\<lparr>mutex := False\<rparr>\<rparr>, readers := us @ vs,
      answers := answers s @ [answer_of (c\<lparr>seen := now\<rparr>) 0 []]\<rparr>)"
| r_body: "readers s = us @ c # vs \<Longrightarrow> rstage c = Locked \<Longrightarrow>
    read_body env (heap (shared s)) (device (shared s)) (buf_block c) (want c) (pos_at c) = Inr (m, d, Some (b, p, n)) \<Longrightarrow>
    reader_step env now s (s\<lparr>shared := (shared s)\<lparr>heap := m, device := d\<lparr>mutex := False\<rparr>\<rparr>,
      readers := us @ c\<lparr>rstage := Stored, off_block := b, pos_at := p, got := n,
        seen := now\<rparr> # vs\<rparr>)"
| r_end_busy: "readers s = us @ c # vs \<Longrightarrow> rstage c = Stored \<Longrightarrow> \<not> leaving c \<Longrightarrow> mutex (device (shared s)) \<Longrightarrow>
    reader_step env now s (s\<lparr>readers := us @ vs, answers := answers s @ [answer_of c (- ENOMEM) []]\<rparr>)"
| r_leave: "readers s = us @ c # vs \<Longrightarrow> rstage c = Stored \<Longrightarrow> \<not> leaving c \<Longrightarrow> \<not> mutex (device (shared s)) \<Longrightarrow>
    reader_step env now s (s\<lparr>readers := us @ c\<lparr>leaving := True\<rparr> # vs\<rparr>)"
| r_end: "readers s = us @ c # vs \<Longrightarrow> rstage c = Stored \<Longrightarrow> leaving c \<Longrightarrow> size_seen (shared s) sz \<Longrightarrow>
    read_finish (heap (shared s)) sz (buf_block c) (off_block c) (want c) (pos_at c) (got c) =
      Inr (m, p, ret, user) \<Longrightarrow>
    reader_step env now s (s\<lparr>shared := (shared s)\<lparr>heap := m\<rparr>, readers := us @ vs,
      answers := answers s @ [answer_of c ret user]\<rparr>)"

inductive_cases reader_stepE: "reader_step env now s t"

section \<open>Private blocks\<close>

text \<open>
  An address is loose if neither the device nor a writer uses it. What happens there does not
  matter to the writers, and a block in use there is left alone by them.
\<close>

definition loose :: "race \<Rightarrow> nat \<Rightarrow> bool" where
  "loose s a \<longleftrightarrow> unowned (device s) a \<and> a \<notin> set (concat (map held (calls s)))"

lemma loose_dead: "race_inv k ls s \<Longrightarrow> heap s a = None \<Longrightarrow> loose s a"
  unfolding race_inv_def loose_def using unowned_dead by blast

lemma race_inv_loose:
  assumes inv: "race_inv k ls s" and a: "loose s a"
  shows "race_inv k ls (s\<lparr>heap := (heap s)(a := x)\<rparr>)"
proof -
  note I = inv [unfolded race_inv_def]
  let ?m = "(heap s)(a := x)" and ?H = "concat (map held (calls s))"
  have u: "unowned (device s) a" and h: "a \<notin> set ?H" using a by (simp_all add: loose_def)
  have same: "\<forall>b \<in> set ?H. ?m b = heap s b" using h by auto
  have "\<forall>c \<in> set (calls s). call_ok (heap s) c" using I by blast
  then have ok: "\<forall>c \<in> set (calls s). call_ok ?m c" using same by (rule calls_ok_frame)
  have "\<forall>b \<in> set ?H. heap s b \<noteq> None \<and> unowned (device s) b" using I by blast
  then have un: "\<forall>b \<in> set ?H. ?m b \<noteq> None \<and> unowned (device s) b" using same by simp
  have di: "dev_inv ?m (device s)" by (rule dev_inv_frame [OF _ u]) (use I in blast)
  have ln: "lines ?m (device s) = lines (heap s) (device s)" by (rule lines_frame [OF u])
  show ?thesis
    using I di ln un ok unfolding race_inv_def by (intro conjI) (simp_all del: set_concat fun_upd_apply)
qed

lemma race_step_private:
  assumes inv: "race_inv k ls s" and env: "kernel_ok env" and st: "race_step env s t"
    and a: "loose s a" "heap s a \<noteq> None"
  shows "loose t a \<and> heap t a = heap s a"
  using st
proof cases
  case (enter buf m e x p)
  obtain m' e' x' p' where w: "write_prepare env (heap s) (device s) buf = Inr (m', Ref e', Ref x', p')"
      "\<forall>a \<in> set (e' # x' # addrs p'). heap s a = None \<and> m' a \<noteq> None"
      "\<forall>a. a \<notin> set (e' # x' # addrs p') \<longrightarrow> m' a = heap s a"
    by (rule write_prepare_spec [of "heap s" "device s" env buf])
      (use inv env enter(2) in \<open>auto simp: race_inv_def whole_line_def\<close>)
  have "a \<notin> set (e' # x' # addrs p')" using w(2) a(2) by auto
  moreover have "m = m'" "e = Ref e'" "x = Ref x'" "p = p'" using w(1) enter(3) by simp_all
  ultimately show ?thesis using w(3) a(1) enter(1) by (simp add: loose_def held_def)
next
  case (body us c vs m d)
  obtain d' where f: "write_body env (heap s) (device s) (bytes c) (add_block c) (data_block c) (tmp_block c) = Inr (heap s, d')"
      "\<forall>a. data_block c \<noteq> Ref a \<longrightarrow> unowned (device s) a \<longrightarrow> unowned d' a"
    by (rule write_body_spec [OF inv body(2,3)])
  have "data_block c \<noteq> Ref a" using a(1) body(2,3) by (auto simp: loose_def held_def)
  then have "unowned d a" using f a(1) body(4) by (auto simp: loose_def)
  moreover have "set (held (c\<lparr>stage := Stored\<rparr>)) \<subseteq> set (held c)" using body(3) by (auto simp: held_def)
  ultimately show ?thesis using f(1) a(1) body(1,2,4) by (auto simp: loose_def)
next
  case (end_ok us c vs m)
  have "tmp_block c \<noteq> Ref a" using a(1) end_ok(2,3) by (auto simp: loose_def held_def)
  then show ?thesis using kfree_Inr [OF end_ok(5)] a(1) end_ok(1,2) by (auto simp: loose_def)
qed (use a in \<open>auto simp: loose_def held_def\<close>)

section \<open>What the body of a read finds\<close>

text \<open>The bytes one read gets of given lines.\<close>

definition run_bytes :: "nat \<Rightarrow> u8 list list \<Rightarrow> nat \<Rightarrow> nat \<Rightarrow> u8 list" where
  "run_bytes split ls n pos = take (min n (run_left split ls pos)) (drop pos (concat ls))"

lemma run_bytes_end: "length (concat ls) \<le> pos \<Longrightarrow> run_bytes split ls n pos = []"
  by (simp add: run_bytes_def)

lemma length_run_bytes: "length (run_bytes split ls n pos) \<le> n"
  by (simp add: run_bytes_def)

text \<open>Where the wrap is, from the number of lines and the next slot to fill.\<close>

definition wrap_of :: "nat \<Rightarrow> u8 list list \<Rightarrow> nat" where
  "wrap_of i ls = (if length ls < 10 then length ls else 10 - i)"

lemma wrap_at_of:
  assumes inv: "dev_inv m d"
  shows "wrap_at (buffer d) = wrap_of (unat (in_offs (buffer d))) (lines m d)"
proof -
  note C = cb_invD [OF dev_invD(2) [OF inv]]
  have l: "length (lines m d) = (if full (buffer d) then 10 else unat (in_offs (buffer d)))"
    using length_entries [OF dev_invD(2) [OF inv]] by (simp add: length_lines MAXW_eq)
  show ?thesis
  proof (cases "full (buffer d)")
    case True
    then have "in_offs (buffer d) = out_offs (buffer d)" using dev_invD(2) [OF inv] by (simp add: cb_inv_def)
    then show ?thesis using l True by (simp add: wrap_at_def wrap_of_def MAXW_eq)
  next
    case False
    then show ?thesis using l C(2) by (simp add: wrap_at_def wrap_of_def MAXW_eq)
  qed
qed

lemma read_body_end:
  fixes pos :: u64
  assumes inv: "dev_inv m d" and pos: "unat pos < 2 ^ 63"
  shows "length (concat (lines m d)) \<le> unat pos \<longleftrightarrow> sint (total_size (buffer d)) \<le> sint pos"
proof -
  have "sint pos = int (unat pos)" using pos by (rule sint_u64_small)
  then show ?thesis by (simp only: sint_total_size [OF inv] of_nat_le_iff)
qed

lemma read_body_spec:
  assumes inv: "dev_inv m d" and al: "good_alloc (alloc env)" "total_alloc (alloc env)" and seek: "\<not> seek d"
    and tb: "m tb = Some junk" "unowned d tb" "length junk = unat n" and n: "unat n < 2 ^ 31"
    and pos: "unat pos < length (concat (lines m d))"
    and fits: "unat pos = 0 \<or> length (concat (lines m d)) < unat n \<or>
      (\<exists>r. read_body env m d (Ref tb) n pos = Inr r)"
    and sane: "findable d pos"
  defines "bs \<equiv> run_bytes (wrap_at (buffer d)) (lines m d) (unat n) (unat pos)"
  obtains ob ob' t ts where "m ob = None" and "m t = None" and "t \<noteq> ob"
    and "read_body env m d (Ref tb) n pos =
      Inr (m(ob \<mapsto> ob', t \<mapsto> ts, tb \<mapsto> blit junk 0 bs), d, Some (Ref ob, pos, of_nat (length bs)))"
proof -
  let ?ls = "lines m d" and ?w = "wrap_at (buffer d)" and ?m0 = "m(tb := None)"
  obtain i q where loc: "locate (map length ?ls) (unat pos) = Some (i, q)"
    using locate_lt pos by (metis length_concat)
  have inv0: "dev_inv ?m0 d" and ls0: "lines ?m0 d = ?ls"
    by (rule dev_inv_frame [OF inv tb(2)], rule lines_frame [OF tb(2)])
  have m0: "?m0(tb \<mapsto> junk) = m" using tb(1) by auto
  obtain ob ob' where ob: "alloc env m 8 = Some (ob, ob')" "m ob = None"
    by (rule total_allocE [OF al(2,1) dev_invD(1) [OF inv], of 8]) auto
  let ?m1 = "m(ob \<mapsto> ob')"
  have "finite (dom ?m1)" using dev_invD(1) [OF inv] by simp
  then obtain t ts where t: "alloc env ?m1 n = Some (t, ts)" "?m1 t = None"
    by (rule total_allocE [OF al(2,1) _ n])
  have ne: "m t = None" "t \<noteq> ob" "tb \<noteq> ob" "t \<noteq> tb" "?m0 ob = None" using t(2) ob(2) tb(1) by (auto split: if_splits)
  have start: "read_start ?m1 (Ref ob) (buffer d) pos = Inr ((unat (out_offs (buffer d)) + i) mod MAXW, of_nat q)"
    by (rule read_start_spec [OF inv _ loc sane]) simp
  have m1: "?m1 = ?m0(tb \<mapsto> junk, ob \<mapsto> ob')" unfolding m0 ..
  note run = read_run [OF inv0 al(1) t(1) loc [folded ls0] m1 _ ne(5,3) tb(3), unfolded ls0]
  have run: "follows_plan (aesd_circular_buffer_read_helper (alloc env) ?m1 (buffer d)
      ((unat (out_offs (buffer d)) + i) mod MAXW)
      (read_stop (buffer d) ((unat (out_offs (buffer d)) + i) mod MAXW)) (Ref tb) n (of_nat q))
    ?m1 t tb junk 0 (spec_read ?w ?ls (unat n) (unat pos))"
    by (rule run) simp
  have ds: "d\<lparr>seek := False\<rparr> = d" using seek by simp
  have body: "read_body env m d (Ref tb) n pos =
      bnd (aesd_circular_buffer_read_helper (alloc env) ?m1 (buffer d)
        ((unat (out_offs (buffer d)) + i) mod MAXW)
        (read_stop (buffer d) ((unat (out_offs (buffer d)) + i) mod MAXW)) (Ref tb) n (of_nat q))
      (\<lambda>(m, rc). Inr (m, d, Some (Ref ob, pos, rc)))"
    using sint_pos [OF inv pos] ob(1) start seek by (simp add: read_body_def Let_def ds)
  have nem: "\<forall>l \<in> set ?ls. l \<noteq> []" using line_nonempty [OF inv] by blast
  note eq = spec_read_eq [OF loc nem, of ?w "unat n"]
  have some: "spec_read ?w ?ls (unat n) (unat pos) \<noteq> None"
  proof
    assume none: "spec_read ?w ?ls (unat n) (unat pos) = None"
    then have "read_body env m d (Ref tb) n pos = Inl OutOfBounds" using run body by (simp add: follows_plan_def)
    then have f: "unat pos = 0 \<or> length (concat ?ls) < unat n" using fits by simp
    have "q = 0" if "unat pos = 0" using locate_bounds [OF loc] that by simp
    moreover have "length (?ls ! i) \<le> length (concat ?ls)"
      using locate_bounds [OF loc] member_le_sum_list [of "length (?ls ! i)" "map length ?ls"] by (simp add: length_concat)
    ultimately show False using none eq f run_left_pos [OF pos, of ?w] by (auto split: if_splits)
  qed
  then have "spec_read ?w ?ls (unat n) (unat pos) = Some bs"
    using eq by (auto simp: bs_def run_bytes_def min.commute split: if_splits)
  then obtain ts' where "read_body env m d (Ref tb) n pos =
      Inr (?m1(t \<mapsto> ts', tb \<mapsto> blit junk 0 bs), d, Some (Ref ob, pos, of_nat (length bs)))"
    using run body by (auto simp: follows_plan_def)
  then show thesis by (rule that [OF ob(2) ne(1,2)])
qed

section \<open>What the body finds from any position\<close>

text \<open>
  A seek request can leave any position. Past all slots the search finds nothing, and the code
  starts at the first slot of the array; before that it may find a slot that a flush has emptied
  without clearing its size, from which nothing is read.
\<close>

definition first_slot :: "nat \<Rightarrow> u8 list list \<Rightarrow> nat" where
  "first_slot split ls = (if split < length ls then length (concat (take split ls)) else 0)"

definition read_of :: "nat \<Rightarrow> u8 list list \<Rightarrow> nat \<Rightarrow> nat \<Rightarrow> u8 list \<Rightarrow> bool" where
  "read_of split ls n pos bs \<longleftrightarrow>
     bs = run_bytes split ls n (if pos < length (concat ls) then pos else first_slot split ls) \<or>
     length (concat ls) \<le> pos \<and> bs = []"

lemma first_slot_locate:
  assumes inv: "dev_inv m d" and ne: "lines m d \<noteq> []"
  obtains i where "locate (map length (lines m d)) (first_slot (wrap_at (buffer d)) (lines m d)) = Some (i, 0)"
    and "(unat (out_offs (buffer d)) + i) mod MAXW = 0"
proof -
  let ?ls = "lines m d" and ?w = "wrap_at (buffer d)"
  note C = cb_invD [OF dev_invD(2) [OF inv]]
  have nonempty: "?ls ! i \<noteq> []" if "i < length ?ls" for i using line_nonempty [OF inv] that by simp
  have l: "length ?ls = (if full (buffer d) then 10 else unat (in_offs (buffer d)))"
    using length_entries [OF dev_invD(2) [OF inv]] by (simp add: length_lines MAXW_eq)
  have w: "?w = (if full (buffer d) then 10 - unat (out_offs (buffer d)) else length ?ls)"
    using wrap_at_of [OF inv] l C(4) by (simp add: wrap_of_def) (use C(2) in \<open>simp add: MAXW_eq\<close>)
  show thesis
  proof (cases "?w < length ?ls")
    case True
    then have "locate (map length ?ls) (first_slot ?w ?ls) = Some (?w, 0)"
      using locate_line_start [OF True nonempty [OF True]] True by (simp add: first_slot_def)
    moreover have "(unat (out_offs (buffer d)) + ?w) mod MAXW = 0"
      using w l True C(3) by (simp add: MAXW_eq split: if_splits)
    ultimately show thesis by (rule that)
  next
    case False
    have "locate (map length ?ls) (first_slot ?w ?ls) = Some (0, 0)"
      using locate_line_start [of 0 ?ls] nonempty [of 0] ne False by (simp add: first_slot_def)
    moreover have "unat (out_offs (buffer d)) = 0"
      using False w l C(5) by (auto split: if_splits)
    then have "(unat (out_offs (buffer d)) + 0) mod MAXW = 0" by simp
    ultimately show thesis by (rule that)
  qed
qed

lemma read_start_past:
  assumes inv: "dev_inv m d" and ne: "lines m d \<noteq> []" and past: "length (concat (lines m d)) \<le> unat p"
    and bop: "block m' bo = Inr x"
  shows "read_start m' bo (buffer d) p = Inr (0, 0) \<or>
    (\<exists>i q. read_start m' bo (buffer d) p = Inr (i, q) \<and> read_stop (buffer d) i \<le> i)"
proof -
  let ?b = "buffer d"
  note C = cb_invD [OF dev_invD(2) [OF inv]]
  have "lines m d ! 0 \<noteq> []" using line_nonempty [OF inv] ne by simp
  then have "concat (lines m d) \<noteq> []" using ne by (cases "lines m d") auto
  then have "0 < length (concat (lines m d))" by blast
  then have p0: "p \<noteq> 0" using past by auto
  show ?thesis
  proof (cases "sum_list (map esize (entry ?b)) \<le> p")
    case True
    then show ?thesis using find_NULL [OF p0 True] bop p0 by (simp add: read_start_def)
  next
    case False
    obtain i q where loc: "locate (sizes (ring (entry ?b) (unat (out_offs ?b)))) (unat p) = Some (i, q)"
      by (rule find_guard_locate [OF False])
    note B = locate_bounds [OF loc]
    have nf: "\<not> full ?b"
    proof
      assume f: "full ?b"
      have "sizes (ring (entry ?b) (unat (out_offs ?b))) = map length (lines m d)"
        using entries_full [OF dev_invD(2) [OF inv] f] C(4) [OF f] sizes_lines [OF inv] by simp
      then have "unat p < length (concat (lines m d))"
        using loc locate_Some_iff by (metis length_concat)
      then show False using past by simp
    qed
    then have o: "out_offs ?b = 0" using C(5) by simp
    have r: "ring (entry ?b) 0 = entry ?b" by (simp add: ring_def)
    have i: "i < MAXW" using B C(1) o r by simp
    have "unat (in_offs ?b) \<le> i"
    proof (rule ccontr)
      assume "\<not> unat (in_offs ?b) \<le> i"
      then have i': "i < unat (in_offs ?b)" by simp
      have tk: "take (unat (in_offs ?b)) (sizes (entry ?b)) = map length (lines m d)"
        using sizes_lines [OF inv] nf by (simp add: entries_def sizes_def take_map)
      have "take (Suc i) (sizes (entry ?b)) = take (Suc i) (map length (lines m d))"
        unfolding tk [symmetric] using i' by (simp add: min_absorb1)
      moreover have "sum_list (take (Suc i) xs) \<le> sum_list xs" for xs :: "nat list"
        by (metis append_take_drop_id le_add1 sum_list_append)
      ultimately have "sum_list (take (Suc i) (sizes (entry ?b))) \<le> sum_list (map length (lines m d))" by simp
      moreover have "unat p < sum_list (take (Suc i) (sizes (entry ?b)))"
        using B o r by (auto simp: take_Suc_conv_app_nth sizes_def)
      ultimately show False using past by (simp add: length_concat)
    qed
    moreover have "List.find (\<lambda>j. j = i) [0..<MAXW] = Some i"
      using i by (simp add: find_Some_iff MAXW_eq) (rule exI [of _ i], simp)
    then have "read_start m' bo ?b p = Inr (i, of_nat q)"
      using find_locate [OF C(1,3) p0 False loc] bop p0 i o by (simp add: read_start_def)
    ultimately show ?thesis using nf by (simp add: read_stop_def)
  qed
qed

text \<open>The body with a block for the position, from whatever position it starts.\<close>

lemma read_body_from:
  assumes "\<not> sint (total_size (buffer d)) \<le> sint pos" and "kmalloc (alloc env) m 8 = (m1, bo)"
    and "p = (if seek d then seekto_position d else pos)"
  shows "read_body env m d tb n pos = bnd (read_start m1 bo (buffer d) p) (\<lambda>(i, off).
    bnd (aesd_circular_buffer_read_helper (alloc env) m1 (buffer d) i (read_stop (buffer d) i) tb n off) (\<lambda>(m, rc).
      Inr (m, d\<lparr>seek := False\<rparr>, Some (bo, p, rc))))"
  using assms by (simp add: read_body_def Let_def)

text \<open>The first slot is found whatever the others show: only a full ring has it at a position other than 0.\<close>

lemma first_slot_findable:
  assumes inv: "dev_inv m d"
  shows "findable d (of_nat (first_slot (wrap_at (buffer d)) (lines m d)))"
proof (cases "full (buffer d)")
  case True
  then show ?thesis using full_slots_sane [OF inv] by simp
next
  case False
  then have "wrap_at (buffer d) = length (lines m d)"
    using dev_invD(2) [OF inv] by (simp add: wrap_at_def length_lines length_entries)
  then show ?thesis by (simp add: first_slot_def)
qed

text \<open>A position that is not found: the copying starts at slot 0, as for the first byte that lies there.\<close>

lemma read_body_first:
  assumes inv: "dev_inv m d" and ne: "lines m d \<noteq> []" and lt: "\<not> sint (total_size (buffer d)) \<le> sint pos"
    and k: "kmalloc (alloc env) m 8 = (m1, bo)" "block m1 bo = Inr ob'"
    and p: "p = (if seek d then seekto_position d else pos)" and rs: "read_start m1 bo (buffer d) p = Inr (0, 0)"
  defines "q \<equiv> of_nat (first_slot (wrap_at (buffer d)) (lines m d)) :: u64"
  obtains h where "unat q = first_slot (wrap_at (buffer d)) (lines m d)" and "unat q < length (concat (lines m d))"
    and "read_body env m d tb n pos = bnd h (\<lambda>(m, rc). Inr (m, d\<lparr>seek := False\<rparr>, Some (bo, p, rc)))"
    and "read_body env m (d\<lparr>seek := False\<rparr>) tb n q = bnd h (\<lambda>(m, rc). Inr (m, d\<lparr>seek := False\<rparr>, Some (bo, q, rc)))"
proof -
  let ?ls = "lines m d" and ?w = "wrap_at (buffer d)" and ?d = "d\<lparr>seek := False\<rparr>"
  obtain i where loc: "locate (map length ?ls) (first_slot ?w ?ls) = Some (i, 0)" "(unat (out_offs (buffer d)) + i) mod MAXW = 0"
    by (rule first_slot_locate [OF inv ne])
  have fs: "first_slot ?w ?ls < length (concat ?ls)" using loc(1) locate_Some_iff by (metis length_concat)
  then have uq: "unat q = first_slot ?w ?ls" unfolding q_def using content_small [OF inv] by (intro unat_of_nat_u64) simp
  then have q: "unat q < length (concat ?ls)" using fs by simp
  have 0: "read_start m1 bo (buffer d) q = Inr (0, 0)"
    using read_start_spec [OF inv k(2), of q i 0] loc uq first_slot_findable [OF inv, folded q_def] by simp
  have "\<not> sint (total_size (buffer ?d)) \<le> sint q" using sint_pos [OF inv q] by simp
  from read_body_from [OF this k(1) refl] read_body_from [OF lt k(1) p] show thesis
    by (intro that [OF uq q]) (simp_all add: rs 0)
qed

lemma read_body_any:
  assumes inv: "dev_inv m d" and al: "good_alloc (alloc env)" "total_alloc (alloc env)"
    and tb: "m tb = Some junk" "unowned d tb" "length junk = unat n" and n: "unat n < 2 ^ 31"
    and pos: "unat pos < 2 ^ 63" and sane: "slots_sane (buffer d)"
    and r: "read_body env m d (Ref tb) n pos = Inr (m', d', Some (o', p, rc))"
  obtains ob ob' t ts bs where "m ob = None" and "m t = None" and "t \<noteq> ob" and "o' = Ref ob"
    and "m' = m(ob \<mapsto> ob', t \<mapsto> ts, tb \<mapsto> blit junk 0 bs)" and "d' = d\<lparr>seek := False\<rparr>"
    and "rc = of_nat (length bs)" and "length bs \<le> unat n"
    and "read_of (wrap_at (buffer d)) (lines m d) (unat n) (unat p) bs"
    and "seek d \<or> unat p < length (concat (lines m d))"
proof -
  note out = that
  let ?ls = "lines m d" and ?w = "wrap_at (buffer d)" and ?d = "d\<lparr>seek := False\<rparr>"
  let ?p = "if seek d then seekto_position d else pos"
  have lt: "\<not> sint (total_size (buffer d)) \<le> sint pos" using r by (auto simp: read_body_def)
  then have more: "unat pos < length (concat ?ls)" using read_body_end [OF inv pos] by simp
  obtain ob ob' where ob: "alloc env m 8 = Some (ob, ob')" "m ob = None"
    by (rule total_allocE [OF al(2,1) dev_invD(1) [OF inv], of 8]) auto
  let ?m1 = "m(ob \<mapsto> ob')"
  have k: "kmalloc (alloc env) m 8 = (?m1, Ref ob)" using ob(1) by simp
  have ne: "tb \<noteq> ob" using ob(2) tb(1) by auto
  note body = read_body_from [OF lt k refl, of "Ref tb" n]
  have p: "p = ?p" "d' = ?d" "o' = Ref ob" using r unfolding body by (auto split: if_splits)
  have inv0: "dev_inv m ?d" using inv by simp
  have use_spec: thesis
    if q: "unat q < length (concat ?ls)" and same: "read_body env m ?d (Ref tb) n q = Inr (m', ?d, Some (o', q, rc))"
      and rd: "unat p = unat q \<or> length (concat ?ls) \<le> unat p \<and> unat q = first_slot ?w ?ls" for q
  proof -
    let ?bs = "run_bytes ?w ?ls (unat n) (unat q)"
    have fits: "unat q = 0 \<or> length (concat (lines m ?d)) < unat n \<or> (\<exists>r. read_body env m ?d (Ref tb) n q = Inr r)"
      using same by blast
    have pl: "\<not> seek ?d" "unowned ?d tb" "unat q < length (concat (lines m ?d))" using tb(2) q by simp_all
    obtain oa oa' t ts where o: "m oa = None" "m t = None" "t \<noteq> oa"
      "read_body env m ?d (Ref tb) n q = Inr (m(oa \<mapsto> oa', t \<mapsto> ts, tb \<mapsto> blit junk 0 ?bs), ?d, Some (Ref oa, q, of_nat (length ?bs)))"
      by (rule read_body_spec [OF inv0 al pl(1) tb(1) pl(2) tb(3) n pl(3) fits]) (use sane in simp_all)
    have "m' = m(oa \<mapsto> oa', t \<mapsto> ts, tb \<mapsto> blit junk 0 ?bs)" "o' = Ref oa" "rc = of_nat (length ?bs)"
      using same o(4) by (auto simp del: fun_upd_apply)
    moreover have "read_of ?w ?ls (unat n) (unat p) ?bs" using rd q by (auto simp: read_of_def)
    moreover have "seek d \<or> unat p < length (concat ?ls)" using p(1) more by auto
    ultimately show thesis using out [OF o(1-3)] p(2) length_run_bytes by blast
  qed
  show thesis
  proof (cases "unat ?p < length (concat ?ls)")
    case True
    have "\<not> sint (total_size (buffer ?d)) \<le> sint ?p" using sint_pos [OF inv True] by simp
    from read_body_from [OF this k refl] have "read_body env m ?d (Ref tb) n ?p = read_body env m d (Ref tb) n pos"
      unfolding body by simp
    then show thesis using use_spec [OF True] r p by simp
  next
    case False
    then have past: "length (concat ?ls) \<le> unat ?p" by simp
    have nel: "?ls \<noteq> []" using more by auto
    have bl: "block ?m1 (Ref ob) = Inr ob'" by simp
    consider "read_start ?m1 (Ref ob) (buffer d) ?p = Inr (0, 0)"
      | i q where "read_start ?m1 (Ref ob) (buffer d) ?p = Inr (i, q)" "read_stop (buffer d) i \<le> i"
      using read_start_past [OF inv nel past bl] by blast
    then show thesis
    proof cases
      case 1
      obtain h where h: "unat (of_nat (first_slot ?w ?ls) :: u64) = first_slot ?w ?ls"
          "unat (of_nat (first_slot ?w ?ls) :: u64) < length (concat ?ls)"
          "read_body env m d (Ref tb) n pos = bnd h (\<lambda>(m, rc). Inr (m, ?d, Some (Ref ob, ?p, rc)))"
          "read_body env m ?d (Ref tb) n (of_nat (first_slot ?w ?ls)) =
            bnd h (\<lambda>(m, rc). Inr (m, ?d, Some (Ref ob, of_nat (first_slot ?w ?ls), rc)))"
        by (rule read_body_first [OF inv nel lt k bl refl 1])
      have "read_body env m ?d (Ref tb) n (of_nat (first_slot ?w ?ls)) =
          Inr (m', ?d, Some (o', of_nat (first_slot ?w ?ls), rc))"
        using r p(3) unfolding h(3,4) by auto
      then show thesis using use_spec [OF h(2)] h(1) past p(1) by simp
    next
      case 2
      have fin: "finite (dom ?m1)" using dev_invD(1) [OF inv] by simp
      obtain t ts where t: "alloc env ?m1 n = Some (t, ts)" "?m1 t = None"
        by (rule total_allocE [OF al(2,1) fin n])
      have h: "aesd_circular_buffer_read_helper (alloc env) ?m1 (buffer d) i (read_stop (buffer d) i) (Ref tb) n q = Inr (?m1(t \<mapsto> ts), 0)"
        using 2(2) t(1) by (simp add: aesd_circular_buffer_read_helper_def read_entries_stop)
      have m: "m' = ?m1(t \<mapsto> ts)" "rc = 0" using r 2(1) h unfolding body by (auto simp del: fun_upd_apply)
      have n: "m t = None" "t \<noteq> ob" "t \<noteq> tb" using t(2) ob(2) tb(1) by (auto split: if_splits)
      have m2: "?m1(t \<mapsto> ts, tb \<mapsto> blit junk 0 []) = ?m1(t \<mapsto> ts)"
        using n(3) ne tb(1) by (auto simp: fun_eq_iff blit_def)
      show thesis
      proof (rule out [of ob t ob' ts "[]", OF ob(2) n(1,2) p(3)])
        show "read_of ?w ?ls (unat n) (unat p) []" using past p(1) by (simp add: read_of_def)
        show "m' = m(ob \<mapsto> ob', t \<mapsto> ts, tb \<mapsto> blit junk 0 [])" unfolding m2 m(1) ..
        show "seek d \<or> unat p < length (concat ?ls)" using p(1) more by auto
      qed (use p(2) m(2) in simp_all)
    qed
  qed
qed

text \<open>A request for a position past every slot: the read gets the lines from slot 0 on.\<close>

lemma read_body_past:
  assumes inv: "dev_inv m d" and al: "good_alloc (alloc env)" "total_alloc (alloc env)" and sk: "seek d"
    and tb: "m tb = Some junk" "unowned d tb" "length junk = unat n" and n: "unat n < 2 ^ 31"
    and pos: "unat pos < length (concat (lines m d))" and big: "length (concat (lines m d)) < unat n"
    and past: "sum_list (map esize (entry (buffer d))) \<le> seekto_position d" "seekto_position d \<noteq> 0"
  defines "bs \<equiv> run_bytes (wrap_at (buffer d)) (lines m d) (unat n) (first_slot (wrap_at (buffer d)) (lines m d))"
  obtains ob ob' t ts where "m ob = None" and "m t = None" and "t \<noteq> ob" and "bs \<noteq> []"
    and "read_body env m d (Ref tb) n pos = Inr (m(ob \<mapsto> ob', t \<mapsto> ts, tb \<mapsto> blit junk 0 bs),
      d\<lparr>seek := False\<rparr>, Some (Ref ob, seekto_position d, of_nat (length bs)))"
proof -
  let ?q = "of_nat (first_slot (wrap_at (buffer d)) (lines m d)) :: u64" and ?d = "d\<lparr>seek := False\<rparr>"
  have ne: "lines m d \<noteq> []" using pos by auto
  obtain ob ob' where ob: "alloc env m 8 = Some (ob, ob')" "m ob = None"
    by (rule total_allocE [OF al(2,1) dev_invD(1) [OF inv], of 8]) auto
  let ?m1 = "m(ob \<mapsto> ob')"
  have k: "kmalloc (alloc env) m 8 = (?m1, Ref ob)" "block ?m1 (Ref ob) = Inr ob'" using ob(1) by simp_all
  have lt: "\<not> sint (total_size (buffer d)) \<le> sint pos" using sint_pos [OF inv pos] by simp
  have p: "seekto_position d = (if seek d then seekto_position d else pos)" using sk by simp
  have "read_start ?m1 (Ref ob) (buffer d) (seekto_position d) = Inr (0, 0)"
    using find_NULL [OF past(2,1)] past(2) by (simp add: read_start_def)
  then obtain h where h: "unat ?q = first_slot (wrap_at (buffer d)) (lines m d)" "unat ?q < length (concat (lines m d))"
      "read_body env m d (Ref tb) n pos = bnd h (\<lambda>(m, rc). Inr (m, ?d, Some (Ref ob, seekto_position d, rc)))"
      "read_body env m ?d (Ref tb) n ?q = bnd h (\<lambda>(m, rc). Inr (m, ?d, Some (Ref ob, ?q, rc)))"
    by (rule read_body_first [OF inv ne lt k p])
  have d: "dev_inv m ?d" "\<not> seek ?d" "unowned ?d tb" "unat ?q < length (concat (lines m ?d))"
      "unat ?q = 0 \<or> length (concat (lines m ?d)) < unat n \<or> (\<exists>r. read_body env m ?d (Ref tb) n ?q = Inr r)"
    using inv tb(2) h(2) big by simp_all
  obtain oa oa' t ts where o: "m oa = None" "m t = None" "t \<noteq> oa"
      "read_body env m ?d (Ref tb) n ?q = Inr (m(oa \<mapsto> oa', t \<mapsto> ts, tb \<mapsto> blit junk 0 bs), ?d,
      Some (Ref oa, ?q, of_nat (length bs)))"
    by (rule read_body_spec [OF d(1) al d(2) tb(1) d(3) tb(3) n d(4,5)])
      (use first_slot_findable [OF inv] in \<open>simp_all add: h(1) bs_def\<close>)
  moreover have "bs \<noteq> []"
    using run_left_pos [of "unat ?q" "lines m d" "wrap_at (buffer d)"] h(1,2) big by (simp add: bs_def run_bytes_def)
  moreover have "read_body env m d (Ref tb) n pos = Inr (m(oa \<mapsto> oa', t \<mapsto> ts, tb \<mapsto> blit junk 0 bs), ?d,
      Some (Ref oa, seekto_position d, of_nat (length bs)))"
    using o(4) unfolding h(3,4) by (auto simp del: fun_upd_apply)
  ultimately show thesis using that [OF o(1-3)] by blast
qed

section \<open>The shared part at rest between steps\<close>

text \<open>The invariant of the writers without the lines held, which the larger system accounts for.\<close>

definition calm :: "nat \<Rightarrow> race \<Rightarrow> bool" where
  "calm k s \<longleftrightarrow> dev_inv (heap s) (device s) \<and> \<not> partial (device s) \<and> slots_sane (buffer (device s)) \<and>
     (\<forall>c \<in> set (calls s). call_ok (heap s) c) \<and>
     distinct (concat (map held (calls s))) \<and>
     (\<forall>a \<in> set (concat (map held (calls s))). heap s a \<noteq> None \<and> unowned (device s) a) \<and>
     length (filter (\<lambda>c. stage c = Locked) (calls s)) + k = (if mutex (device s) then 1 else 0)"

lemma race_inv_calm: "race_inv k ls s \<longleftrightarrow> calm k s \<and> lines (heap s) (device s) = lastn MAXW (ls @ stored_bytes s)"
  by (simp only: race_inv_def calm_def conj_assoc)

lemma calm_dev: "calm k s \<Longrightarrow> dev_inv (heap s) (device s)"
  by (simp add: calm_def)

lemma calm_race:
  assumes "calm k s"
  shows "race_inv k (lines (heap s) (device s)) (s\<lparr>stored_bytes := []\<rparr>)"
  using assms length_entries_le [OF dev_invD(2) [OF calm_dev [OF assms]]]
  by (simp add: race_inv_def calm_def lastn_short length_lines)

lemma loose_stored [simp]: "loose (s\<lparr>stored_bytes := x\<rparr>) a = loose s a"
  by (simp add: loose_def)

lemma calm_stored [simp]: "calm k (s\<lparr>stored_bytes := x\<rparr>) = calm k s"
  by (simp add: calm_def)

lemma calm_loose:
  assumes c: "calm k s" and a: "loose s a"
  shows "calm k (s\<lparr>heap := (heap s)(a := x)\<rparr>)"
    and "lines ((heap s)(a := x)) (device s) = lines (heap s) (device s)"
proof -
  have a': "loose (s\<lparr>stored_bytes := []\<rparr>) a" using a by simp
  have "calm k (s\<lparr>stored_bytes := [], heap := (heap (s\<lparr>stored_bytes := []\<rparr>))(a := x)\<rparr>)"
    using race_inv_loose [OF calm_race [OF c] a'] unfolding race_inv_calm by blast
  then show "calm k (s\<lparr>heap := (heap s)(a := x)\<rparr>)" by (simp add: calm_def)
  show "lines ((heap s)(a := x)) (device s) = lines (heap s) (device s)"
    using a by (intro lines_frame) (simp add: loose_def)
qed

lemma calm_dead: "calm k s \<Longrightarrow> heap s a = None \<Longrightarrow> loose s a"
  using loose_dead [OF calm_race] by fastforce

lemma calm_take: "calm k s \<Longrightarrow> \<not> mutex (device s) \<Longrightarrow> calm (Suc k) (s\<lparr>device := (device s)\<lparr>mutex := True\<rparr>\<rparr>)"
  by (simp add: calm_def)

lemma calm_give: "calm (Suc k) s \<Longrightarrow> calm k (s\<lparr>device := (device s)\<lparr>seek := x, mutex := False\<rparr>\<rparr>)"
  by (simp add: calm_def split: if_splits)

lemma calm_holder: "calm (Suc k) s \<Longrightarrow> mutex (device s)"
  by (simp add: calm_def split: if_splits)

section \<open>What readers rely on\<close>

text \<open>
  The larger system says what a read may find: \<open>tells j n p bs\<close> that \<open>n\<close> bytes at \<open>p\<close> were \<open>bs\<close>
  at time \<open>j\<close>, and \<open>low j\<close> a bound below the sizes that could be seen then. First the blocks of a read, and what holds of it.
\<close>

type_synonym tells = "nat \<Rightarrow> nat \<Rightarrow> nat \<Rightarrow> u8 list \<Rightarrow> bool"

definition rheld :: "rcall \<Rightarrow> nat list" where
  "rheld c = addrs (buf_block c) @ (if rstage c = Stored then addrs (off_block c) else [])"

definition rcall_ok :: "tells \<Rightarrow> nat \<Rightarrow> race \<Rightarrow> rcall \<Rightarrow> bool" where
  "rcall_ok tells now r c \<longleftrightarrow> unat (want c) < 2 ^ 31 \<and> (rstage c \<noteq> Stored \<longrightarrow> unat (pos_at c) < 2 ^ 63) \<and> since c \<le> now \<and>
     (\<exists>a bs. buf_block c = Ref a \<and> heap r a = Some bs \<and> length bs = unat (want c) \<and>
       (rstage c = Stored \<longrightarrow> (\<exists>o'. off_block c = Ref o') \<and> since c \<le> seen c \<and> seen c \<le> now \<and>
         (\<exists>xs rest. bs = xs @ rest \<and> got c = of_nat (length xs) \<and> tells (seen c) (unat (want c)) (unat (pos_at c)) xs)))"

definition readers_ok :: "tells \<Rightarrow> nat \<Rightarrow> race \<Rightarrow> rcall list \<Rightarrow> bool" where
  "readers_ok tells now r rs \<longleftrightarrow> (\<forall>c \<in> set rs. rcall_ok tells now r c) \<and> distinct (concat (map rheld rs)) \<and>
     (\<forall>a \<in> set (concat (map rheld rs)). loose r a \<and> heap r a \<noteq> None)"

text \<open>
  What an answer says: an error, or what there was at some time between the call's start and its
  return, or 0 because the size it saw when it looked again was not above its position.
\<close>

definition answered :: "tells \<Rightarrow> (nat \<Rightarrow> nat) \<Rightarrow> nat \<Rightarrow> answer \<Rightarrow> bool" where
  "answered tells low now a \<longleftrightarrow> a_ret a = - ENOMEM \<or> a_since a \<le> a_seen a \<and> a_seen a \<le> now \<and>
     ((\<exists>bs rest. tells (a_seen a) (unat (a_want a)) (unat (a_pos a)) bs \<and> a_ret a = int (length bs) \<and> a_user a = bs @ rest) \<or>
      a_ret a = 0 \<and> (\<exists>j. a_seen a \<le> j \<and> j \<le> now \<and> low j \<le> unat (a_pos a)))"

definition locked_readers :: "rcall list \<Rightarrow> nat" where
  "locked_readers rs = length (filter (\<lambda>c. rstage c = Locked) rs)"

definition reading :: "tells \<Rightarrow> (nat \<Rightarrow> nat) \<Rightarrow> nat \<Rightarrow> 'z crowd_scheme \<Rightarrow> bool" where
  "reading tells low now s \<longleftrightarrow> calm (locked_readers (readers s)) (shared s) \<and>
     readers_ok tells now (shared s) (readers s) \<and> (\<forall>a \<in> set (answers s). answered tells low now a)"

text \<open>
  The least size a call can see: that without the oldest of ten lines, when a writer is between
  the two assignments.
\<close>

definition low_of :: "u8 list list \<Rightarrow> nat" where
  "low_of ls = (if length ls < 10 then length (concat ls) else length (concat (tl ls)))"

lemma low_of_le: "low_of ls \<le> length (concat ls)"
  by (cases ls) (simp_all add: low_of_def)

lemma size_between_lines:
  assumes inv: "dev_inv m d" and f: "full (buffer d)"
  shows "unat (size_between (buffer d)) = length (concat (tl (lines m d)))" and "length (lines m d) = 10"
proof -
  let ?b = "buffer d" and ?ls = "lines m d"
  have len: "length (entries ?b) = 10" using length_entries [OF dev_invD(2) [OF inv]] f by (simp add: MAXW_eq)
  then show l: "length ?ls = 10" by (simp add: length_lines)
  have "in_offs ?b = out_offs ?b" using dev_invD(2) [OF inv] f by (simp add: cb_inv_def)
  then have "entry ?b ! unat (in_offs ?b) = entries ?b ! 0"
    using nth_entries [OF dev_invD(2) [OF inv], of 0] len cb_invD(3) [OF dev_invD(2) [OF inv]] by simp
  moreover have "sizes (entries ?b) ! 0 = length (?ls ! 0)"
    unfolding sizes_lines [OF inv] using l by (intro nth_map) simp
  ultimately have h: "unat (esize (entry ?b ! unat (in_offs ?b))) = length (hd ?ls)"
    using len l by (cases "entries ?b"; cases ?ls) (simp_all add: sizes_def)
  have c: "length (concat ?ls) = length (hd ?ls) + length (concat (tl ?ls))"
    using l by (cases ?ls) simp_all
  then have "esize (entry ?b ! unat (in_offs ?b)) \<le> total_size ?b"
    using h total_size_lines [OF inv] by (simp add: word_le_nat_alt)
  then show "unat (size_between ?b) = length (concat (tl ?ls))"
    using h c total_size_lines [OF inv] by (simp add: size_between_def unat_sub)
qed

lemma size_seen_bounds:
  assumes inv: "dev_inv (heap r) (device r)" and x: "size_seen r x"
  shows "low_of (lines (heap r) (device r)) \<le> unat x" and "unat x \<le> length (concat (lines (heap r) (device r)))"
proof -
  let ?ls = "lines (heap r) (device r)"
  have tl: "length (concat (tl ?ls)) \<le> length (concat ?ls)" by (cases ?ls) simp_all
  from x consider "unat x = length (concat ?ls)" | "unat x = length (concat (tl ?ls))" "length ?ls = 10"
    unfolding size_seen_def using total_size_lines [OF inv] size_between_lines [OF inv] by blast
  then show "low_of ?ls \<le> unat x" "unat x \<le> length (concat ?ls)"
    using low_of_le [of ?ls] tl by (cases; simp add: low_of_def)+
qed

text \<open>That it says the truth about the present.\<close>

definition truthful :: "tells \<Rightarrow> (nat \<Rightarrow> nat) \<Rightarrow> nat \<Rightarrow> race \<Rightarrow> bool" where
  "truthful tells low now r \<longleftrightarrow> low now = low_of (lines (heap r) (device r)) \<and>
     (\<forall>n p bs. (seek (device r) \<or> p < length (concat (lines (heap r) (device r)))) \<longrightarrow>
       read_of (wrap_at (buffer (device r))) (lines (heap r) (device r)) n p bs \<longrightarrow> tells now n p bs)"

text \<open>What the steps of readers leave as it is.\<close>

definition undisturbed :: "race \<Rightarrow> race \<Rightarrow> bool" where
  "undisturbed r r' \<longleftrightarrow> calls r' = calls r \<and> returned r' = returned r \<and> stored_bytes r' = stored_bytes r \<and>
     lines (heap r') (device r') = lines (heap r) (device r) \<and> buffer (device r') = buffer (device r) \<and>
     (seek (device r') \<longrightarrow> seek (device r))"

section \<open>How the parts of the invariant are kept\<close>

lemma readers_ok_later:
  assumes ok: "readers_ok tells now r rs" and now: "now \<le> now'" and same: "\<forall>j \<le> now. tells' j = tells j"
    and blocks: "\<forall>a \<in> set (concat (map rheld rs)). loose r' a \<and> heap r' a = heap r a"
  shows "readers_ok tells' now' r' rs"
proof -
  have "rcall_ok tells' now' r' c" if c: "c \<in> set rs" for c
  proof -
    have k: "rcall_ok tells now r c" using ok c by (simp add: readers_ok_def)
    then obtain a where a: "buf_block c = Ref a" by (auto simp: rcall_ok_def)
    then have "a \<in> set (rheld c)" by (simp add: rheld_def)
    then have "a \<in> set (concat (map rheld rs))" using c by auto
    then have "heap r' a = heap r a" using blocks by blast
    then show ?thesis using k a same now unfolding rcall_ok_def by fastforce
  qed
  then show ?thesis using ok blocks unfolding readers_ok_def by metis
qed

lemma readers_ok_leave:
  assumes "readers_ok tells now r (us @ c # vs)"
  shows "readers_ok tells now r (us @ vs)" and "rcall_ok tells now r c" and "distinct (rheld c)"
    and "\<forall>a \<in> set (rheld c). loose r a \<and> heap r a \<noteq> None"
    and "set (rheld c) \<inter> set (concat (map rheld (us @ vs))) = {}"
  using assms by (auto simp: readers_ok_def)

lemma readers_ok_put:
  assumes "readers_ok tells now r (us @ vs)" and "rcall_ok tells now r c" and "distinct (rheld c)"
    and "\<forall>a \<in> set (rheld c). loose r a \<and> heap r a \<noteq> None"
    and "set (rheld c) \<inter> set (concat (map rheld (us @ vs))) = {}"
  shows "readers_ok tells now r (us @ c # vs)"
  using assms by (auto simp: readers_ok_def)

text \<open>A change of a block no remaining reader has, and of what readers do not look at.\<close>

lemma loose_heap [simp]: "loose (r\<lparr>heap := m\<rparr>) a = loose r a"
  by (simp add: loose_def)

lemma loose_device [simp]:
  "loose (r\<lparr>device := d\<lparr>mutex := x\<rparr>\<rparr>) a = loose (r\<lparr>device := d\<rparr>) a"
  "loose (r\<lparr>device := d\<lparr>seek := x\<rparr>\<rparr>) a = loose (r\<lparr>device := d\<rparr>) a"
  by (simp_all add: loose_def)

lemma readers_ok_other:
  assumes ok: "readers_ok tells now r rs" and m: "\<forall>a \<in> set (concat (map rheld rs)). m a = heap r a"
  shows "readers_ok tells now (r\<lparr>heap := m\<rparr>) rs"
  by (rule readers_ok_later [OF ok order_refl]) (use ok m in \<open>simp_all add: readers_ok_def\<close>)

lemma readers_ok_device:
  assumes ok: "readers_ok tells now r rs"
  shows "readers_ok tells now (r\<lparr>device := (device r)\<lparr>mutex := x\<rparr>\<rparr>) rs"
    and "readers_ok tells now (r\<lparr>device := (device r)\<lparr>seek := y, mutex := x\<rparr>\<rparr>) rs"
  by (rule readers_ok_later [OF ok order_refl]; use ok in \<open>simp add: readers_ok_def\<close>)+

lemma rcall_ok_stage: "rstage c \<noteq> Stored \<Longrightarrow> g \<noteq> Stored \<Longrightarrow> rcall_ok tells now r (c\<lparr>rstage := g\<rparr>) = rcall_ok tells now r c"
  by (auto simp: rcall_ok_def)

lemma readers_ok_stage:
  "readers_ok tells now r (us @ c # vs) \<Longrightarrow> rstage c \<noteq> Stored \<Longrightarrow> g \<noteq> Stored \<Longrightarrow>
    readers_ok tells now r (us @ c\<lparr>rstage := g\<rparr> # vs)"
  by (simp add: readers_ok_def rcall_ok_stage rheld_def)

lemma answered_later:
  assumes a: "answered tells low now a" and now: "now \<le> now'" and same: "\<forall>j \<le> now. tells' j = tells j \<and> low' j = low j"
  shows "answered tells' low' now' a"
proof -
  consider "a_ret a = - ENOMEM"
    | bs rest where "a_since a \<le> a_seen a" "a_seen a \<le> now" "tells (a_seen a) (unat (a_want a)) (unat (a_pos a)) bs"
        "a_ret a = int (length bs)" "a_user a = bs @ rest"
    | j where "a_since a \<le> a_seen a" "a_ret a = 0" "a_seen a \<le> j" "j \<le> now" "low j \<le> unat (a_pos a)"
    using a unfolding answered_def by blast
  then show ?thesis
  proof cases
    case 2
    then show ?thesis using same now unfolding answered_def by (metis order_trans)
  next
    case 3
    then have "a_seen a \<le> now'" "j \<le> now'" "low' j \<le> unat (a_pos a)" using same now by simp_all
    then show ?thesis using 3 unfolding answered_def by blast
  qed (simp add: answered_def)
qed

lemma reading_start:
  "calm 0 (shared s) \<Longrightarrow> readers s = [] \<Longrightarrow> answers s = [] \<Longrightarrow> reading tells low now s"
  by (simp add: reading_def locked_readers_def readers_ok_def)

text \<open>Steps of others that leave the readers' blocks alone.\<close>

lemma reading_shared:
  assumes s: "reading tells low now s" and now: "now \<le> now'" and same: "\<forall>j \<le> now. tells' j = tells j \<and> low' j = low j"
    and calm: "calm (locked_readers (readers s)) r"
    and blocks: "\<forall>a. loose (shared s) a \<longrightarrow> heap (shared s) a \<noteq> None \<longrightarrow> loose r a \<and> heap r a = heap (shared s) a"
    and t: "shared t = r" "readers t = readers s" "answers t = answers s"
  shows "reading tells' low' now' t"
proof -
  have ok: "readers_ok tells now (shared s) (readers s)" using s by (simp add: reading_def)
  have "readers_ok tells' now' r (readers s)"
    by (rule readers_ok_later [OF ok now]) (use same blocks ok in \<open>simp, unfold readers_ok_def, blast\<close>)
  moreover have "\<forall>a \<in> set (answers s). answered tells' low' now' a"
    using s answered_later [OF _ now same] by (simp add: reading_def)
  ultimately show ?thesis using calm by (simp add: reading_def t)
qed

section \<open>The steps of a reader\<close>

text \<open>Taking a call out, and moving it on.\<close>

lemma reading_leave:
  assumes s: "reading tells low now s" and c: "readers s = us @ c # vs" "rstage c \<noteq> Locked"
    and a: "answered tells low now a"
  shows "reading tells low now (s\<lparr>readers := us @ vs, answers := answers s @ [a]\<rparr>)"
  using s a readers_ok_leave(1) [of tells now "shared s" us c vs] c
  by (simp add: reading_def locked_readers_def)

lemma reading_busy:
  "reading tells low now s \<Longrightarrow> readers s = us @ c # vs \<Longrightarrow> rstage c \<noteq> Locked \<Longrightarrow>
    reading tells low now (s\<lparr>readers := us @ vs, answers := answers s @ [answer_of c (- ENOMEM) []]\<rparr>)"
  by (rule reading_leave) (simp_all add: answered_def answer_of_def)

lemma rcall_leaving [simp]:
  "rcall_ok tells now r (c\<lparr>leaving := x\<rparr>) = rcall_ok tells now r c" "rheld (c\<lparr>leaving := x\<rparr>) = rheld c"
  by (simp_all add: rcall_ok_def rheld_def)

lemma reading_leaving:
  "reading tells low now s \<Longrightarrow> readers s = us @ c # vs \<Longrightarrow> reading tells low now (s\<lparr>readers := us @ c\<lparr>leaving := True\<rparr> # vs\<rparr>)"
  by (cases "rstage c = Locked") (simp_all add: reading_def locked_readers_def readers_ok_def)

lemma reading_pass:
  assumes s: "reading tells low now s" and c: "readers s = us @ c # vs" "rstage c = Prepared"
  shows "reading tells low now (s\<lparr>readers := us @ c\<lparr>rstage := Unlocked\<rparr> # vs\<rparr>)"
  using s c readers_ok_stage [of tells now "shared s" us c vs Unlocked]
  by (simp add: reading_def locked_readers_def)

lemma reading_lock:
  assumes s: "reading tells low now s" and c: "readers s = us @ c # vs" "rstage c = Unlocked"
    and free: "\<not> mutex (device (shared s))"
  shows "reading tells low now (s\<lparr>shared := (shared s)\<lparr>device := (device (shared s))\<lparr>mutex := True\<rparr>\<rparr>,
    readers := us @ c\<lparr>rstage := Locked\<rparr> # vs\<rparr>)"
proof -
  have l: "locked_readers (us @ c\<lparr>rstage := Locked\<rparr> # vs) = Suc (locked_readers (readers s))"
    using c by (simp add: locked_readers_def)
  have "readers_ok tells now (shared s) (us @ c\<lparr>rstage := Locked\<rparr> # vs)"
    using s c readers_ok_stage [of tells now "shared s" us c vs Locked] by (simp add: reading_def)
  then show ?thesis
    using s calm_take [OF _ free] readers_ok_device by (simp add: reading_def l)
qed

lemma reading_enter:
  assumes env: "kernel_ok env" and s: "reading tells low now s" and n: "unat n < 2 ^ 31" "unat pos < 2 ^ 63"
    and k: "kmalloc (alloc env) (heap (shared s)) n = (m, p)"
  shows "reading tells low now (s\<lparr>shared := (shared s)\<lparr>heap := m\<rparr>, readers := readers s @
      [\<lparr>want = n, pos_at = pos, buf_block = p, off_block = Null, got = 0, rstage = Prepared,
        leaving = False, since = now, seen = 0\<rparr>]\<rparr>)" (is "reading _ _ _ (s\<lparr>shared := _, readers := _ @ [?c]\<rparr>)")
    and "lines m (device (shared s)) = lines (heap (shared s)) (device (shared s))"
proof -
  let ?r = "shared s" and ?l = "locked_readers (readers s)"
  have I: "calm ?l ?r" "readers_ok tells now ?r (readers s)" using s by (simp_all add: reading_def)
  have al: "good_alloc (alloc env)" "total_alloc (alloc env)" using env by (simp_all add: kernel_ok_def)
  have fin: "finite (dom (heap ?r))" using calm_dev [OF I(1)] by (rule dev_invD(1))
  obtain a bs where a: "alloc env (heap ?r) n = Some (a, bs)" "heap ?r a = None" "length bs = unat n"
    by (rule total_allocE [OF al(2,1) fin n(1)])
  have m: "m = (heap ?r)(a \<mapsto> bs)" "p = Ref a" using k a(1) by simp_all
  have lo: "loose ?r a" by (rule calm_dead [OF I(1) a(2)])
  have na: "a \<notin> set (concat (map rheld (readers s)))" using I(2) a(2) unfolding readers_ok_def by blast
  have "readers_ok tells now (?r\<lparr>heap := m\<rparr>) (readers s)"
    by (rule readers_ok_other [OF I(2)]) (use na m(1) in auto)
  then have "readers_ok tells now (?r\<lparr>heap := m\<rparr>) (readers s @ [?c])"
    using readers_ok_put [of tells now "?r\<lparr>heap := m\<rparr>" "readers s" "[]" ?c] n a(3) lo na
    by (simp add: m rcall_ok_def rheld_def)
  moreover have "calm ?l (?r\<lparr>heap := m\<rparr>)" unfolding m by (rule calm_loose(1) [OF I(1) lo])
  ultimately show "reading tells low now (s\<lparr>shared := (shared s)\<lparr>heap := m\<rparr>, readers := readers s @ [?c]\<rparr>)"
    using s by (simp add: reading_def locked_readers_def)
  show "lines m (device ?r) = lines (heap ?r) (device ?r)"
    unfolding m by (rule calm_loose(2) [OF I(1) lo])
qed

lemma read_body_None:
  "read_body env m d p n pos = Inr (m', d', None) \<Longrightarrow> m' = m \<and> d' = d \<and> sint (total_size (buffer d)) \<le> sint pos"
  by (auto simp: read_body_def Let_def split: if_splits prod.splits)

lemma reading_nothing:
  assumes s: "reading tells low now s" and now: "truthful tells low now (shared s)"
    and c: "readers s = us @ c # vs" "rstage c = Locked"
    and b: "read_body env (heap (shared s)) (device (shared s)) (buf_block c) (want c) (pos_at c) = Inr (m, d, None)"
  shows "reading tells low now (s\<lparr>shared := (shared s)\<lparr>heap := m, device := d\<lparr>mutex := False\<rparr>\<rparr>, readers := us @ vs,
      answers := answers s @ [answer_of (c\<lparr>seen := now\<rparr>) 0 []]\<rparr>)"
proof -
  let ?r = "shared s"
  have e: "m = heap ?r" "d = device ?r" "sint (total_size (buffer (device ?r))) \<le> sint (pos_at c)"
    using read_body_None [OF b] by auto
  have I: "calm (locked_readers (readers s)) ?r" "readers_ok tells now ?r (us @ c # vs)"
    using s c by (simp_all add: reading_def)
  have ok: "rcall_ok tells now ?r c" by (rule readers_ok_leave(2) [OF I(2)])
  have l: "locked_readers (readers s) = Suc (locked_readers (us @ vs))" using c by (simp add: locked_readers_def)
  have "length (concat (lines (heap ?r) (device ?r))) \<le> unat (pos_at c)"
    using read_body_end [OF calm_dev [OF I(1)], of "pos_at c"] e(3) ok c(2) by (simp add: rcall_ok_def)
  then have "low now \<le> unat (pos_at c)"
    using now low_of_le [of "lines (heap ?r) (device ?r)"] by (simp add: truthful_def)
  then have "answered tells low now (answer_of (c\<lparr>seen := now\<rparr>) 0 [])"
    using ok by (auto simp: answered_def answer_of_def rcall_ok_def)
  moreover have "calm (locked_readers (us @ vs)) (?r\<lparr>device := (device ?r)\<lparr>seek := seek (device ?r), mutex := False\<rparr>\<rparr>)"
    by (rule calm_give) (use I(1) l in simp)
  ultimately show ?thesis
    using s readers_ok_device(1) [OF readers_ok_leave(1) [OF I(2)]] by (simp add: reading_def e)
qed

lemma reading_body:
  assumes env: "kernel_ok env" and s: "reading tells low now s" and now: "truthful tells low now (shared s)"
    and c: "readers s = us @ c # vs" "rstage c = Locked"
    and b: "read_body env (heap (shared s)) (device (shared s)) (buf_block c) (want c) (pos_at c) = Inr (m, d, Some (o', p, n))"
  shows "reading tells low now (s\<lparr>shared := (shared s)\<lparr>heap := m, device := d\<lparr>mutex := False\<rparr>\<rparr>,
      readers := us @ c\<lparr>rstage := Stored, off_block := o', pos_at := p, got := n, seen := now\<rparr> # vs\<rparr>)"
    and "lines m d = lines (heap (shared s)) (device (shared s))" and "d = (device (shared s))\<lparr>seek := False\<rparr>"
proof -
  let ?r = "shared s"
  let ?c = "c\<lparr>rstage := Stored, off_block := o', pos_at := p, got := n, seen := now\<rparr>"
  have al: "good_alloc (alloc env)" "total_alloc (alloc env)" using env by (simp_all add: kernel_ok_def)
  have I: "calm (locked_readers (readers s)) ?r" "readers_ok tells now ?r (us @ c # vs)"
    using s c by (simp_all add: reading_def)
  have sane: "slots_sane (buffer (device ?r))" using I(1) by (simp add: calm_def)
  note L = readers_ok_leave [OF I(2)] and dev = calm_dev [OF I(1)]
  obtain tb junk where tb: "buf_block c = Ref tb" "heap ?r tb = Some junk" "length junk = unat (want c)"
      "unat (want c) < 2 ^ 31" "unat (pos_at c) < 2 ^ 63"
    using L(2) c(2) by (auto simp: rcall_ok_def)
  have h: "rheld c = [tb]" using tb(1) c(2) by (simp add: rheld_def)
  have lo: "loose ?r tb" "unowned (device ?r) tb" using L(4) h by (simp_all add: loose_def)
  obtain ob ob' t ts bs where o: "heap ?r ob = None" "heap ?r t = None" "t \<noteq> ob" "o' = Ref ob"
      "m = (heap ?r)(ob \<mapsto> ob', t \<mapsto> ts, tb \<mapsto> blit junk 0 bs)" "d = (device ?r)\<lparr>seek := False\<rparr>"
      "n = of_nat (length bs)" "length bs \<le> unat (want c)"
      "read_of (wrap_at (buffer (device ?r))) (lines (heap ?r) (device ?r)) (unat (want c)) (unat p) bs"
      "seek (device ?r) \<or> unat p < length (concat (lines (heap ?r) (device ?r)))"
    by (rule read_body_any [OF dev al tb(2) lo(2) tb(3-5) sane b [unfolded tb(1)]])
  have tell: "tells now (unat (want c)) (unat p) bs" using now o(9,10) unfolding truthful_def by metis
  have ne: "ob \<noteq> tb" using o(1) tb(2) by auto
  have lob: "loose ?r ob" and lt: "loose ?r t" using calm_dead [OF I(1)] o(1,2) by auto
  have new: "a \<notin> set (concat (map rheld (us @ vs)))" if "a \<in> {ob, t, tb}" for a
  proof -
    have "heap ?r a \<noteq> None" if "a \<in> set (concat (map rheld (us @ vs)))" for a
      using L(1) that unfolding readers_ok_def by blast
    moreover have "tb \<notin> set (concat (map rheld (us @ vs)))" using L(5) h by auto
    ultimately show ?thesis using that o(1,2) by blast
  qed
  have c1: "calm (locked_readers (readers s)) (?r\<lparr>heap := (heap ?r)(ob \<mapsto> ob')\<rparr>)"
      "lines ((heap ?r)(ob \<mapsto> ob')) (device ?r) = lines (heap ?r) (device ?r)"
    by (rule calm_loose [OF I(1) lob])+
  have c2: "calm (locked_readers (readers s)) (?r\<lparr>heap := (heap ?r)(ob \<mapsto> ob', t \<mapsto> ts)\<rparr>)"
      "lines ((heap ?r)(ob \<mapsto> ob', t \<mapsto> ts)) (device ?r) = lines (heap ?r) (device ?r)"
    using calm_loose [OF c1(1), of t "Some ts"] lt c1(2) by simp_all
  have c3: "calm (locked_readers (readers s)) (?r\<lparr>heap := m\<rparr>)" "lines m (device ?r) = lines (heap ?r) (device ?r)"
    using calm_loose [OF c2(1), of tb "Some (blit junk 0 bs)"] lo(1) c2(2) unfolding o(5) by simp_all
  have "readers_ok tells now (?r\<lparr>heap := m\<rparr>) (us @ vs)"
  proof (rule readers_ok_other [OF L(1)], rule ballI)
    fix a
    assume "a \<in> set (concat (map rheld (us @ vs)))"
    then have "a \<noteq> ob" "a \<noteq> t" "a \<noteq> tb" using new by blast+
    then show "m a = heap ?r a" by (simp add: o(5))
  qed
  moreover have "rcall_ok tells now (?r\<lparr>heap := m\<rparr>) ?c"
  proof -
    have "blit junk 0 bs = bs @ drop (length bs) junk" by (simp add: blit_def)
    moreover have "length (blit junk 0 bs) = unat (want c)" using tb(3) o(8) by simp
    ultimately show ?thesis using L(2) tb(1) tell unfolding rcall_ok_def by (auto simp: o(4,5,7))
  qed
  moreover have h': "rheld ?c = [tb, ob]" using tb(1) by (simp add: rheld_def o(4))
  ultimately have "readers_ok tells now (?r\<lparr>heap := m\<rparr>) (us @ ?c # vs)"
    using ne lo(1) lob new [of tb] new [of ob] by (intro readers_ok_put) (simp_all add: h' o(5))
  then have r2: "readers_ok tells now (?r\<lparr>heap := m, device := d\<lparr>mutex := False\<rparr>\<rparr>) (us @ ?c # vs)"
    using readers_ok_device(2) unfolding o(6) by fastforce
  have l: "locked_readers (readers s) = Suc (locked_readers (us @ ?c # vs))" using c by (simp add: locked_readers_def)
  have "calm (locked_readers (us @ ?c # vs)) (?r\<lparr>heap := m, device := d\<lparr>mutex := False\<rparr>\<rparr>)"
    using calm_give [of "locked_readers (us @ ?c # vs)" "?r\<lparr>heap := m\<rparr>" False] c3(1) unfolding l o(6) by simp
  then show "reading tells low now (s\<lparr>shared := (shared s)\<lparr>heap := m, device := d\<lparr>mutex := False\<rparr>\<rparr>, readers := us @ ?c # vs\<rparr>)"
    using s r2 by (simp add: reading_def)
  show "lines m d = lines (heap ?r) (device ?r)" using c3(2) by (simp add: o(6))
  show "d = (device ?r)\<lparr>seek := False\<rparr>" by (rule o(6))
qed

text \<open>After the release: it never faults, and what it returns is what the body found.\<close>

lemma read_finish_spec:
  assumes "m tb = Some bs" and "m ob = Some b'" and "ob \<noteq> tb"
  shows "read_finish m sz (Ref tb) (Ref ob) n pos rc =
    Inr (m(ob := None, tb := None),
      if sint pos < sint sz then (pos + rc, sint rc, if n = 0 then [] else bs)
      else (pos, 0, if n = 0 then [] else bs))"
  using assms by (simp add: read_finish_def)

lemma not_below_size:
  fixes pos sz :: u64
  assumes small: "unat sz < 2 ^ 63" and "\<not> sint pos < sint sz"
  shows "unat sz \<le> unat pos"
proof -
  have le: "int (unat sz) \<le> sint pos" using assms(2) sint_u64_small [OF small] by simp
  then have "0 \<le> sint pos" using order_trans [OF of_nat_0_le_iff] by blast
  have "sint pos < 2 ^ 63" using sint_lt [of pos] by simp
  then have "take_bit 64 (sint pos) = sint pos" using \<open>0 \<le> sint pos\<close> by (intro take_bit_int_eq_self) simp_all
  then have "sint pos = uint pos" by (subst uint_sint) simp
  then have "nat (int (unat sz)) \<le> nat (uint pos)" using le by (intro nat_mono) simp
  then show ?thesis by (simp only: nat_int unat_eq_nat_uint)
qed

lemma reading_end:
  assumes s: "reading tells low now s" and now: "low now = low_of (lines (heap (shared s)) (device (shared s)))"
    and c: "readers s = us @ c # vs" "rstage c = Stored"
  obtains m p ret user where
    "read_finish (heap (shared s)) sz (buf_block c) (off_block c) (want c) (pos_at c) (got c) =
      Inr (m, p, ret, user)"
    and "size_seen (shared s) sz \<longrightarrow> reading tells low now (s\<lparr>shared := (shared s)\<lparr>heap := m\<rparr>, readers := us @ vs,
      answers := answers s @ [answer_of c ret user]\<rparr>)"
    and "lines m (device (shared s)) = lines (heap (shared s)) (device (shared s))"
    and "ret = (if sint (pos_at c) < sint sz then int (unat (got c)) else 0)"
    and "unat (got c) \<le> length user"
proof -
  let ?r = "shared s" and ?p = "unat (pos_at c)"
  have I: "calm (locked_readers (readers s)) ?r" "readers_ok tells now ?r (us @ c # vs)"
    using s c by (simp_all add: reading_def)
  note L = readers_ok_leave [OF I(2)]
  obtain tb ob xs rest where tb: "buf_block c = Ref tb" "off_block c = Ref ob" "heap ?r tb = Some (xs @ rest)"
      "length (xs @ rest) = unat (want c)" "unat (want c) < 2 ^ 31" "got c = of_nat (length xs)"
      "since c \<le> seen c" "seen c \<le> now" "tells (seen c) (unat (want c)) ?p xs"
    using L(2) c(2) by (auto simp: rcall_ok_def)
  have h: "rheld c = [tb, ob]" using tb(1,2) c(2) by (simp add: rheld_def)
  obtain b where ob: "heap ?r ob = Some b" "ob \<noteq> tb" and lo: "loose ?r ob" "loose ?r tb"
    using L(3,4) h by auto
  let ?m = "(heap ?r)(ob := None, tb := None)" and ?user = "if want c = 0 then [] else xs @ rest"
  let ?ret = "if sint (pos_at c) < sint sz then int (length xs) else 0"
  have got: "unat (got c) = length xs" using tb(4-6) by (simp add: unat_of_nat_u64)
  then have "sint (got c) = int (length xs)" using tb(4,5) by (subst sint_u64_small) simp_all
  then have "\<exists>p. read_finish (heap ?r) sz (buf_block c) (off_block c) (want c) (pos_at c) (got c) =
      Inr (?m, p, ?ret, ?user)"
    using read_finish_spec [OF tb(3) ob] tb(1,2) by simp
  then obtain p where f: "read_finish (heap ?r) sz (buf_block c) (off_block c) (want c) (pos_at c) (got c) =
      Inr (?m, p, ?ret, ?user)" ..
  have u: "\<exists>rest'. ?user = xs @ rest'" using tb(4) by auto
  have ans: "answered tells low now (answer_of c ?ret ?user)" if sz: "size_seen ?r sz"
  proof (cases "sint (pos_at c) < sint sz")
    case True
    then show ?thesis using tb(7-9) u unfolding answered_def answer_of_def by auto
  next
    case False
    note B = size_seen_bounds [OF calm_dev [OF I(1)] sz]
    have "unat sz < 2 ^ 63" using B(2) content_small [OF calm_dev [OF I(1)]] by simp
    then have "low now \<le> ?p" using not_below_size [OF _ False] B(1) now by simp
    then show ?thesis using tb(7,8) False unfolding answered_def answer_of_def by auto
  qed
  then have a: "reading tells low now (s\<lparr>readers := us @ vs, answers := answers s @ [answer_of c ?ret ?user]\<rparr>)" if "size_seen ?r sz"
    using reading_leave [OF s c(1)] c(2) that by simp
  have r: "readers_ok tells now (?r\<lparr>heap := ?m\<rparr>) (us @ vs)"
  proof (rule readers_ok_other [OF L(1)], rule ballI)
    fix a
    assume "a \<in> set (concat (map rheld (us @ vs)))"
    then show "?m a = heap ?r a" using L(5) h by auto
  qed
  have c1: "calm (locked_readers (readers s)) (?r\<lparr>heap := (heap ?r)(ob := None)\<rparr>)"
      "lines ((heap ?r)(ob := None)) (device ?r) = lines (heap ?r) (device ?r)"
    by (rule calm_loose [OF I(1) lo(1)])+
  have c2: "calm (locked_readers (readers s)) (?r\<lparr>heap := ?m\<rparr>)" "lines ?m (device ?r) = lines (heap ?r) (device ?r)"
    using calm_loose [OF c1(1), of tb None] lo(2) c1(2) by simp_all
  have "locked_readers (us @ vs) = locked_readers (readers s)" using c by (simp add: locked_readers_def)
  then have "reading tells low now (s\<lparr>shared := ?r\<lparr>heap := ?m\<rparr>, readers := us @ vs, answers := answers s @ [answer_of c ?ret ?user]\<rparr>)" if "size_seen ?r sz"
    using a [OF that] r c2(1) by (simp add: reading_def)
  moreover have "unat (got c) \<le> length ?user" using got tb(4) by auto
  ultimately show thesis using that [OF f _ c2(2)] unfolding got by simp
qed

lemma reader_step_reading:
  assumes env: "kernel_ok env" and s: "reading tells low now s" and now: "truthful tells low now (shared s)"
    and st: "reader_step env now s t"
  shows "reading tells low now t \<and> undisturbed (shared s) (shared t)"
  using st
proof cases
  case (r_enter n pos m p)
  show ?thesis using reading_enter [OF env s r_enter(2-4)] unfolding r_enter(1) by (simp add: undisturbed_def)
next
  case (r_busy us c vs)
  show ?thesis using reading_busy [OF s r_busy(2)] r_busy(3) unfolding r_busy(1) by (simp add: undisturbed_def)
next
  case (r_pass us c vs)
  show ?thesis using reading_pass [OF s r_pass(2,3)] unfolding r_pass(1) by (simp add: undisturbed_def)
next
  case (r_lock us c vs)
  show ?thesis using reading_lock [OF s r_lock(2-4)] unfolding r_lock(1) by (simp add: undisturbed_def)
next
  case (r_nothing us c vs m d)
  show ?thesis
    using reading_nothing [OF s now r_nothing(2-4)] read_body_None [OF r_nothing(4)] unfolding r_nothing(1)
    by (simp add: undisturbed_def)
next
  case (r_body us c vs m d b p n)
  show ?thesis
    using reading_body [OF env s now r_body(2-4)] unfolding r_body(1) by (simp add: undisturbed_def)
next
  case (r_end_busy us c vs)
  show ?thesis using reading_busy [OF s r_end_busy(2)] r_end_busy(3) unfolding r_end_busy(1) by (simp add: undisturbed_def)
next
  case (r_leave us c vs)
  show ?thesis using reading_leaving [OF s r_leave(2)] unfolding r_leave(1) by (simp add: undisturbed_def)
next
  case (r_end us c vs sz m p ret user)
  have e: "low now = low_of (lines (heap (shared s)) (device (shared s)))" using now by (simp add: truthful_def)
  obtain m' p' ret' user' where
    "read_finish (heap (shared s)) sz (buf_block c) (off_block c) (want c) (pos_at c) (got c) = Inr (m', p', ret', user')"
    "size_seen (shared s) sz \<longrightarrow> reading tells low now (s\<lparr>shared := (shared s)\<lparr>heap := m'\<rparr>, readers := us @ vs, answers := answers s @ [answer_of c ret' user']\<rparr>)"
    "lines m' (device (shared s)) = lines (heap (shared s)) (device (shared s))"
    by (rule reading_end [OF s e r_end(2,3), where sz = sz])
  then show ?thesis using r_end(5,6) unfolding r_end(1) by (simp add: undisturbed_def)
qed

text \<open>A reader that comes while the mutex is free gets it, in whatever system it runs.\<close>

lemma reader_locks:
  fixes s :: "'z crowd_scheme"
  assumes R: "\<And>r rs v. calls r = calls (shared s) \<Longrightarrow> stored_bytes r = stored_bytes (shared s) \<Longrightarrow>
      reader_step env now (s\<lparr>shared := r, readers := rs\<rparr>) v \<Longrightarrow> R (s\<lparr>shared := r, readers := rs\<rparr>) v"
    and free: "\<not> mutex (device (shared s))" and n: "unat n < 2 ^ 31" "unat pos < 2 ^ 63"
  obtains m c where "R\<^sup>*\<^sup>* s (s\<lparr>shared := (shared s)\<lparr>heap := m, device := (device (shared s))\<lparr>mutex := True\<rparr>\<rparr>,
      readers := readers s @ c # []\<rparr>)"
    and "rstage c = Locked" and "want c = n" and "pos_at c = pos" and "since c = now"
proof -
  obtain m p where k: "kmalloc (alloc env) (heap (shared s)) n = (m, p)" by fastforce
  let ?c = "\<lparr>want = n, pos_at = pos, buf_block = p, off_block = Null, got = 0, rstage = Prepared,
      leaving = False, since = now, seen = 0\<rparr>"
  let ?r = "(shared s)\<lparr>heap := m\<rparr>"
  let ?s1 = "s\<lparr>shared := ?r, readers := readers s @ ?c # []\<rparr>"
  let ?s2 = "s\<lparr>shared := ?r, readers := readers s @ ?c\<lparr>rstage := Unlocked\<rparr> # []\<rparr>"
  let ?s3 = "s\<lparr>shared := ?r\<lparr>device := (device (shared s))\<lparr>mutex := True\<rparr>\<rparr>, readers := readers s @ ?c\<lparr>rstage := Locked\<rparr> # []\<rparr>"
  have s: "s\<lparr>shared := shared s, readers := readers s\<rparr> = s" by (cases s) simp
  have 1: "R s ?s1" using R [of "shared s" "readers s" ?s1] reader_step.r_enter [OF n k] unfolding s by simp
  have 2: "R ?s1 ?s2" by (rule R) (use reader_step.r_pass [of ?s1 "readers s" ?c "[]"] free in simp_all)
  have 3: "R ?s2 ?s3" by (rule R) (use reader_step.r_lock [of ?s2 "readers s" "?c\<lparr>rstage := Unlocked\<rparr>" "[]"] free in simp_all)
  have "R\<^sup>*\<^sup>* s ?s3" using 1 2 3 by (meson rtranclp.rtrancl_into_rtrancl rtranclp.rtrancl_refl)
  then show thesis by (rule that [where m = m and c = "?c\<lparr>rstage := Locked\<rparr>"]) simp_all
qed

section \<open>Every read can return\<close>

text \<open>Reads that cannot run into the helper's overrun: from the start, or asking for more than there is.\<close>

definition safe_read :: "race \<Rightarrow> rcall \<Rightarrow> bool" where
  "safe_read r c \<longleftrightarrow> pos_at c = 0 \<or> length (concat (lines (heap r) (device r))) < unat (want c)"

lemma locked_reader_block:
  assumes s: "reading tells low now s" and c: "readers s = us @ c # vs" "rstage c = Locked"
  obtains tb junk where "buf_block c = Ref tb" and "heap (shared s) tb = Some junk" and "length junk = unat (want c)"
    and "unat (want c) < 2 ^ 31" and "unat (pos_at c) < 2 ^ 63" and "unowned (device (shared s)) tb"
proof -
  have I: "readers_ok tells now (shared s) (us @ c # vs)" using s c by (simp add: reading_def)
  note L = readers_ok_leave [OF I]
  obtain tb junk where tb: "buf_block c = Ref tb" "heap (shared s) tb = Some junk" "length junk = unat (want c)"
      "unat (want c) < 2 ^ 31" "unat (pos_at c) < 2 ^ 63"
    using L(2) c(2) by (auto simp: rcall_ok_def)
  have "unowned (device (shared s)) tb" using L(4) tb(1) by (simp add: rheld_def loose_def)
  then show thesis by (rule that [OF tb])
qed

lemma read_body_safe:
  assumes env: "kernel_ok env" and s: "reading tells low now s" and c: "readers s = us @ c # vs" "rstage c = Locked"
    and noseek: "\<not> seek (device (shared s))" and safe: "safe_read (shared s) c"
  obtains m d x where "read_body env (heap (shared s)) (device (shared s)) (buf_block c) (want c) (pos_at c) = Inr (m, d, x)"
proof -
  let ?r = "shared s"
  have al: "good_alloc (alloc env)" "total_alloc (alloc env)" using env by (simp_all add: kernel_ok_def)
  have dev: "dev_inv (heap ?r) (device ?r)" and sane: "slots_sane (buffer (device ?r))"
    using s by (simp_all add: reading_def calm_def)
  obtain tb junk where tb: "buf_block c = Ref tb" "heap ?r tb = Some junk" "length junk = unat (want c)"
      "unat (want c) < 2 ^ 31" "unat (pos_at c) < 2 ^ 63" and lo: "unowned (device ?r) tb"
    by (rule locked_reader_block [OF s c])
  show thesis
  proof (cases "length (concat (lines (heap ?r) (device ?r))) \<le> unat (pos_at c)")
    case True
    then show thesis using that read_body_end [OF dev tb(5)] by (simp add: read_body_def)
  next
    case False
    have "unat (pos_at c) = 0 \<or> length (concat (lines (heap ?r) (device ?r))) < unat (want c) \<or>
        (\<exists>x. read_body env (heap ?r) (device ?r) (Ref tb) (want c) (pos_at c) = Inr x)"
      using safe by (auto simp: safe_read_def)
    then show thesis
      using read_body_spec [OF dev al noseek tb(2) lo tb(3,4)] False that sane unfolding tb(1) by (metis not_le)
  qed
qed

section \<open>A position past all slots\<close>

lemma run_bytes_first:
  assumes "length (concat ls) < n"
  shows "run_bytes w ls n (first_slot w ls) = concat (drop (if w < length ls then w else 0) ls)"
proof (cases "w < length ls")
  case True
  have c: "concat ls = concat (take w ls) @ concat (drop w ls)" by (metis append_take_drop_id concat_append)
  then have "drop (length (concat (take w ls))) (concat ls) = concat (drop w ls)" by simp
  moreover have "length (concat ls) - length (concat (take w ls)) = length (concat (drop w ls))" unfolding c by simp
  ultimately show ?thesis using True assms by (simp add: run_bytes_def first_slot_def run_left_def)
next
  case False
  then have "take w ls = ls" by simp
  then show ?thesis using False assms by (auto simp: run_bytes_def first_slot_def run_left_def)
qed

text \<open>
  C11. A seek request can name a position at or beyond the sum of the sizes recorded in the ten
  slots. The next read that is not at the end of the device and asks for more than it holds finds
  no entry for it, and copies the lines from slot 0 of the array on, the whole run, into its
  block. Whatever others do to the device and to blocks that are not its own until its last look,
  these bytes then go to the user; it returns 0 if the size it sees is not above the position
  asked for, and otherwise the number of these bytes, as if they had been there.
\<close>

theorem seek_past_slots_reads_front:
  assumes "kernel_ok env" and "dev_inv m d" and "seek d" and "unat pos < length (concat (lines m d))"
    and "sum_list (map esize (entry (buffer d))) \<le> seekto_position d" and "seekto_position d \<noteq> 0"
    and "m tb = Some junk" and "unowned d tb" and "length junk = unat n"
    and "length (concat (lines m d)) < unat n" and "unat n < 2 ^ 31"
    and "bs = concat (drop (if wrap_at (buffer d) < length (lines m d) then wrap_at (buffer d) else 0) (lines m d))"
  shows "\<exists>m' ob. bs \<noteq> [] \<and> lines m' d = lines m d \<and>
    read_body env m d (Ref tb) n pos = Inr (m', d\<lparr>seek := False\<rparr>, Some (Ref ob, seekto_position d, of_nat (length bs))) \<and>
    (\<forall>m2 sz. m2 tb = m' tb \<longrightarrow> m2 ob = m' ob \<longrightarrow> (\<exists>m3 p rest.
      read_finish m2 sz (Ref tb) (Ref ob) n (seekto_position d) (of_nat (length bs)) =
        Inr (m3, p, if sint (seekto_position d) < sint sz then int (length bs) else 0, bs @ rest)))"
proof -
  have al: "good_alloc (alloc env)" "total_alloc (alloc env)" using assms(1) by (simp_all add: kernel_ok_def)
  note run = run_bytes_first [OF assms(10), of "wrap_at (buffer d)", folded assms(12)]
  obtain ob ob' t ts where o: "m ob = None" "m t = None" "t \<noteq> ob" "bs \<noteq> []"
    "read_body env m d (Ref tb) n pos = Inr (m(ob \<mapsto> ob', t \<mapsto> ts, tb \<mapsto> blit junk 0 bs),
      d\<lparr>seek := False\<rparr>, Some (Ref ob, seekto_position d, of_nat (length bs)))"
    by (rule read_body_past [OF assms(2) al assms(3,7,8,9,11,4,10,5,6), unfolded run])
  let ?m = "m(ob \<mapsto> ob', t \<mapsto> ts, tb \<mapsto> blit junk 0 bs)"
  have ne: "ob \<noteq> tb" using o(1) assms(7) by auto
  have own: "?m tb = Some (blit junk 0 bs)" "?m ob = Some ob'" using o(3) ne by simp_all
  have "lines ?m d = lines m d"
    using lines_frame [OF assms(8)] lines_frame [OF unowned_dead [OF assms(2) o(1)]] lines_frame [OF unowned_dead [OF assms(2) o(2)]]
    by (simp del: fun_upd_apply)
  moreover have le: "length bs \<le> unat n" using length_run_bytes run by metis
  then have "unat (of_nat (length bs) :: u64) = length bs" using assms(11) by (intro unat_of_nat_u64) simp
  then have "sint (of_nat (length bs) :: u64) = int (length bs)" using le assms(11) by (subst sint_u64_small) simp_all
  moreover have "blit junk 0 bs = bs @ drop (length bs) junk" by (simp add: blit_def)
  moreover have "n \<noteq> 0" using assms(10) by auto
  ultimately show ?thesis
    using o(4,5) own read_finish_spec [of _ tb "blit junk 0 bs" ob ob', OF _ _ ne]
    by (intro exI [of _ ?m] exI [of _ ob]) (simp del: fun_upd_apply)
qed

text \<open>
  The demo device holds five bytes. After a request for position 6 a read gets them all, and the
  count that says they lie at position 6 if the device has grown to eight bytes.
\<close>

theorem seek_past_slots_reads_front_witness:
  "\<exists>m' ob. read_body demo_env (demo_mem(9 \<mapsto> replicate 100 0)) (demo_dev\<lparr>seekto_position := 6, seek := True\<rparr>) (Ref 9) 100 0 =
      Inr (m', demo_dev\<lparr>seekto_position := 6\<rparr>, Some (Ref ob, 6, 5)) \<and>
    (\<exists>m3 p rest. read_finish m' 5 (Ref 9) (Ref ob) 100 6 5 = Inr (m3, p, 0, [97, 98, 10, 99, 10] @ rest)) \<and>
    (\<exists>m3 p rest. read_finish m' 8 (Ref 9) (Ref ob) 100 6 5 = Inr (m3, p, 5, [97, 98, 10, 99, 10] @ rest))"
proof -
  let ?m = "demo_mem(9 \<mapsto> replicate 100 0)" and ?d = "demo_dev\<lparr>seekto_position := 6, seek := True\<rparr>"
  have dead: "demo_mem 9 = None" by (simp add: demo_mem_def)
  have un: "unowned demo_dev 9" by (rule unowned_dead [OF demo_inv dead])
  have inv: "dev_inv ?m ?d" using dev_inv_frame [OF demo_inv un] by simp
  have ln: "lines ?m ?d = [[97, 98, 10], [99, 10]]" using lines_frame [OF un, of demo_mem] by (simp add: demo_lines del: fun_upd_apply)
  have s: "sum_list (map esize (entry (buffer ?d))) \<le> seekto_position ?d"
    by (simp add: demo_two_def sum_list_replicate)
  have w: "concat (drop (if wrap_at (buffer ?d) < length (lines ?m ?d) then wrap_at (buffer ?d) else 0) (lines ?m ?d)) = [97, 98, 10, 99, 10]"
    unfolding ln by (simp add: wrap_at_def demo_two_def)
  have p: "seek ?d" "unat (0 :: u64) < length (concat (lines ?m ?d))" "seekto_position ?d \<noteq> 0" "?m 9 = Some (replicate 100 0)"
    "unowned ?d 9" "length (replicate 100 (0 :: u8)) = unat (100 :: u64)" "length (concat (lines ?m ?d)) < unat (100 :: u64)"
    "unat (100 :: u64) < 2 ^ 31"
    using un unfolding ln by simp_all
  obtain m' ob where r: "read_body demo_env ?m ?d (Ref 9) 100 0 =
      Inr (m', ?d\<lparr>seek := False\<rparr>, Some (Ref ob, seekto_position ?d, of_nat (length [97, 98, 10, 99, 10 :: u8])))"
    "\<And>m2 sz. m2 9 = m' 9 \<Longrightarrow> m2 ob = m' ob \<Longrightarrow> \<exists>m3 p rest.
      read_finish m2 sz (Ref 9) (Ref ob) 100 (seekto_position ?d) (of_nat (length [97, 98, 10, 99, 10 :: u8])) =
        Inr (m3, p, if sint (seekto_position ?d) < sint sz then int (length [97, 98, 10, 99, 10 :: u8]) else 0, [97, 98, 10, 99, 10] @ rest)"
    using seek_past_slots_reads_front [OF demo_kernel_ok inv p(1,2) s p(3-8) w [symmetric]] by blast
  have "?d\<lparr>seek := False\<rparr> = demo_dev\<lparr>seekto_position := 6\<rparr>" by simp
  then show ?thesis
    using r(1) r(2) [of m' 5] r(2) [of m' 8] by (intro exI [of _ m'] exI [of _ ob]) simp
qed

end
