(* ===== verification/Aesd_Race_Read.thy ===== *)
theory Aesd_Race_Read
  imports Aesd_Readers
begin

text \<open>
  Any number of calls of \<open>aesd_read\<close> and \<open>aesd_write\<close> at the same time, in any order of their steps.
  The steps are those of \<open>Aesd_Race\<close> and \<open>Aesd_Readers\<close>; the invariant of the writers says what
  the device holds after every number of lines stored, and the readers rely on that.
\<close>

section \<open>Writers and readers\<close>

text \<open>
  A writer sees the shared part only. The time of the readers is the number of lines stored.
\<close>

inductive crowd_step :: "kenv \<Rightarrow> crowd \<Rightarrow> crowd \<Rightarrow> bool" for env where
  writer: "race_step env (shared s) r \<Longrightarrow> crowd_step env s (s\<lparr>shared := r\<rparr>)"
| reader: "reader_step env (length (stored_bytes (shared s))) s t \<Longrightarrow> crowd_step env s t"

inductive_cases crowd_stepE: "crowd_step env s t"

definition start_crowd :: "kmem \<Rightarrow> aesd_dev \<Rightarrow> crowd" where
  "start_crowd m d = \<lparr>shared = start_race m d, readers = [], answers = []\<rparr>"

section \<open>The invariant\<close>

text \<open>The lines held when \<open>k\<close> lines had been stored, and what a read gets at that moment.\<close>

definition snapshot :: "u8 list list \<Rightarrow> u8 list list \<Rightarrow> nat \<Rightarrow> u8 list list" where
  "snapshot ls st k = lastn 10 (ls @ take k st)"

definition served :: "nat \<Rightarrow> u8 list list \<Rightarrow> u8 list list \<Rightarrow> nat \<Rightarrow> nat \<Rightarrow> nat \<Rightarrow> u8 list" where
  "served i ls st k n pos = run_bytes (wrap_of ((i + k) mod 10) (snapshot ls st k)) (snapshot ls st k) n pos"

lemma snapshot_append [simp]: "k \<le> length st \<Longrightarrow> snapshot ls (st @ x) k = snapshot ls st k"
  by (simp add: snapshot_def)

lemma served_append [simp]: "k \<le> length st \<Longrightarrow> served i ls (st @ x) k n pos = served i ls st k n pos"
  by (simp add: served_def)

text \<open>What the readers are told: positions of files are below \<open>2 ^ 63\<close>.\<close>

definition told :: "nat \<Rightarrow> u8 list list \<Rightarrow> u8 list list \<Rightarrow> tells" where
  "told i ls st j n p bs \<longleftrightarrow> bs = served i ls st j n p \<and> p < 2 ^ 63"

definition low_at :: "u8 list list \<Rightarrow> u8 list list \<Rightarrow> nat \<Rightarrow> nat" where
  "low_at ls st j = low_of (snapshot ls st j)"

lemma told_append: "\<forall>j \<le> length st. told i ls (st @ x) j = told i ls st j \<and> low_at ls (st @ x) j = low_at ls st j"
  by (simp add: told_def low_at_def fun_eq_iff)

text \<open>
  What an answer says: an error, or the bytes of the device as it was at some moment between the
  call's start and its return, or 0 because the size it saw when it looked again was not above its
  position. The least size there is to see is that of the lines held at some moment from the
  body on, without the oldest if there are ten.
\<close>

definition answer_ok :: "nat \<Rightarrow> u8 list list \<Rightarrow> u8 list list \<Rightarrow> answer \<Rightarrow> bool" where
  "answer_ok i ls st a \<longleftrightarrow> a_ret a = - ENOMEM \<or>
     a_since a \<le> a_seen a \<and> a_seen a \<le> length st \<and>
     (let bs = served i ls st (a_seen a) (unat (a_want a)) (unat (a_pos a)) in
       (a_ret a = int (length bs) \<and> (\<exists>rest. a_user a = bs @ rest)) \<or>
       (a_ret a = 0 \<and> (\<exists>j. a_seen a \<le> j \<and> j \<le> length st \<and>
         low_of (snapshot ls st j) \<le> unat (a_pos a))))"

lemma answered_ok: "answered (told i ls st) (low_at ls st) (length st) a \<Longrightarrow> answer_ok i ls st a"
  by (auto simp: answered_def answer_ok_def told_def low_at_def Let_def)

text \<open>The next slot to fill moves with the lines stored, and no seek is pending.\<close>

definition ring_at :: "nat \<Rightarrow> race \<Rightarrow> bool" where
  "ring_at i r \<longleftrightarrow> \<not> seek (device r) \<and>
     unat (in_offs (buffer (device r))) = (i + length (stored_bytes r)) mod 10"

definition crowd_inv :: "nat \<Rightarrow> u8 list list \<Rightarrow> crowd \<Rightarrow> bool" where
  "crowd_inv i ls s \<longleftrightarrow> race_inv (locked_readers (readers s)) ls (shared s) \<and> ring_at i (shared s) \<and>
     reading (told i ls (stored_bytes (shared s))) (low_at ls (stored_bytes (shared s))) (length (stored_bytes (shared s))) s"

section \<open>The writers' steps\<close>

lemma race_step_stored: "race_step env s t \<Longrightarrow> \<exists>x. stored_bytes t = stored_bytes s @ x"
  by (erule race_stepE) auto

lemma write_body_ring:
  assumes "write_body env m d buf e x t = Inr (m', d')" and "\<not> partial d" "\<not> partial d'"
  shows "seek d' = seek d \<and> in_offs (buffer d') = next_offs (in_offs (buffer d))"
  using assms
  by (auto simp: write_body_def finish_line_def aesd_circular_buffer_add_entry_def split: if_splits)

lemma ring_at_step:
  assumes inv: "race_inv k ls s" and r: "ring_at i s" and st: "race_step env s t"
  shows "ring_at i t"
  using st
proof cases
  case (body us c vs m d)
  obtain d' where f: "write_body env (heap s) (device s) (bytes c) (add_block c) (data_block c) (tmp_block c) = Inr (heap s, d')"
      "\<not> partial d'"
    by (rule write_body_spec [OF inv body(2,3)])
  have b: "seek d = seek (device s) \<and> in_offs (buffer d) = next_offs (in_offs (buffer (device s)))"
    by (rule write_body_ring [OF body(4)]) (use f inv body(4) in \<open>auto simp: race_inv_def\<close>)
  have "unat (in_offs (buffer (device s))) < 10"
    using inv cb_invD(2) [OF dev_invD(2)] by (auto simp: race_inv_def MAXW_eq)
  then show ?thesis
    using b r body(1) by (simp add: ring_at_def unat_next_offs MAXW_eq mod_Suc)
qed (use r in \<open>simp_all add: ring_at_def\<close>)

lemma crowd_inv_writer:
  assumes env: "kernel_ok env" and inv: "crowd_inv i ls s" and st: "race_step env (shared s) r"
  shows "crowd_inv i ls (s\<lparr>shared := r\<rparr>)"
proof -
  have I: "race_inv (locked_readers (readers s)) ls (shared s)" "ring_at i (shared s)"
      "reading (told i ls (stored_bytes (shared s))) (low_at ls (stored_bytes (shared s))) (length (stored_bytes (shared s))) s"
    using inv by (simp_all add: crowd_inv_def)
  obtain x where x: "stored_bytes r = stored_bytes (shared s) @ x" using race_step_stored [OF st] by blast
  have r: "race_inv (locked_readers (readers s)) ls r" by (rule race_inv_step [OF env I(1) st])
  have "reading (told i ls (stored_bytes r)) (low_at ls (stored_bytes r)) (length (stored_bytes r)) (s\<lparr>shared := r\<rparr>)"
    by (rule reading_shared [OF I(3), where r = r])
      (use race_step_private [OF I(1) env st] r told_append in \<open>auto simp: x race_inv_calm\<close>)
  then show ?thesis using r ring_at_step [OF I(1,2) st] by (simp add: crowd_inv_def)
qed

section \<open>The readers' steps\<close>

text \<open>The device now, as the specification names it.\<close>

lemma crowd_now:
  assumes inv: "crowd_inv i ls s"
  defines "r \<equiv> shared s"
  shows "dev_inv (heap r) (device r)" and "\<not> seek (device r)"
    and "lines (heap r) (device r) = snapshot ls (stored_bytes r) (length (stored_bytes r))"
    and "run_bytes (wrap_at (buffer (device r))) (lines (heap r) (device r)) n pos =
      served i ls (stored_bytes r) (length (stored_bytes r)) n pos"
proof -
  show d: "dev_inv (heap r) (device r)" using inv by (simp add: crowd_inv_def race_inv_def r_def)
  show l: "lines (heap r) (device r) = snapshot ls (stored_bytes r) (length (stored_bytes r))"
    using inv by (simp add: crowd_inv_def race_inv_def r_def snapshot_def MAXW_eq)
  show "\<not> seek (device r)" using inv by (simp add: crowd_inv_def ring_at_def r_def)
  show "run_bytes (wrap_at (buffer (device r))) (lines (heap r) (device r)) n pos =
      served i ls (stored_bytes r) (length (stored_bytes r)) n pos"
    using inv unfolding served_def l [symmetric] wrap_at_of [OF d] by (simp add: crowd_inv_def ring_at_def r_def)
qed

lemma crowd_truthful:
  assumes inv: "crowd_inv i ls s"
  shows "truthful (told i ls (stored_bytes (shared s))) (low_at ls (stored_bytes (shared s))) (length (stored_bytes (shared s))) (shared s)"
proof -
  note now = crowd_now [OF inv]
  show ?thesis using now(2) content_small [OF now(1)]
    by (auto simp: truthful_def low_at_def told_def read_of_def now(3) [symmetric] now(4))
qed

lemma crowd_inv_reader:
  assumes env: "kernel_ok env" and inv: "crowd_inv i ls s"
    and st: "reader_step env (length (stored_bytes (shared s))) s t"
  shows "crowd_inv i ls t"
proof -
  have I: "race_inv (locked_readers (readers s)) ls (shared s)" "ring_at i (shared s)"
      "reading (told i ls (stored_bytes (shared s))) (low_at ls (stored_bytes (shared s))) (length (stored_bytes (shared s))) s"
    using inv by (simp_all add: crowd_inv_def)
  note r = reader_step_reading [OF env I(3) crowd_truthful [OF inv] st]
  show ?thesis using r I(1,2) by (auto simp: crowd_inv_def race_inv_calm undisturbed_def ring_at_def reading_def)
qed

text \<open>The last step of a reader, and what it returns.\<close>

lemma crowd_inv_end:
  assumes inv: "crowd_inv i ls s" and c: "readers s = us @ c # vs" "rstage c = Stored"
  obtains m p ret user where
    "read_finish (heap (shared s)) sz (buf_block c) (off_block c) (want c) (pos_at c) (got c) =
      Inr (m, p, ret, user)"
    and "sz = total_size (buffer (device (shared s))) \<Longrightarrow>
      ret = (if length (concat (lines (heap (shared s)) (device (shared s)))) \<le> unat (pos_at c) then 0 else int (unat (got c)))"
    and "unat (got c) \<le> length user"
proof -
  let ?st = "stored_bytes (shared s)"
  have I: "reading (told i ls ?st) (low_at ls ?st) (length ?st) s" using inv by (simp add: crowd_inv_def)
  have e: "low_at ls ?st (length ?st) = low_of (lines (heap (shared s)) (device (shared s)))"
    using crowd_truthful [OF inv] by (simp add: truthful_def)
  have "unat (pos_at c) < 2 ^ 63"
    using I c by (auto simp: reading_def readers_ok_def rcall_ok_def told_def)
  note b = read_body_end [OF crowd_now(1) [OF inv] this]
  obtain m p ret user where "read_finish (heap (shared s)) sz (buf_block c) (off_block c) (want c) (pos_at c) (got c) =
      Inr (m, p, ret, user)"
    "ret = (if sint (pos_at c) < sint sz then int (unat (got c)) else 0)"
    "unat (got c) \<le> length user"
    by (rule reading_end [OF I e c, where sz = sz])
  then show thesis using that b by (simp add: not_le [symmetric] if_not_P split: if_splits)
qed

lemma crowd_inv_step: "kernel_ok env \<Longrightarrow> crowd_inv i ls s \<Longrightarrow> crowd_step env s t \<Longrightarrow> crowd_inv i ls t"
  by (erule crowd_stepE) (auto intro: crowd_inv_writer crowd_inv_reader)

lemma crowd_inv_start:
  assumes "dev_inv m d" and "slots_sane (buffer d)" and "\<not> partial d" and "\<not> mutex d" and "\<not> seek d"
  shows "crowd_inv (unat (in_offs (buffer d))) (lines m d) (start_crowd m d)"
proof -
  have "unat (in_offs (buffer d)) < 10" using cb_invD(2) [OF dev_invD(2) [OF assms(1)]] by (simp add: MAXW_eq)
  then show ?thesis
    using race_inv_start [OF assms(1-4)] assms(5)
    by (simp add: crowd_inv_def start_crowd_def locked_readers_def reading_start race_inv_calm ring_at_def start_race_def)
qed

interpretation readers_and_writers: invariant_system
  "\<lambda>s. \<exists>m d. dev_inv m d \<and> slots_sane (buffer d) \<and> \<not> partial d \<and> \<not> mutex d \<and> \<not> seek d \<and> lines m d = ls \<and>
    unat (in_offs (buffer d)) = i \<and> kernel_ok env \<and> s = start_crowd m d"
  "crowd_step env" "\<lambda>s. crowd_inv i ls s \<and> kernel_ok env" for env i ls
  by unfold_locales (auto intro: crowd_inv_start crowd_inv_step)

section \<open>Every call can return\<close>

text \<open>Steps left for the calls in flight, writers and readers; a reader has one more to make.\<close>

definition reader_work :: "rcall \<Rightarrow> nat" where
  "reader_work c = 2 * stage_work (rstage c) - (if leaving c then 1 else 0)"

definition crowd_work :: "crowd \<Rightarrow> nat" where
  "crowd_work s = race_work (shared s) + sum_list (map reader_work (readers s))"

lemma race_inv_holder: "race_inv (Suc k) ls s \<Longrightarrow> mutex (device s)"
  by (simp add: race_inv_def split: if_splits)

lemma crowd_body_safe:
  assumes env: "kernel_ok env" and inv: "crowd_inv i ls s" and c: "readers s = us @ c # vs" "rstage c = Locked"
    and safe: "safe_read (shared s) c"
  obtains m d x where "read_body env (heap (shared s)) (device (shared s)) (buf_block c) (want c) (pos_at c) = Inr (m, d, x)"
proof -
  let ?st = "stored_bytes (shared s)"
  have I: "reading (told i ls ?st) (low_at ls ?st) (length ?st) s" using inv by (simp add: crowd_inv_def)
  show thesis by (rule read_body_safe [OF env I c crowd_now(2) [OF inv] safe]) (rule that)
qed

lemma crowd_progress:
  assumes env: "kernel_ok env" and inv: "crowd_inv i ls s" and some: "calls (shared s) \<noteq> [] \<or> readers s \<noteq> []"
    and safe: "\<forall>c \<in> set (readers s). safe_read (shared s) c"
  shows "\<exists>t. crowd_step env s t \<and> crowd_work t < crowd_work s"
proof -
  let ?r = "shared s"
  have I: "race_inv (locked_readers (readers s)) ls ?r" using inv by (simp add: crowd_inv_def)
  consider (locked) us c vs where "readers s = us @ c # vs" "rstage c = Locked"
    | (writer) "locked_readers (readers s) = 0" "calls ?r \<noteq> []"
    | (reader) c vs where "readers s = [] @ c # vs" "rstage c \<noteq> Locked" "\<not> mutex (device ?r)"
  proof (cases "locked_readers (readers s) = 0")
    case True
    show thesis
    proof (cases "calls ?r = []")
      case calls: True
      then have "\<not> mutex (device ?r)" using I True by (auto simp: race_inv_def split: if_splits)
      moreover obtain c vs where "readers s = c # vs" using some calls by (cases "readers s") auto
      ultimately show thesis using reader True by (auto simp: locked_readers_def split: if_splits)
    qed (use True writer in blast)
  next
    case False
    then obtain c where "c \<in> set (readers s)" "rstage c = Locked" by (auto simp: locked_readers_def filter_empty_conv)
    then show thesis using locked by (metis split_list)
  qed
  then show ?thesis
  proof cases
    case locked
    obtain m d x where b: "read_body env (heap ?r) (device ?r) (buf_block c) (want c) (pos_at c) = Inr (m, d, x)"
      by (rule crowd_body_safe [OF env inv locked]) (use safe locked in auto)
    show ?thesis
    proof (cases x)
      case None
      show ?thesis
        by (intro exI conjI, rule crowd_step.reader, rule reader_step.r_nothing [OF locked b [unfolded None]])
          (simp add: crowd_work_def race_work_def reader_work_def locked)
    next
      case (Some y)
      obtain b' p n where y: "y = (b', p, n)" by (cases y) auto
      show ?thesis
        by (intro exI conjI, rule crowd_step.reader, rule reader_step.r_body [OF locked b [unfolded Some y]])
          (simp add: crowd_work_def race_work_def reader_work_def locked)
    qed
  next
    case writer
    obtain t where t: "race_step env ?r t" "race_work t < race_work ?r"
      using race_progress [of ls ?r env] I writer by auto
    then show ?thesis
      using crowd_step.writer [OF t(1)] by (intro exI [of _ "s\<lparr>shared := t\<rparr>"]) (simp add: crowd_work_def)
  next
    case reader
    consider "rstage c = Prepared" | "rstage c = Unlocked" | "rstage c = Stored" "\<not> leaving c" | "rstage c = Stored" "leaving c"
      using reader(2) by (cases "rstage c"; cases "leaving c") auto
    then show ?thesis
    proof cases
      case 1
      show ?thesis
        by (intro exI conjI, rule crowd_step.reader, rule reader_step.r_pass [OF reader(1) 1 reader(3)])
          (simp add: crowd_work_def reader_work_def reader(1) 1)
    next
      case 2
      show ?thesis
        by (intro exI conjI, rule crowd_step.reader, rule reader_step.r_lock [OF reader(1) 2 reader(3)])
          (simp add: crowd_work_def race_work_def reader_work_def reader(1) 2)
    next
      case 3
      show ?thesis
        by (intro exI conjI, rule crowd_step.reader, rule reader_step.r_leave [OF reader(1) 3 reader(3)])
          (simp add: crowd_work_def reader_work_def reader(1) 3)
    next
      case 4
      let ?sz = "total_size (buffer (device ?r))"
      have seen: "size_seen ?r ?sz" by (simp add: size_seen_def)
      obtain m p ret user where f:
        "read_finish (heap ?r) ?sz (buf_block c) (off_block c) (want c) (pos_at c) (got c) = Inr (m, p, ret, user)"
        by (rule crowd_inv_end [OF inv reader(1) 4(1), where sz = ?sz])
      show ?thesis
        by (intro exI conjI, rule crowd_step.reader, rule reader_step.r_end [OF reader(1) 4 seen f])
          (simp_all add: crowd_work_def race_work_def reader_work_def reader(1) 4)
    qed
  qed
qed

text \<open>One writer from its start to its return, while everyone else waits.\<close>

lemma solo_write:
  assumes env: "kernel_ok env" and inv: "race_inv 0 ls s" and free: "\<not> mutex (device s)" and l: "whole_line l"
  obtains t where "(race_step env)\<^sup>*\<^sup>* s t" and "race_inv 0 ls t" and "\<not> mutex (device t)"
    and "stored_bytes t = stored_bytes s @ [l]" and "calls t = calls s"
proof -
  obtain m e x p where w: "write_prepare env (heap s) (device s) l = Inr (m, Ref e, Ref x, p)"
    by (rule write_prepare_spec [of "heap s" "device s" env l])
      (use inv env l in \<open>auto simp: race_inv_def whole_line_def\<close>)
  let ?c = "\<lparr>bytes = l, add_block = Ref e, data_block = Ref x, tmp_block = p, stage = Prepared\<rparr>"
  let ?s1 = "s\<lparr>heap := m, calls := calls s @ [?c]\<rparr>"
  let ?s2 = "?s1\<lparr>calls := calls s @ ?c\<lparr>stage := Unlocked\<rparr> # []\<rparr>"
  let ?s3 = "?s2\<lparr>calls := calls s @ ?c\<lparr>stage := Locked\<rparr> # [], device := (device s)\<lparr>mutex := True\<rparr>\<rparr>"
  have 1: "race_step env s ?s1" by (rule race_step.enter [OF l w])
  have 2: "race_step env ?s1 ?s2"
    using race_step.pass [of ?s1 "calls s" ?c "[]" env] free by simp
  have 3: "race_step env ?s2 ?s3"
    using race_step.lock [of ?s2 "calls s" "?c\<lparr>stage := Unlocked\<rparr>" "[]" env] free by simp
  have i3: "race_inv 0 ls ?s3" using race_inv_step [OF env] inv 1 2 3 by blast
  obtain d where b: "write_body env (heap ?s3) (device ?s3) l (Ref e) (Ref x) p = Inr (heap ?s3, d)"
    using write_body_spec [OF i3, of "calls s" "?c\<lparr>stage := Locked\<rparr>" "[]" env] by auto
  let ?s4 = "?s3\<lparr>calls := calls s @ ?c\<lparr>stage := Stored\<rparr> # [], heap := m, device := d\<lparr>mutex := False\<rparr>,
      stored_bytes := stored_bytes s @ [l]\<rparr>"
  have 4: "race_step env ?s3 ?s4"
    using race_step.body [of ?s3 "calls s" "?c\<lparr>stage := Locked\<rparr>" "[]" env m d] b by simp
  have i4: "race_inv 0 ls ?s4" by (rule race_inv_step [OF env i3 4])
  obtain m' where k: "kfree (heap ?s4) p = Inr m'"
    using race_inv_end [OF i4, of "calls s" "?c\<lparr>stage := Stored\<rparr>" "[]"] by auto
  let ?s5 = "?s4\<lparr>calls := calls s, heap := m', returned := returned s @ [(l, sint (of_nat (length l) :: u64), True)]\<rparr>"
  have 5: "race_step env ?s4 ?s5"
    using race_step.end_ok [of ?s4 "calls s" "?c\<lparr>stage := Stored\<rparr>" "[]" m' env] k by simp
  have "(race_step env)\<^sup>*\<^sup>* s ?s5" using 1 2 3 4 5 by (meson rtranclp.rtrancl_into_rtrancl rtranclp.rtrancl_refl)
  then show thesis by (rule that) (use race_inv_step [OF env i4 5] in simp_all)
qed

lemma crowd_race_steps: "(race_step env)\<^sup>*\<^sup>* r t \<Longrightarrow> shared s = r \<Longrightarrow> (crowd_step env)\<^sup>*\<^sup>* s (s\<lparr>shared := t\<rparr>)"
proof (induction rule: rtranclp_induct)
  case (step t u)
  have "crowd_step env (s\<lparr>shared := t\<rparr>) (s\<lparr>shared := t\<rparr>\<lparr>shared := u\<rparr>)" by (rule crowd_step.writer) (use step(2) in simp)
  then show ?case using step by (simp add: rtranclp.rtrancl_into_rtrancl)
qed auto

lemma crowd_writes:
  assumes env: "kernel_ok env" and "crowd_inv i ls s" and "\<not> mutex (device (shared s))" and "\<forall>l \<in> set bs. whole_line l"
  shows "\<exists>t. (crowd_step env)\<^sup>*\<^sup>* s t \<and> crowd_inv i ls t \<and> \<not> mutex (device (shared t)) \<and>
    stored_bytes (shared t) = stored_bytes (shared s) @ bs \<and> readers t = readers s \<and> answers t = answers s"
  using assms(2-)
proof (induction bs arbitrary: s)
  case (Cons l bs)
  have I: "race_inv (locked_readers (readers s)) ls (shared s)" using Cons.prems by (simp add: crowd_inv_def)
  then have "race_inv 0 ls (shared s)" using Cons.prems(2) race_inv_holder by (cases "locked_readers (readers s)") auto
  then obtain r where r: "(race_step env)\<^sup>*\<^sup>* (shared s) r" "race_inv 0 ls r" "\<not> mutex (device r)"
      "stored_bytes r = stored_bytes (shared s) @ [l]" "calls r = calls (shared s)"
    by (rule solo_write [OF env]) (use Cons.prems in auto)
  let ?s = "s\<lparr>shared := r\<rparr>"
  have st: "(crowd_step env)\<^sup>*\<^sup>* s ?s" by (rule crowd_race_steps [OF r(1) refl])
  then have "crowd_inv i ls ?s" using readers_and_writers.inv_steps [OF st] Cons.prems(1) env by blast
  then obtain t where "(crowd_step env)\<^sup>*\<^sup>* ?s t" "crowd_inv i ls t" "\<not> mutex (device (shared t))"
      "stored_bytes (shared t) = stored_bytes r @ bs" "readers t = readers s" "answers t = answers s"
    using Cons.IH [of ?s] Cons.prems(3) r(3) by auto
  then show ?case using st r(4) by (intro exI [of _ t]) auto
qed auto

text \<open>A reader up to the release of the mutex.\<close>

lemma solo_read:
  assumes env: "kernel_ok env" and inv: "crowd_inv i ls s" and free: "\<not> mutex (device (shared s))"
    and n: "unat n < 2 ^ 31" "unat pos < length (concat (lines (heap (shared s)) (device (shared s))))"
      "pos = 0 \<or> length (concat (lines (heap (shared s)) (device (shared s)))) < unat n"
  obtains t c where "(crowd_step env)\<^sup>*\<^sup>* s t" and "crowd_inv i ls t" and "\<not> mutex (device (shared t))"
    and "readers t = readers s @ c # []" and "rstage c = Stored" and "pos_at c = pos" and "want c = n"
    and "stored_bytes (shared t) = stored_bytes (shared s)" and "answers t = answers s"
proof -
  let ?ls = "lines (heap (shared s)) (device (shared s))" and ?now = "length (stored_bytes (shared s))"
  have dev: "dev_inv (heap (shared s)) (device (shared s))" by (rule crowd_now(1) [OF inv])
  have pos: "unat pos < 2 ^ 63" using n(2) content_small [OF dev] by simp
  have lift: "crowd_step env (s\<lparr>shared := r, readers := rs\<rparr>) v"
    if "stored_bytes r = stored_bytes (shared s)" "reader_step env ?now (s\<lparr>shared := r, readers := rs\<rparr>) v" for r rs v
    using crowd_step.reader [of env "s\<lparr>shared := r, readers := rs\<rparr>" v] that by simp
  obtain m c where l: "(crowd_step env)\<^sup>*\<^sup>* s (s\<lparr>shared := (shared s)\<lparr>heap := m, device := (device (shared s))\<lparr>mutex := True\<rparr>\<rparr>,
      readers := readers s @ c # []\<rparr>)" "rstage c = Locked" "want c = n" "pos_at c = pos"
    by (rule reader_locks [OF _ free n(1) pos, where R = "crowd_step env"]) (use lift in blast)+
  let ?s3 = "s\<lparr>shared := (shared s)\<lparr>heap := m, device := (device (shared s))\<lparr>mutex := True\<rparr>\<rparr>, readers := readers s @ c # []\<rparr>"
  have i3: "crowd_inv i ls ?s3" using readers_and_writers.inv_steps [OF l(1)] inv env by blast
  have ls: "lines (heap (shared ?s3)) (device (shared ?s3)) = ?ls"
    unfolding crowd_now(3) [OF i3] crowd_now(3) [OF inv] by simp
  have safe: "safe_read (shared ?s3) c" unfolding safe_read_def ls using n(3) l(3,4) by simp
  obtain m' d x where b: "read_body env (heap (shared ?s3)) (device (shared ?s3)) (buf_block c) (want c) (pos_at c) = Inr (m', d, x)"
    using crowd_body_safe [OF env i3 _ l(2) safe, of "readers s" "[]"] by auto
  have d: "dev_inv (heap (shared ?s3)) (device (shared ?s3))" by (rule crowd_now(1) [OF i3])
  have "x \<noteq> None"
  proof
    assume "x = None"
    then have "sint (total_size (buffer (device (shared ?s3)))) \<le> sint pos"
      using read_body_None [OF b [unfolded \<open>x = None\<close>]] l(4) by simp
    then show False using read_body_end [OF d pos, unfolded ls] n(2) by linarith
  qed
  then obtain o' p' g where x: "x = Some (o', p', g)" by (cases x) auto
  let ?c = "c\<lparr>rstage := Stored, off_block := o', pos_at := p', got := g, seen := ?now\<rparr>"
  let ?s4 = "?s3\<lparr>shared := (shared ?s3)\<lparr>heap := m', device := d\<lparr>mutex := False\<rparr>\<rparr>, readers := readers s @ ?c # []\<rparr>"
  have 4: "crowd_step env ?s3 ?s4"
    using crowd_step.reader [OF reader_step.r_body [OF _ l(2) b [unfolded x], of "readers s" "[]"]] by simp
  have p': "p' = pos" using b crowd_now(2) [OF i3] l(4) unfolding x by (auto simp: read_body_def Let_def split: if_splits prod.splits)
  have st: "(crowd_step env)\<^sup>*\<^sup>* s ?s4" using l(1) 4 by (rule rtranclp.rtrancl_into_rtrancl)
  show thesis by (rule that [of _ ?c, OF st crowd_inv_step [OF env i3 4]]) (simp_all add: p' l(3))
qed

text \<open>A reader that has released the mutex, up to its last look and past it.\<close>

lemma crowd_leave:
  assumes env: "kernel_ok env" and inv: "crowd_inv i ls s" and free: "\<not> mutex (device (shared s))"
    and c: "readers s = us @ c # vs" "rstage c = Stored"
  defines "t \<equiv> s\<lparr>readers := us @ c\<lparr>leaving := True\<rparr> # vs\<rparr>"
  shows "(crowd_step env)\<^sup>*\<^sup>* s t" and "crowd_inv i ls t"
proof -
  show st: "(crowd_step env)\<^sup>*\<^sup>* s t"
  proof (cases "leaving c")
    case True
    then have "c\<lparr>leaving := True\<rparr> = c" by simp
    then have "t = s" unfolding t_def by (simp add: c(1) [symmetric])
    then show ?thesis by simp
  next
    case False
    show ?thesis
      unfolding t_def by (rule r_into_rtranclp, rule crowd_step.reader, rule reader_step.r_leave [OF c False free])
  qed
  show "crowd_inv i ls t" using readers_and_writers.inv_steps [OF st] inv env by blast
qed

lemma crowd_end:
  assumes env: "kernel_ok env" and inv: "crowd_inv i ls s" and c: "readers s = us @ c # vs" "rstage c = Stored" "leaving c"
  obtains t a where "crowd_step env s t" and "readers t = us @ vs" and "answers t = answers s @ [a]"
    and "a_ret a = (if length (concat (lines (heap (shared s)) (device (shared s)))) \<le> unat (pos_at c) then 0 else int (unat (got c)))"
    and "unat (got c) \<le> length (a_user a)" and "a_want a = want c" and "a_pos a = pos_at c"
    and "stored_bytes (shared t) = stored_bytes (shared s)"
proof -
  let ?sz = "total_size (buffer (device (shared s)))"
  have seen: "size_seen (shared s) ?sz" by (simp add: size_seen_def)
  obtain m p ret user where f:
    "read_finish (heap (shared s)) ?sz (buf_block c) (off_block c) (want c) (pos_at c) (got c) = Inr (m, p, ret, user)"
    "ret = (if length (concat (lines (heap (shared s)) (device (shared s)))) \<le> unat (pos_at c) then 0 else int (unat (got c)))"
    "unat (got c) \<le> length user"
    by (rule crowd_inv_end [OF inv c(1,2), where sz = ?sz]) simp
  show thesis
    by (rule that [of _ "answer_of c ret user", OF crowd_step.reader [OF reader_step.r_end [OF c seen f(1)]]]) (use f(2,3) in simp_all)
qed

section \<open>Properties\<close>

text \<open>
  C8. Readers and writers at the same time, in any order of their steps. The device always holds
  the last ten of what it held and the lines stored, at most one call is at work under the mutex,
  and every read that returns has either failed with -ENOMEM, or delivered exactly what one
  undisturbed read would have got from the device at one moment between its start and its
  return, or returned 0 because the size it saw when it looked again, without the mutex, was not
  above its position. That is the size of what the device then held, or while a writer is at work
  on ten lines the size without the oldest of them. Slots not held are to show no garbage for a
  size at the start.
\<close>

theorem concurrent_readers_and_writers:
  assumes "kernel_ok env" and "dev_inv m d" and "slots_sane (buffer d)" and "\<not> partial d" and "\<not> mutex d" and "\<not> seek d"
    and "(crowd_step env)\<^sup>*\<^sup>* (start_crowd m d) s"
  shows "dev_inv (heap (shared s)) (device (shared s)) \<and>
    lines (heap (shared s)) (device (shared s)) = lastn 10 (lines m d @ stored_bytes (shared s)) \<and>
    length (filter (\<lambda>c. stage c = Locked) (calls (shared s))) + length (filter (\<lambda>c. rstage c = Locked) (readers s)) \<le> 1 \<and>
    (\<forall>a \<in> set (answers s). answer_ok (unat (in_offs (buffer d))) (lines m d) (stored_bytes (shared s)) a)"
proof -
  have i: "crowd_inv (unat (in_offs (buffer d))) (lines m d) s"
    using readers_and_writers.inv_reachable [of "lines m d" "unat (in_offs (buffer d))" env "start_crowd m d" s] assms by blast
  then show ?thesis by (auto simp: crowd_inv_def race_inv_def locked_readers_def MAXW_eq reading_def answered_ok)
qed

lemma crowd_start_demo: "crowd_inv 2 [[97, 98, 10], [99, 10]] (start_crowd demo_mem demo_dev)"
proof -
  have "unat (in_offs (buffer demo_dev)) = 2" by (simp add: demo_dev_def demo_two_def)
  then show ?thesis using crowd_inv_start [OF demo_inv] by (simp add: demo_lines)
qed

text \<open>A reader of the demo device gets both lines.\<close>

theorem concurrent_readers_and_writers_witness:
  "\<exists>s a. (crowd_step demo_env)\<^sup>*\<^sup>* (start_crowd demo_mem demo_dev) s \<and> answers s = [a] \<and> a_ret a = 5 \<and>
    take 5 (a_user a) = [97, 98, 10, 99, 10]"
proof -
  let ?s = "start_crowd demo_mem demo_dev" and ?ls = "[[97, 98, 10], [99, 10]] :: u8 list list"
  have f: "slots_sane (buffer demo_dev)" "\<not> partial demo_dev" "\<not> mutex demo_dev" "\<not> seek demo_dev" by simp_all
  have s: "\<not> mutex (device (shared ?s))" "lines (heap (shared ?s)) (device (shared ?s)) = ?ls"
      "stored_bytes (shared ?s) = []" "readers ?s = []" "answers ?s = []"
    by (simp_all add: start_crowd_def start_race_def demo_lines)
  obtain t c where t: "(crowd_step demo_env)\<^sup>*\<^sup>* ?s t" "crowd_inv 2 ?ls t" "\<not> mutex (device (shared t))"
      "readers t = [] @ c # []" "rstage c = Stored" "pos_at c = 0" "want c = 100"
      "stored_bytes (shared t) = []" "answers t = []"
    by (rule solo_read [OF demo_kernel_ok crowd_start_demo s(1), of 100 0]) (use s in auto)
  let ?t = "t\<lparr>readers := [] @ c\<lparr>leaving := True\<rparr> # []\<rparr>"
  note l = crowd_leave [OF demo_kernel_ok t(2,3,4,5)]
  obtain u a where e: "crowd_step demo_env ?t u" "answers u = [a]"
      "a_ret a = (if length (concat (lines (heap (shared t)) (device (shared t)))) \<le> unat (pos_at c) then 0 else int (unat (got c)))"
      "a_want a = want c" "a_pos a = pos_at c" "stored_bytes (shared u) = []"
    by (rule crowd_end [OF demo_kernel_ok l(2), of "[]" "c\<lparr>leaving := True\<rparr>" "[]"]) (use t(5,8,9) in simp_all)
  have st: "(crowd_step demo_env)\<^sup>*\<^sup>* ?s u" using t(1) l(1) e(1) by (meson rtranclp_trans rtranclp.rtrancl_into_rtrancl)
  have "unat (in_offs (buffer demo_dev)) = 2" by (simp add: demo_dev_def demo_two_def)
  then have "answer_ok 2 ?ls [] a"
    using concurrent_readers_and_writers [OF demo_kernel_ok demo_inv f st] e(2,6) by (simp add: demo_lines)
  moreover have "0 \<le> a_ret a" using e(3) by simp
  then have "a_ret a \<noteq> - ENOMEM" by (simp add: ENOMEM_def)
  moreover have "served 2 ?ls [] 0 100 0 = [97, 98, 10, 99, 10]"
    by (simp add: served_def run_bytes_def run_left_def wrap_of_def snapshot_def lastn_def)
  ultimately have "a_ret a = 5 \<and> (\<exists>rest. a_user a = [97, 98, 10, 99, 10] @ rest)"
    using t(6,7) e(4,5) by (auto simp: answer_ok_def snapshot_def lastn_def low_of_def)
  then show ?thesis using st e(2) by (intro exI [of _ u] exI [of _ a]) auto
qed

text \<open>
  C9. Nothing ever goes wrong in such a crowd, and it never gets stuck: every new call can start, the
  call under the mutex does its work without a fault, a call that has done it can return, and
  while calls are in flight some step brings one of them nearer to its return. The reads are
  those that start at position 0 or ask for more than the device holds.
\<close>

theorem crowd_never_stuck:
  assumes "kernel_ok env" and "dev_inv m d" and "slots_sane (buffer d)" and "\<not> partial d" and "\<not> mutex d" and "\<not> seek d"
    and "(crowd_step env)\<^sup>*\<^sup>* (start_crowd m d) s"
  shows "(\<forall>l. whole_line l \<longrightarrow> (\<exists>r. write_prepare env (heap (shared s)) (device (shared s)) l = Inr r)) \<and>
    (\<forall>c \<in> set (calls (shared s)).
      (stage c = Locked \<longrightarrow> (\<exists>r. write_body env (heap (shared s)) (device (shared s))
        (bytes c) (add_block c) (data_block c) (tmp_block c) = Inr r)) \<and>
      (stage c = Stored \<longrightarrow> (\<exists>m'. kfree (heap (shared s)) (tmp_block c) = Inr m'))) \<and>
    (\<forall>c \<in> set (readers s).
      (rstage c = Locked \<longrightarrow> safe_read (shared s) c \<longrightarrow>
        (\<exists>r. read_body env (heap (shared s)) (device (shared s)) (buf_block c) (want c) (pos_at c) = Inr r)) \<and>
      (rstage c = Stored \<longrightarrow>
        (\<forall>sz. \<exists>r. read_finish (heap (shared s)) sz (buf_block c) (off_block c) (want c) (pos_at c) (got c) = Inr r))) \<and>
    ((calls (shared s) \<noteq> [] \<or> readers s \<noteq> []) \<longrightarrow> (\<forall>c \<in> set (readers s). safe_read (shared s) c) \<longrightarrow>
      (\<exists>t. crowd_step env s t \<and> crowd_work t < crowd_work s))"
proof -
  let ?r = "shared s" and ?i = "unat (in_offs (buffer d))" and ?ls = "lines m d"
  have i: "crowd_inv ?i ?ls s"
    using readers_and_writers.inv_reachable [of ?ls ?i env "start_crowd m d" s] assms by blast
  then have I: "race_inv (locked_readers (readers s)) ?ls ?r" by (simp add: crowd_inv_def)
  have "dev_inv (heap ?r) (device ?r)" using I by (simp add: race_inv_def)
  then have 1: "\<forall>l. whole_line l \<longrightarrow> (\<exists>r. write_prepare env (heap ?r) (device ?r) l = Inr r)"
    using write_prepare_spec [OF _ assms(1), of "heap ?r" "device ?r"] unfolding whole_line_def by metis
  have 2: "(stage c = Locked \<longrightarrow> (\<exists>r. write_body env (heap ?r) (device ?r) (bytes c) (add_block c) (data_block c) (tmp_block c) = Inr r)) \<and>
      (stage c = Stored \<longrightarrow> (\<exists>m'. kfree (heap ?r) (tmp_block c) = Inr m'))" if "c \<in> set (calls ?r)" for c
  proof -
    obtain us vs where c: "calls ?r = us @ c # vs" using \<open>c \<in> set (calls ?r)\<close> by (metis split_list)
    show ?thesis using write_body_spec [OF I c] race_inv_end [OF I c] by metis
  qed
  have 3: "(rstage c = Locked \<longrightarrow> safe_read ?r c \<longrightarrow> (\<exists>r. read_body env (heap ?r) (device ?r) (buf_block c) (want c) (pos_at c) = Inr r)) \<and>
      (rstage c = Stored \<longrightarrow> (\<forall>sz. \<exists>r. read_finish (heap ?r) sz (buf_block c) (off_block c) (want c) (pos_at c) (got c) = Inr r))"
    if "c \<in> set (readers s)" for c
  proof -
    obtain us vs where c: "readers s = us @ c # vs" using \<open>c \<in> set (readers s)\<close> by (metis split_list)
    show ?thesis using crowd_body_safe [OF assms(1) i c] crowd_inv_end [OF i c] by metis
  qed
  show ?thesis using 1 2 3 crowd_progress [OF assms(1) i] by blast
qed

text \<open>
  C10. The last look at the device, without the mutex, loses data: a read that has copied bytes and
  released the mutex answers 0, which a client takes for the end of the file, if writers get in
  between that leave less content than its position.
\<close>

theorem read_answers_nothing_after_eviction:
  assumes "kernel_ok env" and "dev_inv m d" and "slots_sane (buffer d)" and "\<not> partial d" and "\<not> mutex d" and "\<not> seek d"
    and "(crowd_step env)\<^sup>*\<^sup>* (start_crowd m d) s"
    and c: "readers s = us @ c # vs" "rstage c = Stored" and free: "\<not> mutex (device (shared s))"
    and bs: "\<forall>l \<in> set bs. whole_line l"
      "length (concat (lastn 10 (lines (heap (shared s)) (device (shared s)) @ bs))) \<le> unat (pos_at c)"
  shows "\<exists>t a. (crowd_step env)\<^sup>*\<^sup>* s t \<and> readers t = us @ vs \<and> answers t = answers s @ [a] \<and>
    a_ret a = 0 \<and> unat (got c) \<le> length (a_user a)"
proof -
  let ?i = "unat (in_offs (buffer d))" and ?ls = "lines m d"
  have i: "crowd_inv ?i ?ls s"
    using readers_and_writers.inv_reachable [of ?ls ?i env "start_crowd m d" s] assms by blast
  let ?c = "c\<lparr>leaving := True\<rparr>"
  let ?s = "s\<lparr>readers := us @ ?c # vs\<rparr>"
  note l = crowd_leave [OF assms(1) i free c]
  have free': "\<not> mutex (device (shared ?s))" using free by simp
  obtain t where t: "(crowd_step env)\<^sup>*\<^sup>* ?s t" "crowd_inv ?i ?ls t" "\<not> mutex (device (shared t))"
      "stored_bytes (shared t) = stored_bytes (shared s) @ bs" "readers t = us @ ?c # vs" "answers t = answers s"
    using crowd_writes [OF assms(1) l(2) free' bs(1)] by auto
  let ?r = "shared t"
  have cc: "rstage ?c = Stored" "leaving ?c" using c(2) by simp_all
  have ln: "lines (heap ?r) (device ?r) = lastn 10 (lines (heap (shared s)) (device (shared s)) @ bs)"
    using crowd_now(3) [OF i] crowd_now(3) [OF t(2)] t(4) by (simp add: snapshot_def lastn_lastn_append)
  obtain u a where e: "crowd_step env t u" "readers u = us @ vs" "answers u = answers t @ [a]"
    "a_ret a = (if length (concat (lines (heap ?r) (device ?r))) \<le> unat (pos_at ?c) then 0 else int (unat (got ?c)))"
    "unat (got ?c) \<le> length (a_user a)"
    by (rule crowd_end [OF assms(1) t(2,5) cc])
  have "(crowd_step env)\<^sup>*\<^sup>* s u" using l(1) t(1) e(1) by (meson rtranclp_trans rtranclp.rtrancl_into_rtrancl)
  moreover have "a_ret a = 0" using e(4) bs(2) unfolding ln by simp
  ultimately show ?thesis using e(2,3,5) t(6) by (intro exI [of _ u] exI [of _ a]) simp
qed

theorem crowd_never_stuck_witness:
  "\<exists>s t. (crowd_step demo_env)\<^sup>*\<^sup>* (start_crowd demo_mem demo_dev) s \<and> length (readers s) = 1 \<and>
    crowd_step demo_env s t \<and> crowd_work t < crowd_work s"
proof -
  let ?s = "start_crowd demo_mem demo_dev"
  have f: "slots_sane (buffer demo_dev)" "\<not> partial demo_dev" "\<not> mutex demo_dev" "\<not> seek demo_dev" by simp_all
  have s: "\<not> mutex (device (shared ?s))" "lines (heap (shared ?s)) (device (shared ?s)) = [[97, 98, 10], [99, 10]]"
      "readers ?s = []"
    by (simp_all add: start_crowd_def start_race_def demo_lines)
  obtain s c where st: "(crowd_step demo_env)\<^sup>*\<^sup>* ?s s" and r: "readers s = [c]" and p: "pos_at c = 0"
    by (rule solo_read [OF demo_kernel_ok crowd_start_demo s(1), of 100 0]) (use s in auto)
  have "\<exists>t. crowd_step demo_env s t \<and> crowd_work t < crowd_work s"
    using crowd_never_stuck [OF demo_kernel_ok demo_inv f st] r p by (simp add: safe_read_def)
  then show ?thesis using st r by (metis One_nat_def length_Cons list.size(3))
qed

text \<open>
  The full demo ring: two bytes are read at position 18, two empty lines are written, which
  leaves 18 bytes, and the read answers 0.
\<close>

theorem read_answers_nothing_after_eviction_witness:
  "\<exists>t a. (crowd_step demo_env)\<^sup>*\<^sup>* (start_crowd wrapped_mem wrapped_dev) t \<and> answers t = [a] \<and>
    a_ret a = 0 \<and> 2 \<le> length (a_user a)"
proof -
  let ?s = "start_crowd wrapped_mem wrapped_dev" and ?ls = "lines wrapped_mem wrapped_dev"
  have "full (buffer wrapped_dev)" by (simp add: wrapped_dev_def)
  note sane = full_slots_sane [OF wrapped_inv this]
  have f: "slots_sane (buffer wrapped_dev)" "\<not> partial wrapped_dev" "\<not> mutex wrapped_dev" "\<not> seek wrapped_dev"
    by (rule sane) (simp_all add: wrapped_dev_def)
  have i: "unat (in_offs (buffer wrapped_dev)) = 9" by (simp add: wrapped_dev_def)
  have s: "\<not> mutex (device (shared ?s))" "lines (heap (shared ?s)) (device (shared ?s)) = ?ls"
      "stored_bytes (shared ?s) = []" "readers ?s = []" "answers ?s = []"
    using f by (simp_all add: start_crowd_def start_race_def)
  have ci: "crowd_inv 9 ?ls ?s" using crowd_inv_start [OF wrapped_inv f] by (simp add: i)
  obtain t c where t: "(crowd_step demo_env)\<^sup>*\<^sup>* ?s t" "crowd_inv 9 ?ls t" "\<not> mutex (device (shared t))"
      "readers t = [] @ c # []" "rstage c = Stored" "pos_at c = 18" "want c = 100"
      "stored_bytes (shared t) = []" "answers t = []"
    by (rule solo_read [OF demo_kernel_ok ci s(1), of 100 18]) (use s in \<open>auto simp: wrapped_content\<close>)
  have ln: "lines (heap (shared t)) (device (shared t)) = ?ls"
    using crowd_now(3) [OF t(2)] t(8) by (simp add: snapshot_def wrapped_lines lastn_def upt_rec)
  have "rcall_ok (told 9 ?ls []) 0 (shared t) c" using t(2,4,8) by (simp add: crowd_inv_def reading_def readers_ok_def)
  then have "got c = of_nat (length (served 9 ?ls [] 0 100 18))"
    using t(5-7) by (auto simp: rcall_ok_def told_def)
  also have "served 9 ?ls [] 0 100 18 = [73, 10]"
    by (simp add: served_def run_bytes_def run_left_def wrap_of_def snapshot_def lastn_def wrapped_lines upt_rec)
  finally have g: "unat (got c) = 2" by simp
  have small: "length (concat (lastn 10 (lines (heap (shared t)) (device (shared t)) @ [[10], [10]]))) \<le> unat (pos_at c)"
    unfolding ln t(6) by (simp add: lastn_def wrapped_lines upt_rec)
  have "\<forall>l \<in> set [[10], [10]]. whole_line l" by (simp add: whole_line_def)
  then show ?thesis
    using read_answers_nothing_after_eviction [OF demo_kernel_ok wrapped_inv f t(1,4,5,3) _ small] g t(1,9)
    by (metis append_Nil rtranclp_trans)
qed

end
