(* ===== verification/Aesd_Traffic.thy ===== *)
theory Aesd_Traffic
  imports Aesd_Race_Read
begin

text \<open>
  All operations of the driver at the same time: writers, readers, and the requests of
  \<open>aesd_ioctl\<close> (seeks and flushes). Requests take no mutex. Between the pieces of the other calls
  they are steps like any other; one that comes in the middle of a piece overlaps it, and then
  nothing is promised any more. \<open>Aesd_Race_Faults\<close> has what a flush can do there.
\<close>

section \<open>The system\<close>

text \<open>
  \<open>past\<close> and \<open>overlapped\<close> are not in the code: what the device stood for after every step that may
  have changed it, as the place of the wrap and the lines held, which is the clock of the readers;
  and whether a request has run in the middle of a piece of another call, or of another request.
  That can happen at any time and leave anything behind.
\<close>

record traffic = crowd +
  overlapped :: bool
  past :: "(nat \<times> u8 list list) list"

definition standing :: "race \<Rightarrow> nat \<times> u8 list list" where
  "standing r = (wrap_at (buffer (device r)), lines (heap r) (device r))"

inductive traffic_step :: "kenv \<Rightarrow> ioc \<Rightarrow> traffic \<Rightarrow> traffic \<Rightarrow> bool" for env c where
  writer: "race_step env (shared s) r \<Longrightarrow>
    traffic_step env c s (s\<lparr>shared := r, past := past s @ [standing r]\<rparr>)"
| reader: "reader_step env (length (past s) - 1) s t \<Longrightarrow> traffic_step env c s t"
| request: "aesd_ioctl c (heap (shared s)) (device (shared s)) cmd copied = Inr (m, d, ret) \<Longrightarrow>
    r = (shared s)\<lparr>heap := m, device := d\<rparr> \<Longrightarrow>
    traffic_step env c s (s\<lparr>shared := r, past := past s @ [standing r]\<rparr>)"
| overlap: "overlapped t \<Longrightarrow> traffic_step env c s t"

inductive_cases traffic_stepE: "traffic_step env c s t"

definition start_traffic :: "kmem \<Rightarrow> aesd_dev \<Rightarrow> traffic" where
  "start_traffic m d = \<lparr>shared = start_race m d, readers = [], answers = [], overlapped = False, past = [standing (start_race m d)]\<rparr>"

lemma reader_step_past: "reader_step env now s t \<Longrightarrow> past t = past s \<and> overlapped t = overlapped s"
  by (erule reader_stepE) simp_all

text \<open>There is no way back.\<close>

lemma overlapped_step: "traffic_step env c s t \<Longrightarrow> overlapped s \<Longrightarrow> overlapped t"
  by (erule traffic_stepE) (simp_all add: reader_step_past)

section \<open>What the readers are told\<close>

definition past_tells :: "(nat \<times> u8 list list) list \<Rightarrow> tells" where
  "past_tells ps j n p bs \<longleftrightarrow> read_of (fst (ps ! j)) (snd (ps ! j)) n p bs"

definition past_low :: "(nat \<times> u8 list list) list \<Rightarrow> nat \<Rightarrow> nat" where
  "past_low ps j = low_of (snd (ps ! j))"

text \<open>
  How a device that starts as \<open>v\<close> may change while given lines are stored, in this order: not at
  all, by the next of them, which becomes the newest of ten, or by a flush.
\<close>

inductive device_history :: "nat \<times> u8 list list \<Rightarrow> (nat \<times> u8 list list) list \<Rightarrow> u8 list list \<Rightarrow> bool" for v where
  start: "device_history v [v] []"
| same: "device_history v ps st \<Longrightarrow> device_history v (ps @ [last ps]) st"
| line: "device_history v ps st \<Longrightarrow> whole_line l \<Longrightarrow> snd w = lastn 10 (snd (last ps) @ [l]) \<Longrightarrow>
    device_history v (ps @ [w]) (st @ [l])"
| flush: "device_history v ps st \<Longrightarrow> device_history v (ps @ [(0, [])]) st"

lemma history_nonempty: "device_history v ps st \<Longrightarrow> ps \<noteq> []"
  by (induction rule: device_history.induct) simp_all

definition traffic_inv :: "nat \<times> u8 list list \<Rightarrow> traffic \<Rightarrow> bool" where
  "traffic_inv v s \<longleftrightarrow> reading (past_tells (past s)) (past_low (past s)) (length (past s) - 1) s \<and>
     device_history v (past s) (stored_bytes (shared s)) \<and> last (past s) = standing (shared s) \<and> results_inv (shared s)"

lemma traffic_inv_past: "traffic_inv v s \<Longrightarrow> past s \<noteq> []"
  by (auto simp: traffic_inv_def dest: history_nonempty)

lemma past_append: "\<forall>j \<le> length ps - 1. ps \<noteq> [] \<longrightarrow>
    past_tells (ps @ x) j = past_tells ps j \<and> past_low (ps @ x) j = past_low ps j"
  by (auto simp: past_tells_def past_low_def fun_eq_iff nth_append Suc_le_eq dest: le_less_trans)

lemma past_truthful:
  assumes "traffic_inv v s"
  shows "truthful (past_tells (past s)) (past_low (past s)) (length (past s) - 1) (shared s)"
proof -
  have "past s ! (length (past s) - 1) = standing (shared s)"
    using assms last_conv_nth [OF traffic_inv_past [OF assms]] by (simp add: traffic_inv_def)
  then show ?thesis by (simp add: truthful_def past_tells_def past_low_def standing_def)
qed

section \<open>Writers\<close>

text \<open>The steps of writers do not look at what was stored before.\<close>

lemma race_step_ghost:
  assumes "race_step env s t"
  obtains x where "stored_bytes t = stored_bytes s @ x"
    and "race_step env (s\<lparr>stored_bytes := []\<rparr>) (t\<lparr>stored_bytes := x\<rparr>)"
    and "x = [] \<and> buffer (device t) = buffer (device s) \<or> (\<exists>c \<in> set (calls s). x = [bytes c])"
  using assms
proof cases
  case (enter buf m e x t')
  show thesis
    by (rule that [of "[]"]) (use enter race_step.enter [of buf env "s\<lparr>stored_bytes := []\<rparr>" m e x t'] in \<open>cases s; simp\<close>)+
next
  case (busy us c vs)
  show thesis
    by (rule that [of "[]"]) (use busy race_step.busy [of "s\<lparr>stored_bytes := []\<rparr>" us c vs env] in \<open>cases s; simp\<close>)+
next
  case (pass us c vs)
  show thesis
    by (rule that [of "[]"]) (use pass race_step.pass [of "s\<lparr>stored_bytes := []\<rparr>" us c vs env] in \<open>cases s; simp\<close>)+
next
  case (lock us c vs)
  show thesis
    by (rule that [of "[]"]) (use lock race_step.lock [of "s\<lparr>stored_bytes := []\<rparr>" us c vs env] in \<open>cases s; simp\<close>)+
next
  case (body us c vs m d)
  show thesis
    by (rule that [of "[bytes c]"])
      (use body race_step.body [of "s\<lparr>stored_bytes := []\<rparr>" us c vs env m d] in \<open>cases s; simp\<close>)+
next
  case (end_busy us c vs)
  show thesis
    by (rule that [of "[]"]) (use end_busy race_step.end_busy [of "s\<lparr>stored_bytes := []\<rparr>" us c vs env] in \<open>cases s; simp\<close>)+
next
  case (end_ok us c vs m)
  show thesis
    by (rule that [of "[]"]) (use end_ok race_step.end_ok [of "s\<lparr>stored_bytes := []\<rparr>" us c vs m env] in \<open>cases s; simp\<close>)+
qed

text \<open>What one step of a writer does to the device.\<close>

lemma calm_step:
  assumes env: "kernel_ok env" and c: "calm k s" and st: "race_step env s t"
  shows "calm k t"
    and "device_history v ps (stored_bytes s) \<Longrightarrow> last ps = standing s \<Longrightarrow> device_history v (ps @ [standing t]) (stored_bytes t)"
    and "\<forall>a. loose s a \<longrightarrow> heap s a \<noteq> None \<longrightarrow> loose t a \<and> heap t a = heap s a"
proof -
  obtain x where x: "stored_bytes t = stored_bytes s @ x"
      "race_step env (s\<lparr>stored_bytes := []\<rparr>) (t\<lparr>stored_bytes := x\<rparr>)"
      "x = [] \<and> buffer (device t) = buffer (device s) \<or> (\<exists>c \<in> set (calls s). x = [bytes c])"
    by (rule race_step_ghost [OF st])
  note r = calm_race [OF c]
  have t: "race_inv k (lines (heap s) (device s)) (t\<lparr>stored_bytes := x\<rparr>)" by (rule race_inv_step [OF env r x(2)])
  then show ct: "calm k t" by (simp add: race_inv_calm)
  have l: "lines (heap t) (device t) = lastn 10 (lines (heap s) (device s) @ x)"
    using t by (simp add: race_inv_calm MAXW_eq)
  show "device_history v (ps @ [standing t]) (stored_bytes t)"
    if h: "device_history v ps (stored_bytes s)" and ps: "last ps = standing s"
    using x(3)
  proof
    assume "x = [] \<and> buffer (device t) = buffer (device s)"
    moreover have "lastn 10 (lines (heap s) (device s)) = lines (heap s) (device s)"
      using length_entries_le [OF dev_invD(2) [OF calm_dev [OF c]]] by (simp add: lastn_short length_lines MAXW_eq)
    ultimately have "standing t = last ps" "stored_bytes t = stored_bytes s" using l x(1) ps by (simp_all add: standing_def)
    then show ?thesis using device_history.same [OF h] by simp
  next
    assume "\<exists>c \<in> set (calls s). x = [bytes c]"
    then obtain b where b: "b \<in> set (calls s)" "x = [bytes b]" by blast
    then have "whole_line (bytes b)" using c by (auto simp: calm_def call_ok_def)
    then show ?thesis unfolding x(1) b(2)
      by (rule device_history.line [OF h]) (use l b(2) ps in \<open>simp add: standing_def\<close>)
  qed
  show "\<forall>a. loose s a \<longrightarrow> heap s a \<noteq> None \<longrightarrow> loose t a \<and> heap t a = heap s a"
    using race_step_private [OF r env x(2)] by simp
qed

section \<open>Requests\<close>

text \<open>A seek leaves the lines, a flush no line, and neither touches a block that is not the device's.\<close>

lemma calm_request:
  assumes c: "calm k s" and io: "aesd_ioctl ioc (heap s) (device s) cmd copied = Inr (m, d, ret)"
  defines "t \<equiv> s\<lparr>heap := m, device := d\<rparr>"
  shows "calm k t" and "standing t = standing s \<or> standing t = (0, [])"
    and "\<forall>a. loose s a \<longrightarrow> heap s a \<noteq> None \<longrightarrow> loose t a \<and> heap t a = heap s a"
proof -
  let ?m = "heap s" and ?d = "device s"
  note I = c [unfolded calm_def]
  consider (same) "m = ?m" "d = ?d"
    | (seek) x where "m = ?m" "d = ?d\<lparr>seekto_position := x, seek := True\<rparr>"
    | (flush) "aesd_flush ?m ?d = Inr (m, d, ret)"
    using io by (auto simp: aesd_ioctl_def aesd_adjust_file_offset_def split: if_splits)
  then have "calm k t \<and> (standing t = standing s \<or> standing t = (0, [])) \<and>
    (\<forall>a. loose s a \<longrightarrow> heap s a \<noteq> None \<longrightarrow> loose t a \<and> heap t a = heap s a)"
  proof cases
    case same
    then show ?thesis using c by (simp add: t_def calm_def loose_def standing_def)
  next
    case seek
    then show ?thesis using c by (simp add: t_def calm_def loose_def standing_def)
  next
    case flush
    let ?ps = "buffptr ` set (take (unat (in_offs (buffer ?d))) (entry (buffer ?d)))"
    let ?m' = "\<lambda>a. if Ref a \<in> ?ps then None else ?m a"
    have dev: "dev_inv ?m ?d" using calm_dev [OF c] .
    have f: "m = ?m'" "dev_inv m d" "view m d = ([], [])" "mutex d = mutex ?d"
      using aesd_flush_spec [OF dev] flush by auto
    have np: "\<not> partial d"
    proof
      assume p: "partial d"
      then have "pending m d \<noteq> []" using dev_invD(5) [OF f(2)] by (auto simp: stored_def)
      then show False using f(3) by (simp add: view_def)
    qed
    have e: "entries (buffer d) = []" using f(3) by (simp add: view_def lines_def)
    have un: "unowned d a" for a using e np by (simp add: unowned_def owned_def)
    have keep: "m a = ?m a" if "unowned ?d a" for a
      using that low_slots(1) [OF dev] unowned_entries [OF that] unfolding f(1) by force
    have same: "\<forall>a \<in> set (concat (map held (calls s))). m a = ?m a" using I keep by blast
    have "\<forall>c \<in> set (calls s). call_ok m c" using calls_ok_frame [OF _ same] I by blast
    moreover have "\<forall>a \<in> set (concat (map held (calls s))). m a \<noteq> None \<and> unowned d a" using I same un by simp
    moreover have "slots_sane (buffer d)"
      using I flush by (auto simp: aesd_flush_def slots_sane_def)
    ultimately have "calm k t" using I f(2,4) np unfolding calm_def t_def by simp
    moreover have "standing t = (0, [])"
    proof -
      have "wrap_at (buffer d) \<le> length (entries (buffer d))" by (rule wrap_at_le [OF dev_invD(2) [OF f(2)]])
      then show ?thesis using e by (simp add: standing_def t_def lines_def)
    qed
    moreover have "loose t a \<and> heap t a = ?m a" if "loose s a" for a
      using that un keep by (simp add: loose_def t_def)
    ultimately show ?thesis by simp
  qed
  then show "calm k t" "standing t = standing s \<or> standing t = (0, [])"
    "\<forall>a. loose s a \<longrightarrow> heap s a \<noteq> None \<longrightarrow> loose t a \<and> heap t a = heap s a" by blast+
qed

section \<open>The invariant is kept\<close>

lemma traffic_inv_shared:
  assumes inv: "traffic_inv v s" and r: "calm (locked_readers (readers s)) r" "device_history v (past s @ [standing r]) (stored_bytes r)"
    "\<forall>a. loose (shared s) a \<longrightarrow> heap (shared s) a \<noteq> None \<longrightarrow> loose r a \<and> heap r a = heap (shared s) a"
    and res: "results_inv r"
  shows "traffic_inv v (s\<lparr>shared := r, past := past s @ [standing r]\<rparr>)"
proof -
  let ?ps = "past s @ [standing r]"
  have I: "reading (past_tells (past s)) (past_low (past s)) (length (past s) - 1) s" "past s \<noteq> []"
    using inv traffic_inv_past [OF inv] by (simp_all add: traffic_inv_def)
  have same: "\<forall>j \<le> length (past s) - 1. past_tells ?ps j = past_tells (past s) j \<and> past_low ?ps j = past_low (past s) j"
    using past_append I(2) by blast
  have "reading (past_tells ?ps) (past_low ?ps) (length ?ps - 1) (s\<lparr>shared := r, past := ?ps\<rparr>)"
    by (rule reading_shared [OF I(1) _ same r(1,3)]) simp_all
  then show ?thesis using res r(2) by (simp add: traffic_inv_def)
qed

lemma traffic_inv_step:
  assumes env: "kernel_ok env" and inv: "traffic_inv v s" and st: "traffic_step env c s t" and now: "\<not> overlapped t"
  shows "traffic_inv v t"
  using st
proof cases
  case (writer r)
  have k: "calm (locked_readers (readers s)) (shared s)" "results_inv (shared s)"
      "device_history v (past s) (stored_bytes (shared s))" "last (past s) = standing (shared s)"
    using inv by (simp_all add: traffic_inv_def reading_def)
  then have "results_inv r" using results_inv_calls [OF _ _ writer(2)] by (simp add: calm_def)
  then show ?thesis unfolding writer(1)
    by (rule traffic_inv_shared [OF inv calm_step(1) [OF env k(1) writer(2)] calm_step(2) [OF env k(1) writer(2) k(3,4)]
      calm_step(3) [OF env k(1) writer(2)]])
next
  case reader
  have I: "reading (past_tells (past s)) (past_low (past s)) (length (past s) - 1) s" using inv by (simp add: traffic_inv_def)
  have r: "reading (past_tells (past s)) (past_low (past s)) (length (past s) - 1) t" "undisturbed (shared s) (shared t)"
    using reader_step_reading [OF env I past_truthful [OF inv] reader] by simp_all
  then have "standing (shared t) = standing (shared s)" "results_inv (shared t) = results_inv (shared s)"
      "stored_bytes (shared t) = stored_bytes (shared s)"
    by (simp_all add: undisturbed_def standing_def results_inv_def)
  then show ?thesis using r(1) inv reader_step_past [OF reader] by (simp add: traffic_inv_def)
next
  case (request cmd copied m d ret r)
  have k: "calm (locked_readers (readers s)) (shared s)" "results_inv (shared s)"
      "device_history v (past s) (stored_bytes (shared s))" "last (past s) = standing (shared s)"
    using inv by (simp_all add: traffic_inv_def reading_def)
  then have res: "results_inv r" by (simp add: request(3) results_inv_def)
  note R = calm_request [OF k(1) request(2), folded request(3)]
  have "device_history v (past s @ [standing r]) (stored_bytes r)"
    using R(2) device_history.same [OF k(3)] device_history.flush [OF k(3)] k(4) by (auto simp: request(3))
  then show ?thesis unfolding request(1) by (rule traffic_inv_shared [OF inv R(1) _ R(3) res])
next
  case overlap
  then show ?thesis using now by simp
qed

lemma traffic_inv_start:
  assumes "dev_inv m d" and "slots_sane (buffer d)" and "\<not> partial d" and "\<not> mutex d"
  shows "traffic_inv (wrap_at (buffer d), lines m d) (start_traffic m d)"
proof -
  have "calm 0 (start_race m d)" using race_inv_start [OF assms] by (simp add: race_inv_calm)
  then show ?thesis
    using results_inv_start [of m d] device_history.start [of "(wrap_at (buffer d), lines m d)"]
    by (simp add: traffic_inv_def start_traffic_def reading_start standing_def start_race_def)
qed

interpretation traffic: invariant_system
  "\<lambda>s. \<exists>m d. dev_inv m d \<and> slots_sane (buffer d) \<and> \<not> partial d \<and> \<not> mutex d \<and> v = (wrap_at (buffer d), lines m d) \<and>
    kernel_ok env \<and> s = start_traffic m d"
  "traffic_step env c" "\<lambda>s. (overlapped s \<or> traffic_inv v s) \<and> kernel_ok env" for env c v
  by unfold_locales (auto intro: traffic_inv_start traffic_inv_step dest: overlapped_step)

text \<open>What the returned counts say, without the marks of the model.\<close>

lemma results_stored:
  assumes "results_inv s"
  shows "mset (map fst (filter (\<lambda>r. fst (snd r) = int (length (fst r))) (returned s))) \<subseteq># mset (stored_bytes s)"
proof -
  have "snd (snd r)" if "r \<in> set (returned s)" "fst (snd r) = int (length (fst r))" for r
    using assms that by (fastforce simp: results_inv_def ENOMEM_def)
  then have "filter (\<lambda>r. fst (snd r) = int (length (fst r))) (returned s) =
      filter (\<lambda>r. fst (snd r) = int (length (fst r)) \<and> snd (snd r)) (returned s)"
    by (intro filter_cong) auto
  also have "\<dots> = filter (\<lambda>r. fst (snd r) = int (length (fst r))) (filter (\<lambda>r. snd (snd r)) (returned s))"
    by (simp add: conj_commute)
  also have "mset (map fst \<dots>) \<subseteq># mset (map fst (filter (\<lambda>r. snd (snd r)) (returned s)))"
    unfolding mset_map by (subst mset_filter, intro image_mset_subseteq_mono multiset_filter_subset)
  also have "\<dots> \<subseteq># mset (stored_bytes s)" using assms by (simp add: results_inv_def)
  finally show ?thesis .
qed

section \<open>Properties\<close>

text \<open>
  C6. Writers of whole lines, readers, and seek and flush requests, in any order of their pieces, as
  long as no request runs in the middle of a piece: no flush while a call is at its work under
  the mutex, no two requests at once. The device is in a good state and at most one call is at
  work under the mutex; what it holds has changed only by the lines stored, one after the other,
  each at once the newest of ten, and by flushes. A write returns -ENOMEM or the number of its
  bytes, and the lines of the calls that returned that number are among those stored. A read
  that has returned failed with -ENOMEM, or delivered a part of what the device held at one moment
  between its start and its return, or returned 0 because the size it saw when it looked again,
  without the mutex, was not above its position. Slots not held are to show no garbage for a
  size at the start.
\<close>

theorem all_calls_at_once:
  assumes "kernel_ok env" and "dev_inv m d" and "slots_sane (buffer d)" and "\<not> partial d" and "\<not> mutex d"
    and "(traffic_step env c)\<^sup>*\<^sup>* (start_traffic m d) s" and "\<not> overlapped s"
  shows "dev_inv (heap (shared s)) (device (shared s)) \<and>
    length (filter (\<lambda>c. stage c = Locked) (calls (shared s))) + length (filter (\<lambda>c. rstage c = Locked) (readers s)) \<le> 1 \<and>
    device_history (wrap_at (buffer d), lines m d) (past s) (stored_bytes (shared s)) \<and>
    last (past s) = (wrap_at (buffer (device (shared s))), lines (heap (shared s)) (device (shared s))) \<and>
    (\<forall>r \<in> set (returned (shared s)). fst (snd r) = int (length (fst r)) \<or> fst (snd r) = - ENOMEM) \<and>
    mset (map fst (filter (\<lambda>r. fst (snd r) = int (length (fst r))) (returned (shared s)))) \<subseteq># mset (stored_bytes (shared s)) \<and>
    (\<forall>a \<in> set (answers s). answered (past_tells (past s)) (past_low (past s)) (length (past s) - 1) a)"
proof -
  have "traffic_inv (wrap_at (buffer d), lines m d) s"
    using traffic.inv_reachable [of "(wrap_at (buffer d), lines m d)" env "start_traffic m d" c s] assms by blast
  then have i: "calm (locked_readers (readers s)) (shared s)"
      "device_history (wrap_at (buffer d), lines m d) (past s) (stored_bytes (shared s))"
      "last (past s) = standing (shared s)" "results_inv (shared s)"
      "\<forall>a \<in> set (answers s). answered (past_tells (past s)) (past_low (past s)) (length (past s) - 1) a"
    by (simp_all add: traffic_inv_def reading_def)
  then show ?thesis using results_stored [OF i(4)]
    by (auto simp: calm_def locked_readers_def standing_def results_inv_def split: if_splits)
qed

text \<open>A reader of the whole system up to its work.\<close>

lemma traffic_locks:
  assumes "\<not> mutex (device (shared s))" and "unat n < 2 ^ 31" and "unat pos < 2 ^ 63"
  obtains m k where "(traffic_step env c)\<^sup>*\<^sup>* s (s\<lparr>shared := (shared s)\<lparr>heap := m, device := (device (shared s))\<lparr>mutex := True\<rparr>\<rparr>,
      readers := readers s @ k # []\<rparr>)"
    and "rstage k = Locked" and "want k = n" and "pos_at k = pos" and "since k = length (past s) - 1"
proof -
  have lift: "traffic_step env c (s\<lparr>shared := r, readers := rs\<rparr>) v"
    if "reader_step env (length (past s) - 1) (s\<lparr>shared := r, readers := rs\<rparr>) v" for r rs v
    using traffic_step.reader [of env "s\<lparr>shared := r, readers := rs\<rparr>" v] that by simp
  show thesis by (rule reader_locks [OF _ assms, where R = "traffic_step env c"]) (use lift that in blast)+
qed

text \<open>
  The demo device is flushed while a reader holds the mutex: its read finds nothing and returns 0.
\<close>

theorem all_calls_at_once_witness:
  "\<exists>s a. (traffic_step demo_env asm_generic)\<^sup>*\<^sup>* (start_traffic demo_mem demo_dev) s \<and> answers s = [a] \<and>
    a_ret a = 0 \<and> a_since a = 0 \<and> a_seen a = 1 \<and> map snd (past s) = [[[97, 98, 10], [99, 10]], []] \<and>
    answered (past_tells (past s)) (past_low (past s)) 1 a"
proof -
  let ?s = "start_traffic demo_mem demo_dev" and ?R = "(traffic_step demo_env asm_generic)\<^sup>*\<^sup>*"
  have f: "slots_sane (buffer demo_dev)" "\<not> partial demo_dev" "\<not> mutex demo_dev" by simp_all
  have s: "shared ?s = start_race demo_mem demo_dev" "readers ?s = []" "answers ?s = []"
      "past ?s = [standing (start_race demo_mem demo_dev)]" by (simp_all add: start_traffic_def)
  have "\<not> mutex (device (shared ?s))" using f by (simp add: s start_race_def)
  then obtain m k where l: "?R ?s (?s\<lparr>shared := (shared ?s)\<lparr>heap := m, device := (device (shared ?s))\<lparr>mutex := True\<rparr>\<rparr>,
      readers := readers ?s @ k # []\<rparr>)" "rstage k = Locked" "want k = 8" "pos_at k = 0" "since k = length (past ?s) - 1"
    by (rule traffic_locks [of ?s 8 0 demo_env asm_generic]) simp_all
  let ?t = "?s\<lparr>shared := (shared ?s)\<lparr>heap := m, device := (device (shared ?s))\<lparr>mutex := True\<rparr>\<rparr>, readers := readers ?s @ k # []\<rparr>"
  have "dev_inv (heap (shared ?t)) (device (shared ?t))"
    using all_calls_at_once [OF demo_kernel_ok demo_inv f l(1)] by (simp add: start_traffic_def)
  then obtain m' d where fl: "aesd_flush (heap (shared ?t)) (device (shared ?t)) = Inr (m', d, 0)" "dev_inv m' d" "view m' d = ([], [])"
    using aesd_flush_spec by blast
  let ?r = "(shared ?t)\<lparr>heap := m', device := d\<rparr>"
  let ?u = "?t\<lparr>shared := ?r, past := past ?t @ [standing ?r]\<rparr>"
  have "aesd_ioctl asm_generic (heap (shared ?t)) (device (shared ?t)) (AESDCHAR_FLUSH asm_generic) x = Inr (m', d, 0)" for x
    using fl(1) ioctl_dispatches [OF good_asm_generic asm_generic_differ] by simp
  then have u: "?R ?s ?u" by (rule rtranclp.rtrancl_into_rtrancl [OF l(1) traffic_step.request]) simp
  have 0: "lines m' d = []" using fl(3) by (simp add: view_def)
  have "sint (total_size (buffer d)) \<le> sint (0 :: u64)" using read_body_end [OF fl(2), of 0] 0 by simp
  then have b: "read_body demo_env (heap (shared ?u)) (device (shared ?u)) (buf_block k) (want k) (pos_at k) = Inr (m', d, None)"
    by (simp add: read_body_def l(4))
  let ?a = "answer_of (k\<lparr>seen := length (past ?u) - 1\<rparr>) 0 []"
  let ?v = "?u\<lparr>shared := ?r\<lparr>heap := m', device := d\<lparr>mutex := False\<rparr>\<rparr>, readers := [], answers := answers ?u @ [?a]\<rparr>"
  have "traffic_step demo_env asm_generic ?u ?v"
    using traffic_step.reader [OF reader_step.r_nothing [OF _ l(2) b, of "[]" "[]"]] by (simp add: s)
  then have v: "?R ?s ?v" by (rule rtranclp.rtrancl_into_rtrancl [OF u])
  have no: "\<not> overlapped ?v" by (simp add: start_traffic_def)
  have "standing ?r = (wrap_at (buffer d), [])" by (simp add: standing_def 0)
  then have p: "map snd (past ?v) = [[[97, 98, 10], [99, 10]], []]" by (simp add: s standing_def start_race_def demo_lines)
  have "\<forall>a \<in> set (answers ?v). answered (past_tells (past ?v)) (past_low (past ?v)) (length (past ?v) - 1) a"
    using all_calls_at_once [OF demo_kernel_ok demo_inv f v no] by blast
  then have "answered (past_tells (past ?v)) (past_low (past ?v)) (length (past ?v) - 1) ?a" by simp
  moreover have "length (past ?v) = 2" by (simp add: s)
  ultimately show ?thesis using v p l(5) by (intro exI [of _ ?v] exI [of _ ?a]) (simp add: s answer_of_def)
qed

text \<open>
  C7. Whatever requests come between the pieces of other calls, and as long as none comes in the
  middle of one, where C21 has the fault: every write can be entered, does its work under the
  mutex and returns, every flush succeeds, a seek to one of the ten slots does, a read that has
  done its work returns whatever size it sees at its last look, and one under the mutex does its
  work if no seek is pending and it starts at 0 or asks for more than there is. Other reads can
  run into the helper's overrun.
\<close>

theorem requests_make_no_fault:
  assumes "kernel_ok env" and "dev_inv m d" and "slots_sane (buffer d)" and "\<not> partial d" and "\<not> mutex d"
    and "(traffic_step env c)\<^sup>*\<^sup>* (start_traffic m d) s" and "\<not> overlapped s"
  shows "(\<forall>l. whole_line l \<longrightarrow> (\<exists>r. write_prepare env (heap (shared s)) (device (shared s)) l = Inr r)) \<and>
    (\<forall>k \<in> set (calls (shared s)).
      (stage k = Locked \<longrightarrow> (\<exists>r. write_body env (heap (shared s)) (device (shared s))
        (bytes k) (add_block k) (data_block k) (tmp_block k) = Inr r)) \<and>
      (stage k = Stored \<longrightarrow> (\<exists>r. kfree (heap (shared s)) (tmp_block k) = Inr r))) \<and>
    (\<forall>k \<in> set (readers s).
      (rstage k = Stored \<longrightarrow> (\<forall>sz. \<exists>r. read_finish (heap (shared s)) sz
        (buf_block k) (off_block k) (want k) (pos_at k) (got k) = Inr r)) \<and>
      (rstage k = Locked \<longrightarrow> \<not> seek (device (shared s)) \<longrightarrow> safe_read (shared s) k \<longrightarrow>
        (\<exists>r. read_body env (heap (shared s)) (device (shared s)) (buf_block k) (want k) (pos_at k) = Inr r))) \<and>
    (\<exists>r. aesd_flush (heap (shared s)) (device (shared s)) = Inr r) \<and>
    (\<forall>k. unat (write_cmd k) \<le> 10 \<longrightarrow> (\<exists>r. aesd_adjust_file_offset (device (shared s)) k = Inr r))"
proof -
  let ?r = "shared s" and ?g = "shared s\<lparr>stored_bytes := []\<rparr>"
  have i: "traffic_inv (wrap_at (buffer d), lines m d) s"
    using traffic.inv_reachable [of "(wrap_at (buffer d), lines m d)" env "start_traffic m d" c s] assms by blast
  then have I: "reading (past_tells (past s)) (past_low (past s)) (length (past s) - 1) s"
      "calm (locked_readers (readers s)) ?r" by (simp_all add: traffic_inv_def reading_def)
  have e: "past_low (past s) (length (past s) - 1) = low_of (lines (heap ?r) (device ?r))"
    using past_truthful [OF i] by (simp add: truthful_def)
  note dev = calm_dev [OF I(2)] and race = calm_race [OF I(2)]
  have 1: "\<exists>r. write_prepare env (heap ?r) (device ?r) l = Inr r" if "whole_line l" for l
    by (rule write_prepare_spec [OF dev assms(1), of l]) (use that in \<open>auto simp: whole_line_def\<close>)
  have 2: "(stage k = Locked \<longrightarrow> (\<exists>r. write_body env (heap ?r) (device ?r) (bytes k) (add_block k) (data_block k) (tmp_block k) = Inr r)) \<and>
      (stage k = Stored \<longrightarrow> (\<exists>r. kfree (heap ?r) (tmp_block k) = Inr r))" if "k \<in> set (calls ?r)" for k
  proof -
    have "k \<in> set (calls ?g)" using that by simp
    then obtain us vs where k: "calls ?g = us @ k # vs" by (metis split_list)
    have "heap ?g = heap ?r" "device ?g = device ?r" by simp_all
    then show ?thesis using write_body_spec [OF race k] race_inv_end [OF race k] by metis
  qed
  have 3: "(rstage k = Stored \<longrightarrow> (\<forall>sz. \<exists>r. read_finish (heap ?r) sz (buf_block k) (off_block k) (want k) (pos_at k) (got k) = Inr r)) \<and>
      (rstage k = Locked \<longrightarrow> \<not> seek (device ?r) \<longrightarrow> safe_read ?r k \<longrightarrow>
        (\<exists>r. read_body env (heap ?r) (device ?r) (buf_block k) (want k) (pos_at k) = Inr r))"
    if "k \<in> set (readers s)" for k
  proof -
    obtain us vs where k: "readers s = us @ k # vs" using \<open>k \<in> set (readers s)\<close> by (metis split_list)
    show ?thesis using reading_end [OF I(1) e k] read_body_safe [OF assms(1) I(1) k] by metis
  qed
  have 4: "\<exists>r. aesd_flush (heap ?r) (device ?r) = Inr r" using aesd_flush_spec [OF dev] by blast
  have 5: "\<exists>r. aesd_adjust_file_offset (device ?r) k = Inr r" if "unat (write_cmd k) \<le> 10" for k
    using offset_loop_spec [of 0 "buffer (device ?r)" "unat (write_cmd k)" 0] that cb_invD(1) [OF dev_invD(2) [OF dev]]
    by (simp add: aesd_adjust_file_offset_def MAXW_eq)
  show ?thesis using 1 2 3 4 5 by blast
qed

text \<open>After a request for a position far past the end, a flush is answered and writes can start.\<close>

theorem requests_make_no_fault_witness:
  "\<exists>s. (traffic_step demo_env asm_generic)\<^sup>*\<^sup>* (start_traffic demo_mem demo_dev) s \<and> seek (device (shared s)) \<and>
    seekto_position (device (shared s)) = 1003 \<and>
    (\<exists>r. aesd_flush (heap (shared s)) (device (shared s)) = Inr r) \<and>
    (\<exists>r. write_prepare demo_env (heap (shared s)) (device (shared s)) [10] = Inr r)"
proof -
  let ?s = "start_traffic demo_mem demo_dev" and ?x = "\<lparr>write_cmd = 1, write_cmd_offset = 1000\<rparr>"
  have f: "slots_sane (buffer demo_dev)" "\<not> partial demo_dev" "\<not> mutex demo_dev" by simp_all
  have s: "heap (shared ?s) = demo_mem" "device (shared ?s) = demo_dev" by (simp_all add: start_traffic_def start_race_def)
  let ?d = "demo_dev\<lparr>seekto_position := 1003, seek := True\<rparr>"
  let ?t = "?s\<lparr>shared := (shared ?s)\<lparr>heap := demo_mem, device := ?d\<rparr>,
    past := past ?s @ [standing ((shared ?s)\<lparr>heap := demo_mem, device := ?d\<rparr>)]\<rparr>"
  have "aesd_adjust_file_offset demo_dev ?x = Inr (?d, 0)"
    by (simp add: aesd_adjust_file_offset_def entry_at_def demo_two_def)
  then have "aesd_ioctl asm_generic (heap (shared ?s)) (device (shared ?s)) (AESDCHAR_IOCSEEKTO asm_generic) (0, ?x) = Inr (demo_mem, ?d, 0)"
    using ioctl_dispatches [OF good_asm_generic asm_generic_differ] by (simp add: s)
  then have t: "(traffic_step demo_env asm_generic)\<^sup>*\<^sup>* ?s ?t"
    by (intro rtranclp.rtrancl_into_rtrancl [OF rtranclp.rtrancl_refl] traffic_step.request) simp_all
  have no: "\<not> overlapped ?t" by (simp add: start_traffic_def)
  have "whole_line [10]" by (simp add: whole_line_def)
  then have "\<exists>r. write_prepare demo_env (heap (shared ?t)) (device (shared ?t)) [10] = Inr r"
      "\<exists>r. aesd_flush (heap (shared ?t)) (device (shared ?t)) = Inr r"
    using requests_make_no_fault [OF demo_kernel_ok demo_inv f t no] by blast+
  moreover have "seek (device (shared ?t))" "seekto_position (device (shared ?t)) = 1003" by simp_all
  ultimately show ?thesis using t by blast
qed

end
