(* ===== verification/Aesd_Leaks.thy ===== *)
theory Aesd_Leaks
  imports Aesd_Race_Read
begin

text \<open>
  The memory the driver loses. From loading to unloading, every call leaves blocks behind that
  nothing frees: a write the block of its entry and, once the ring is full, the line it evicts, a
  read the scratch block of the helper, and loading and unloading eleven more. \<open>account\<close> counts
  the blocks as the calls go by.
\<close>

section \<open>The life of the module\<close>

datatype device_call = Call_write "u8 list" | Call_read u64 | Call_flush

text \<open>One call: a write, a read from the start of the file, the flush request.\<close>

fun do_call :: "kenv \<Rightarrow> kmem \<times> aesd_dev \<Rightarrow> device_call \<Rightarrow> (kmem \<times> aesd_dev) res" where
  "do_call env (m, d) (Call_write l) = bnd (aesd_write env m d l) (\<lambda>(m, d, ret). Inr (m, d))"
| "do_call env (m, d) (Call_read n) = bnd (aesd_read env m d n 0) (\<lambda>(m, d, pos, ret, user). Inr (m, d))"
| "do_call env (m, d) Call_flush = bnd (aesd_flush m d) (\<lambda>(m, d, ret). Inr (m, d))"

fun do_calls :: "kenv \<Rightarrow> kmem \<times> aesd_dev \<Rightarrow> device_call list \<Rightarrow> (kmem \<times> aesd_dev) res" where
  "do_calls env s [] = Inr s"
| "do_calls env s (c # cs) = bnd (do_call env s c) (\<lambda>s. do_calls env s cs)"

fun call_fits :: "device_call \<Rightarrow> bool" where
  "call_fits (Call_write l) = whole_line l"
| "call_fits (Call_read n) = (unat n < 2 ^ 31)"
| "call_fits Call_flush = True"

text \<open>The next slot to fill, and the blocks in use since loading.\<close>

fun account :: "device_call \<Rightarrow> nat \<times> nat \<Rightarrow> nat \<times> nat" where
  "account (Call_write l) (i, n) = (Suc i mod 10, n + 2)"
| "account (Call_read c) (i, n) = (i, n + 1)"
| "account Call_flush (i, n) = (0, n - i)"

section \<open>What each call does to the heap\<close>

text \<open>The blocks loading set up for good: in use, and no line is stored there.\<close>

definition own_blocks :: "kmem \<Rightarrow> aesd_dev \<Rightarrow> bool" where
  "own_blocks m d \<longleftrightarrow> (\<exists>a b. buffer_block d = Ref a \<and> partial_entry_block d = Ref b \<and> a \<noteq> b \<and>
     a \<in> dom m \<and> b \<in> dom m \<and> unowned d a \<and> unowned d b)"

definition life_inv :: "nat \<Rightarrow> nat \<times> nat \<Rightarrow> kmem \<times> aesd_dev \<Rightarrow> bool" where
  "life_inv k s q \<longleftrightarrow> (case (s, q) of ((i, n), (m, d)) \<Rightarrow>
     dev_inv m d \<and> \<not> partial d \<and> \<not> mutex d \<and> \<not> seek d \<and> own_blocks m d \<and>
     unat (in_offs (buffer d)) = i \<and> i \<le> n \<and> card (dom m) = k + n)"

lemma write_body_blocks:
  "write_body env m d buf e x t = Inr (m', d') \<Longrightarrow>
     buffer_block d' = buffer_block d \<and> partial_entry_block d' = partial_entry_block d"
  by (auto simp: write_body_def finish_line_def split: if_splits)

lemma write_line_heap:
  assumes inv: "dev_inv m d" and env: "kernel_ok env" "\<not> relocked env"
    and free: "\<not> mutex d" "\<not> partial d" and l: "whole_line l"
  obtains m' d' e x where "aesd_write env m d l = Inr (m', d', int (length l))"
    and "dom m' = insert e (insert x (dom m))" and "e \<notin> dom m" "x \<notin> dom m" "e \<noteq> x"
    and "dev_inv m' d'" "\<not> partial d'" "\<not> mutex d'" "seek d' = seek d"
    and "in_offs (buffer d') = next_offs (in_offs (buffer d))"
    and "buffer_block d' = buffer_block d" "partial_entry_block d' = partial_entry_block d"
    and "\<forall>a. a \<noteq> x \<longrightarrow> unowned d a \<longrightarrow> unowned d' a"
proof -
  let ?n = "of_nat (length l) :: u64"
  have ll: "length l < 2 ^ 31" "l \<noteq> []" "last l = newline" using l by (simp_all add: whole_line_def)
  have n: "unat ?n = length l" using ll(1) by (intro unat_of_nat_u64) simp
  obtain m1 e x t where w: "write_prepare env m d l = Inr (m1, Ref e, Ref x, t)"
      "distinct (e # x # addrs t)" "\<forall>a \<in> set (e # x # addrs t). m a = None \<and> m1 a \<noteq> None"
      "m1 x = Some l" "\<forall>a. a \<notin> set (e # x # addrs t) \<longrightarrow> m1 a = m a" "dev_inv m1 d"
    by (rule write_prepare_spec [OF inv env(1) ll(1)])
  have np: "d\<lparr>partial := False\<rparr> = d" using free(2) by simp
  have ne: "e \<noteq> x" and un: "unowned d e" "unowned d x" using w(2,3) unowned_dead [OF inv] by auto
  obtain eb where eb: "m1 e = Some eb" using w(3) by auto
  have "\<exists>m' d'. finish_line m1 d (Ref e) (Ref x) ?n = Inr (m', d') \<and> dev_inv m' d' \<and>
     view m' d' = (if last l = newline then (lastn MAXW (lines m1 d @ [l]), []) else (lines m1 d, l)) \<and>
     mutex d' = mutex d \<and> seek d' = seek d \<and> m' = (if last l = newline then m1 else m1(e := None)) \<and>
     (\<forall>a. a \<noteq> x \<longrightarrow> unowned (d\<lparr>partial := False\<rparr>) a \<longrightarrow> unowned d' a)"
    by (rule finish_line_spec) (use w(4,6) np ll n eb ne unowned_entries [OF un(1)] unowned_entries [OF un(2)] in auto)
  then obtain d' where f: "finish_line m1 d (Ref e) (Ref x) ?n = Inr (m1, d')" "dev_inv m1 d'"
      "view m1 d' = (lastn MAXW (lines m1 d @ [l]), [])" "mutex d' = mutex d" "seek d' = seek d"
      "\<forall>a. a \<noteq> x \<longrightarrow> unowned d a \<longrightarrow> unowned d' a"
    using ll(3) np by auto
  have np': "\<not> partial d'"
  proof
    assume "partial d'"
    then have "stored m1 (partial_entry d') (pending m1 d')" by (rule dev_invD(5) [OF f(2)])
    then show False using f(3) by (simp add: view_def stored_def)
  qed
  have b: "write_body env m1 d l (Ref e) (Ref x) t = Inr (m1, d')" using f(1) free(2) by (simp add: write_body_def)
  note ring = write_body_ring [OF b free(2) np'] and blocks = write_body_blocks [OF b]
  have "sint ?n = int (length l)" using n ll(1) sint_u64_small [of ?n] by simp
  moreover obtain m' where k: "kfree m1 t = Inr m'" "dom m' = insert e (insert x (dom m))" "dev_inv m' d'"
  proof (cases t)
    case Null
    have "dom m1 = insert e (insert x (dom m))"
      using w(3,5) Null by (auto simp: domIff)
    then show thesis using that [of m1] Null f(2) by simp
  next
    case (Ref a)
    have a: "m a = None" "m1 a \<noteq> None" "a \<noteq> e" "a \<noteq> x" using w(2,3) Ref by auto
    have "unowned d' a" using f(6) a(4) unowned_dead [OF inv a(1)] by blast
    then have "dev_inv (m1(a := None)) d'" by (rule dev_inv_frame [OF f(2)])
    moreover have "dom (m1(a := None)) = insert e (insert x (dom m))"
    proof (rule set_eqI)
      fix y
      show "y \<in> dom (m1(a := None)) \<longleftrightarrow> y \<in> insert e (insert x (dom m))"
        using w(3,5) a Ref by (cases "y = e \<or> y = x \<or> y = a") (auto simp: domIff)
    qed
    ultimately show thesis using that [of "m1(a := None)"] Ref a(2) by auto
  qed
  ultimately have "aesd_write env m d l = Inr (m', d', int (length l))"
    using w(1) b free(1) env(2) by (simp add: aesd_write_pieces)
  then show thesis
    by (rule that [OF _ k(2) _ _ ne k(3) np']) (use w(3) f free ring blocks in auto)
qed

lemma own_blocksE:
  assumes "own_blocks m d"
  obtains a b where "buffer_block d = Ref a" "partial_entry_block d = Ref b" "a \<noteq> b" "a \<in> dom m" "b \<in> dom m"
    "unowned d a" "unowned d b"
  using assms by (auto simp: own_blocks_def)

lemma life_inv_write:
  assumes inv: "life_inv k s (m, d)" and env: "kernel_ok env" "\<not> relocked env" and l: "whole_line l"
  shows "\<exists>q. do_call env (m, d) (Call_write l) = Inr q \<and> life_inv k (account (Call_write l) s) q"
proof -
  obtain i n where s: "s = (i, n)" by (cases s)
  have I: "dev_inv m d" "\<not> partial d" "\<not> mutex d" "\<not> seek d" "own_blocks m d"
      "unat (in_offs (buffer d)) = i" "i \<le> n" "card (dom m) = k + n"
    using inv by (simp_all add: life_inv_def s)
  obtain a b where ab: "buffer_block d = Ref a" "partial_entry_block d = Ref b" "a \<noteq> b" "a \<in> dom m" "b \<in> dom m"
      "unowned d a" "unowned d b"
    by (rule own_blocksE [OF I(5)])
  obtain m' d' e x where w: "aesd_write env m d l = Inr (m', d', int (length l))"
      "dom m' = insert e (insert x (dom m))" "e \<notin> dom m" "x \<notin> dom m" "e \<noteq> x"
      "dev_inv m' d'" "\<not> partial d'" "\<not> mutex d'" "seek d' = seek d"
      "in_offs (buffer d') = next_offs (in_offs (buffer d))"
      "buffer_block d' = buffer_block d" "partial_entry_block d' = partial_entry_block d"
      "\<forall>a. a \<noteq> x \<longrightarrow> unowned d a \<longrightarrow> unowned d' a"
    by (rule write_line_heap [OF I(1) env I(3,2) l])
  have "a \<noteq> x" "b \<noteq> x" using ab(4,5) w(4) by auto
  then have own: "own_blocks m' d'" unfolding own_blocks_def w(2,11,12) using ab w(13) by blast
  have "i < 10" using cb_invD(2) [OF dev_invD(2) [OF I(1)]] I(6) by (simp add: MAXW_eq)
  then have "unat (in_offs (buffer d')) = Suc i mod 10" using I(6) w(10) by (simp add: unat_next_offs MAXW_eq mod_Suc)
  moreover have "card (dom m') = k + (n + 2)"
    unfolding w(2) using w(3-5) dev_invD(1) [OF I(1)] I(8) by simp
  moreover have "Suc i mod 10 \<le> n + 2" using I(7) \<open>i < 10\<close> by (simp add: mod_Suc)
  ultimately show ?thesis
    using w(1,6-9) own I(4) by (intro exI [of _ "(m', d')"]) (simp add: life_inv_def s)
qed

lemma life_inv_read:
  assumes inv: "life_inv k s (m, d)" and env: "kernel_ok env" "\<not> relocked env" and c: "unat c < 2 ^ 31"
  shows "\<exists>q. do_call env (m, d) (Call_read c) = Inr q \<and> life_inv k (account (Call_read c) s) q"
proof -
  obtain i n where s: "s = (i, n)" by (cases s)
  have I: "dev_inv m d" "\<not> partial d" "\<not> mutex d" "\<not> seek d" "own_blocks m d"
      "unat (in_offs (buffer d)) = i" "i \<le> n" "card (dom m) = k + n"
    using inv by (simp_all add: life_inv_def s)
  have al: "good_alloc (alloc env)" "total_alloc (alloc env)" using env by (simp_all add: kernel_ok_def)
  have "\<exists>m' t pos ret user. aesd_read env m d c 0 = Inr (m', d, pos, ret, user) \<and> dev_inv m' d \<and>
      t \<notin> dom m \<and> dom m' = insert t (dom m)"
  proof (cases "lines m d = []")
    case True
    obtain a bs where a: "alloc env m c = Some (a, bs)" "m a = None"
      by (rule total_allocE [OF al(2,1) dev_invD(1) [OF I(1)] c])
    have "aesd_read env m d c 0 = Inr (m(a \<mapsto> bs), d, 0, 0, [])"
      using a(1) I(3) sint_total_size [OF I(1)] True by (simp add: aesd_read_def)
    then show ?thesis using a(2) dev_inv_fresh [OF I(1) a(2)] by (intro exI conjI) auto
  next
    case False
    then have "lines m d ! 0 \<noteq> []" "0 < length (lines m d)" using line_nonempty [OF I(1)] by (simp_all add: neq_Nil_conv)
    then have loc: "locate (map length (lines m d)) (unat (0 :: u64)) = Some (0, 0)"
      using locate_line_start [of 0 "lines m d"] by simp
    obtain m' t rest n where "aesd_read env m d c 0 = Inr (m', d, 0 + of_nat n, int n, rest)" "dev_inv m' d"
        "t \<notin> dom m" "dom m' = insert t (dom m)"
      using aesd_read_no_seek(1) [OF I(1) al I(3) env(2) I(4) c loc refl, OF disjI1 disjI1, OF refl refl] by (elim exE conjE)
    then show ?thesis by (intro exI conjI)
  qed
  then obtain m' t pos ret user where r: "aesd_read env m d c 0 = Inr (m', d, pos, ret, user)" "dev_inv m' d"
      "t \<notin> dom m" "dom m' = insert t (dom m)"
    by blast
  have "own_blocks m' d" using I(5) unfolding own_blocks_def r(4) by blast
  moreover have "card (dom m') = k + (n + 1)" using r(3,4) dev_invD(1) [OF I(1)] I(8) by simp
  ultimately show ?thesis using r(1,2) I by (intro exI [of _ "(m', d)"]) (simp add: life_inv_def s)
qed

text \<open>A block no line is stored in is not freed by the loop over the low slots.\<close>

lemma not_freed: "dev_inv m d \<Longrightarrow> unowned d a \<Longrightarrow>
    Ref a \<notin> buffptr ` set (take (unat (in_offs (buffer d))) (entry (buffer d)))"
  using low_slots(1) [of m d] unowned_entries [of d a] by force

lemma life_inv_flush:
  assumes inv: "life_inv k s (m, d)"
  shows "\<exists>q. do_call env (m, d) Call_flush = Inr q \<and> life_inv k (account Call_flush s) q"
proof -
  obtain i n where s: "s = (i, n)" by (cases s)
  have I: "dev_inv m d" "\<not> partial d" "\<not> mutex d" "\<not> seek d" "own_blocks m d"
      "unat (in_offs (buffer d)) = i" "i \<le> n" "card (dom m) = k + n"
    using inv by (simp_all add: life_inv_def s)
  obtain a b where ab: "buffer_block d = Ref a" "partial_entry_block d = Ref b" "a \<noteq> b" "a \<in> dom m" "b \<in> dom m"
      "unowned d a" "unowned d b"
    by (rule own_blocksE [OF I(5)])
  let ?m = "\<lambda>a. if Ref a \<in> buffptr ` set (take (unat (in_offs (buffer d))) (entry (buffer d))) then None else m a"
  obtain d' where f: "aesd_flush m d = Inr (?m, d', 0)" "dev_inv ?m d'" "view ?m d' = ([], [])" "\<not> seek d'" "mutex d' = mutex d"
    using aesd_flush_spec [OF I(1)] by auto
  have d': "\<not> partial d'" "in_offs (buffer d') = 0" "entries (buffer d') = []" "buffer_block d' = buffer_block d"
      "partial_entry_block d' = partial_entry_block d"
    using f(1) by (auto simp: aesd_flush_def entries_def)
  have "a \<in> dom ?m" "b \<in> dom ?m" using ab(4-7) not_freed [OF I(1)] by (simp_all add: domIff)
  then have "own_blocks ?m d'"
    unfolding own_blocks_def d'(4,5) using ab(1-3) d'(1,3) by (auto simp: unowned_def owned_def)
  moreover have "card (dom ?m) = k + (n - i)" using card_freed [OF I(1)] I(6-8) by simp
  ultimately show ?thesis
    using f d'(1,2) I(3) by (intro exI [of _ "(?m, d')"]) (simp add: life_inv_def s)
qed

lemma life_inv_call:
  assumes "life_inv k s q" and "kernel_ok env" "\<not> relocked env" and "call_fits c"
  shows "\<exists>q'. do_call env q c = Inr q' \<and> life_inv k (account c s) q'"
proof -
  obtain m d where "q = (m, d)" by (cases q)
  then show ?thesis using assms life_inv_write life_inv_read life_inv_flush by (cases c) auto
qed

lemma life_inv_calls:
  assumes env: "kernel_ok env" "\<not> relocked env"
  shows "life_inv k s q \<Longrightarrow> list_all call_fits cs \<Longrightarrow> \<exists>q'. do_calls env q cs = Inr q' \<and> life_inv k (fold account cs s) q'"
proof (induction cs arbitrary: s q)
  case (Cons c cs)
  then obtain q' where q': "do_call env q c = Inr q'" "life_inv k (account c s) q'"
    using life_inv_call [OF _ env, of k s q c] by auto
  then show ?case using Cons.IH [OF q'(2)] Cons.prems(2) by simp
qed simp

lemma life_inv_unload:
  assumes inv: "life_inv k (i, n) (m, d)"
  shows "\<exists>m' reg'. aesd_cleanup_module m d reg = Inr (m', reg') \<and> \<not> region reg' \<and> \<not> cdev_live reg' \<and>
    card (dom m') + 2 = k + (n - i)"
proof -
  have I: "dev_inv m d" "own_blocks m d" "unat (in_offs (buffer d)) = i" "i \<le> n" "card (dom m) = k + n"
    using inv by (simp_all add: life_inv_def)
  note C = cb_invD [OF dev_invD(2) [OF I(1)]] and L = low_slots [OF I(1)]
  obtain a b where ab: "buffer_block d = Ref a" "partial_entry_block d = Ref b" "a \<noteq> b" "a \<in> dom m" "b \<in> dom m"
      "unowned d a" "unowned d b"
    by (rule own_blocksE [OF I(2)])
  let ?m = "\<lambda>a. if Ref a \<in> buffptr ` set (take (unat (in_offs (buffer d))) (entry (buffer d))) then None else m a"
  let ?m' = "?m(a := None, b := None)"
  have live: "\<forall>e \<in> set (take (unat (in_offs (buffer d))) (entry (buffer d))). \<exists>a bs. buffptr e = Ref a \<and> m a = Some bs"
    using L(1) dev_invD(3) [OF I(1)] by (force simp: stored_def)
  have f: "flush_loop m (buffer d) MAXW 0 = Inr ?m"
    using flush_loop_spec [of "buffer d" 0 MAXW m] C(1,2) live L(2) by simp
  have ms: "?m a = m a" "?m b = m b" using not_freed [OF I(1)] ab(6,7) by simp_all
  then have "aesd_cleanup_module m d reg = Inr (?m', reg\<lparr>region := False, cdev_live := False\<rparr>)"
    using f ab(1-5) by (auto simp: aesd_cleanup_module_def)
  moreover have "card (dom ?m') + 2 = card (dom ?m)"
  proof -
    have "dom ?m' = dom ?m - {a, b}" by auto
    moreover have "{a, b} \<subseteq> dom ?m" using ms ab(4,5) by (auto simp: domIff)
    moreover have "finite (dom ?m)"
      by (rule finite_subset [OF _ dev_invD(1) [OF I(1)]]) (auto split: if_splits)
    ultimately show ?thesis using ab(3) card_Diff_subset [of "{a, b}" "dom ?m"] card_mono [of "dom ?m" "{a, b}"] by simp
  qed
  ultimately show ?thesis using card_freed [OF I(1)] I(3-5) by fastforce
qed

lemma life_inv_loaded:
  assumes "loadable le" and "finite (dom m)" and "0 \<le> alloc_chrdev_region le"
  shows "\<exists>m' d reg'. aesd_init_module le m reg = Inr (m', Some d, reg', cdev_add le) \<and>
    life_inv (card (dom m)) (0, 13) (m', d)"
proof -
  obtain m' d reg' a b where i: "aesd_init_module le m reg = Inr (m', Some d, reg', cdev_add le)"
      "dev_inv m' d" "view m' d = ([], [])" "\<not> mutex d" "\<not> partial d" "\<not> seek d" "card (dom m') = card (dom m) + 13"
      "in_offs (buffer d) = 0" "buffer_block d = Ref a" "partial_entry_block d = Ref b" "a \<noteq> b" "a \<in> dom m'" "b \<in> dom m'"
    using aesd_init_module_spec [OF assms, of reg] by (metis domI)
  have "entries (buffer d) = []" using i(3) by (simp add: view_def lines_def)
  then have "own_blocks m' d" using i(5,9-13) by (auto simp: own_blocks_def unowned_def owned_def)
  then show ?thesis using i by (auto simp: life_inv_def)
qed

text \<open>Writes alone: two blocks each, and the slot goes round.\<close>

lemma account_writes: "i < 10 \<Longrightarrow> fold account (map Call_write ls) (i, n) = ((i + length ls) mod 10, n + 2 * length ls)"
proof (induction ls arbitrary: i n)
  case (Cons l ls)
  then show ?case using Cons.IH [of "Suc i mod 10" "n + 2"] by (simp add: mod_simps)
qed simp

section \<open>What a write leaves alone\<close>

lemma copy_loop_frame:
  "copy_loop m src dst at n i = Inr m' \<Longrightarrow> dom m' = dom m \<and> (\<forall>a. Ref a \<noteq> dst \<longrightarrow> m' a = m a)"
proof (induction m src dst at n i rule: copy_loop.induct)
  case (1 m src dst at n i)
  show ?case
  proof (cases "i < n")
    case True
    then obtain c m1 where s: "i \<noteq> 2 ^ 32" "load m src i = Inr c" "store m dst (at + i) c = Inr m1"
        "copy_loop m1 src dst at n (Suc i) = Inr m'"
      using 1(2) by (subst (asm) copy_loop.simps) (auto split: if_splits)
    have "dom m' = dom m1 \<and> (\<forall>a. Ref a \<noteq> dst \<longrightarrow> m' a = m1 a)" by (rule 1(1) [OF True s(1,4)])
    then show ?thesis using store_Inr [OF s(3)] by (auto split: if_splits)
  next
    case False
    then show ?thesis using 1(2) by (subst (asm) copy_loop.simps) simp
  qed
qed

text \<open>Blocks other than the two of the call stay as they are, also where the third is handed out.\<close>

lemma join_partial_frame:
  assumes al: "good_alloc (alloc env)" and j: "join_partial env m pe data tmp n = Inr (m', ws)"
    and a: "m a \<noteq> None" "Ref a \<noteq> data" "Ref a \<noteq> tmp"
  shows "m' a = m a"
proof -
  obtain m1 m2 m3 m4 p m5 where s: "copy_loop m (buffptr pe) tmp 0 (unat (esize pe)) 0 = Inr m1"
      "copy_loop m1 data tmp (unat (esize pe)) (unat n) 0 = Inr m2" "kfree m2 data = Inr m3"
      "kmalloc (alloc env) m3 (n + esize pe) = (m4, p)" "store m4 data 0 (low_byte env p) = Inr m5"
      "copy_loop m5 tmp data 0 (nat (sint (n + esize pe))) 0 = Inr m'"
    using j by (auto simp: join_partial_def Let_def split: prod.splits)
  have 2: "m2 a = m a" using copy_loop_frame [OF s(1)] copy_loop_frame [OF s(2)] a(3) by simp
  have 3: "m3 a = m a" using kfree_Inr [OF s(3)] a(2) 2 by (auto split: if_splits)
  have "m3 \<subseteq>\<^sub>m m4" by (rule kmalloc_fresh(1) [OF al s(4)])
  then have "m4 a = m a" using 3 a(1) unfolding map_le_def by (metis domIff)
  then show ?thesis using store_Inr [OF s(5)] copy_loop_frame [OF s(6)] a(2) by (auto split: if_splits)
qed

lemma add_entry_owned:
  assumes "aesd_circular_buffer_add_entry b e = Inr b'" and "cb_inv b"
  shows "set (entries b') \<subseteq> insert e (set (entries b))"
proof -
  obtain b'' where "aesd_circular_buffer_add_entry b e = Inr b''" "entries b'' = lastn MAXW (entries b @ [e])"
    using add_entry_log [OF assms(2), of e] by blast
  then show ?thesis using assms(1) set_lastn_subset [of MAXW "entries b @ [e]"] by auto
qed

text \<open>
  Whatever the device holds, a write that returns has left every block in use as it was, and no
  new line of the device lies in one of them.
\<close>

lemma aesd_write_frame:
  assumes al: "good_alloc (alloc env)" and inv: "cb_inv (buffer d)"
    and w: "aesd_write env m d buf = Inr (m', d', ret)"
  shows "m \<subseteq>\<^sub>m m' \<and> (\<forall>a \<in> dom m. unowned d a \<longrightarrow> unowned d' a) \<and>
    buffer_block d' = buffer_block d \<and> partial_entry_block d' = partial_entry_block d"
proof -
  let ?n = "of_nat (length buf) :: u64"
  obtain m1 e where 1: "kmalloc (alloc env) m 16 = (m1, e)" by fastforce
  obtain m2 x where 2: "kmalloc (alloc env) m1 ?n = (m2, x)" by fastforce
  obtain m3 t where 3: "kmalloc (alloc env) m2 (?n + esize (partial_entry d)) = (m3, t)" by fastforce
  note K = kmalloc_fresh [OF al 1] kmalloc_fresh [OF al 2] kmalloc_fresh [OF al 3]
  have le: "m \<subseteq>\<^sub>m m3" "m \<subseteq>\<^sub>m m2" using K(1,5,9) by (auto intro: map_le_trans)
  have fresh: "Ref a \<noteq> e" "Ref a \<noteq> x" "Ref a \<noteq> t" if "a \<in> dom m" for a
    using that K(2,6,10) map_le_None [OF K(1)] map_le_None [OF le(2)] by (metis domIff)+
  obtain m4 where c: "copy_in env m3 x buf = Inr m4"
    using w 1 2 3 by (auto simp: aesd_write_def Let_def)
  have 4: "m4 a = m a" if "a \<in> dom m" for a
  proof -
    have "m3 a = m a" using le(1) that by (metis map_le_def)
    then show ?thesis using c fresh(2) [OF that] by (auto simp: copy_in_def split: ptr.splits)
  qed
  show ?thesis
  proof (cases "mutex d")
    case True
    then have "m' = m4" "d' = d" using w 1 2 3 c by (simp_all add: aesd_write_def Let_def)
    then show ?thesis using 4 by (auto simp: map_le_def)
  next
    case False
    obtain m5 ws m6 d6 where b: "(if partial d then join_partial env m4 (partial_entry d) x t ?n else Inr (m4, ?n)) = Inr (m5, ws)"
        "finish_line m5 d e x ws = Inr (m6, d6)"
      and r: "if relocked env then m' = m6 \<and> d' = d6\<lparr>mutex := True\<rparr> else kfree m6 t = Inr m' \<and> d' = d6"
      using w 1 2 3 c False by (auto simp: aesd_write_def Let_def split: if_splits)
    have 5: "m5 a = m a" if a: "a \<in> dom m" for a
    proof (cases "partial d")
      case True
      then have "join_partial env m4 (partial_entry d) x t ?n = Inr (m5, ws)" using b(1) by simp
      then have "m5 a = m4 a" by (rule join_partial_frame [OF al]) (use 4 fresh a in auto)
      then show ?thesis using 4 [OF a] by simp
    qed (use b(1) 4 [OF a] in simp)
    have "(m6 = m5 \<or> kfree m5 e = Inr m6)" and o6: "unowned d6 a" if "unowned d a" "Ref a \<noteq> x" for a
      using b(2) that add_entry_owned [OF _ inv]
      by (fastforce simp: finish_line_def unowned_def owned_def split: if_splits)+
    moreover have bl: "buffer_block d6 = buffer_block d \<and> partial_entry_block d6 = partial_entry_block d"
      and "m6 = m5 \<or> kfree m5 e = Inr m6"
      using b(2) by (auto simp: finish_line_def split: if_splits)
    ultimately have 6: "m6 a = m a" if "a \<in> dom m" for a
      using 5 [OF that] fresh(1) [OF that] kfree_Inr [of m5 e m6] by (auto split: if_splits)
    have "m' a = m a" if "a \<in> dom m" for a
      using r 6 [OF that] fresh(3) [OF that] kfree_Inr [of m6 t m'] by (auto split: if_splits)
    then have "m \<subseteq>\<^sub>m m'" by (simp add: map_le_def)
    moreover have "unowned d' a" if "a \<in> dom m" "unowned d a" for a
      using o6 [OF that(2) fresh(2) [OF that(1)]] r by (auto split: if_splits)
    ultimately show ?thesis using bl r by (auto split: if_splits)
  qed
qed

section \<open>Properties\<close>



end
