(* ===== verification/System_Life.thy ===== *)
theory System_Life
  imports Socket_Schedule Aesd_Leaks
begin

text \<open>
  The whole system from loading the driver to unloading it: the module is loaded, the server
  starts, its threads serve clients in any order, and the module is unloaded. The driver's side
  needs that the blocks it was loaded with are untouched by whatever the server did; this is
  proved once for any relation that every call on the output file keeps (\<open>kept_relation\<close>).
\<close>

section \<open>A relation every call on the output file keeps\<close>

locale kept_relation =
  fixes ops :: "'s file_ops"
    and R :: "'s \<Rightarrow> 's \<Rightarrow> bool"
  assumes R_refl: "R s s"
    and R_trans: "R s t \<Longrightarrow> R t u \<Longrightarrow> R s u"
    and R_open: "op_open ops s = (t, n) \<Longrightarrow> R s t"
    and R_close: "R s (op_close ops s)"
    and R_write: "op_write ops s bs = Inr (t, n) \<Longrightarrow> R s t"
    and R_seekto: "op_seekto ops s k = Inr (t, n) \<Longrightarrow> R s t"
    and R_read: "op_read ops s pos len = Inr (t, pos', n, bs) \<Longrightarrow> R s t"
begin

lemma receive_loop_keeps: "receive_loop ops evs buf s leaked = Inr (t, l, r) \<Longrightarrow> R s t"
proof (induction evs arbitrary: buf s leaked)
  case Nil
  then show ?case using R_refl by simp
next
  case (Cons ev evs)
  have "\<exists>bs. received ev = Some bs \<and> malloced ev \<and> length bs < length buf"
    using Cons.prems by (auto simp: receive_loop.simps(2) Let_def split: option.splits if_splits)
  then obtain bs where bs: "received ev = Some bs" "malloced ev" "length bs < length buf" by blast
  note step = Cons.prems [unfolded receive_loop_step [OF bs]]
  obtain tok rest where tok: "strtok {colon} (cstr bs) = Some (tok, rest)" using step by (cases "strtok {colon} (cstr bs)") auto
  show ?case
  proof (cases "tok = seekto_name")
    case True
    then obtain k u n where u: "op_seekto ops s k = Inr (u, n)" "t = op_close ops u \<or> t = u"
      using step tok by (auto split: if_splits)
    have su: "R s u" by (rule R_seekto [OF u(1)])
    show ?thesis using u(2) su R_trans [OF su R_close] by auto
  next
    case False
    then obtain u n where u: "op_write ops s bs = Inr (u, n)"
        "t = op_close ops u \<or> receive_loop ops evs ((bs @ drop (length bs) buf)[length bs := 0]) u (leaked + 1) = Inr (t, l, r)"
      using step tok by (auto split: if_splits)
    have su: "R s u" by (rule R_write [OF u(1)])
    show ?thesis using u(2) R_trans [OF su R_close] R_trans [OF su Cons.IH] by blast
  qed
qed

lemma recieve_keeps: "recieve_socket_data ops evs buf s = Inr (t, l, r) \<Longrightarrow> R s t"
  using R_trans [OF R_open receive_loop_keeps] R_open
  by (fastforce simp: recieve_socket_data_def split: prod.splits if_splits)

lemma return_loop_keeps: "return_loop fuel ops sends i s pos sent = Some (Inr (t, r, out)) \<Longrightarrow> R s t"
proof (induction fuel arbitrary: i s pos sent)
  case (Suc fuel)
  obtain u p n bs where u: "op_read ops s pos (of_nat BUF_SIZE) = Inr (u, p, n, bs)"
    using Suc.prems by (auto split: sum.splits)
  have su: "R s u" by (rule R_read [OF u])
  from Suc.prems u have "t = op_close ops u \<or> (\<exists>i pos sent. return_loop fuel ops sends i u pos sent = Some (Inr (t, r, out)))"
    by (auto simp: Let_def split: if_splits)
  then show ?case using R_trans [OF su R_close] R_trans [OF su] Suc.IH by blast
qed simp

lemma return_keeps: "return_socket_data fuel ops sends s = Some (Inr (t, r, out)) \<Longrightarrow> R s t"
  using R_trans [OF R_open return_loop_keeps] R_open
  by (fastforce simp: return_socket_data_def split: prod.splits if_splits)

end

section \<open>What the server never touches\<close>

text \<open>
  From a ring in order, blocks in use stay in use with their contents, blocks the device has no
  line in stay so, and the device keeps the blocks it was loaded with.
\<close>

fun keeps_blocks :: "dev_file \<Rightarrow> dev_file \<Rightarrow> bool" where
  "keeps_blocks (env, m, d, n) (env', m', d', n') \<longleftrightarrow> env' = env \<and>
     (good_alloc (alloc env) \<and> cb_inv (buffer d) \<longrightarrow>
       cb_inv (buffer d') \<and> m \<subseteq>\<^sub>m m' \<and> (\<forall>a \<in> dom m. unowned d a \<longrightarrow> unowned d' a) \<and>
       buffer_block d' = buffer_block d \<and> partial_entry_block d' = partial_entry_block d)"

lemma keeps_blocks_write:
  assumes "aesd_write env m d bs = Inr (m', d', r)"
  shows "keeps_blocks (env, m, d, n) (env, m', d', n)"
proof -
  have "cb_inv (buffer d')" if inv: "cb_inv (buffer d)"
  proof -
    from aesd_write_buffer [OF assms] show ?thesis
    proof
      assume "\<exists>e. aesd_circular_buffer_add_entry (buffer d) e = Inr (buffer d')"
      then obtain e where e: "aesd_circular_buffer_add_entry (buffer d) e = Inr (buffer d')" ..
      obtain b where "aesd_circular_buffer_add_entry (buffer d) e = Inr b" "cb_inv b" using add_entry_log [OF inv] by blast
      then show ?thesis using e by simp
    qed (use inv in simp)
  qed
  then show ?thesis using aesd_write_frame [OF _ _ assms] by simp
qed

lemma keeps_blocks_read:
  assumes "aesd_read env m d len pos = Inr (m', d', pos', r, bs)"
  shows "keeps_blocks (env, m, d, n) (env, m', d', n)"
proof (cases "good_alloc (alloc env)")
  case True
  obtain x y where "m \<subseteq>\<^sub>m m'" "d' = d\<lparr>seek := x, mutex := y\<rparr>" using aesd_read_frame [OF True assms] by blast
  then show ?thesis by simp
qed simp

lemma keeps_blocks_seekto:
  assumes "aesd_ioctl c m d (AESDCHAR_IOCSEEKTO c) (0, k) = Inr (m', d', r)"
  shows "keeps_blocks (env, m, d, n) (env, m', d', n)"
  using assms by (auto simp: aesd_ioctl_def aesd_adjust_file_offset_def split: if_splits)

lemma keeps_blocks_trans:
  assumes "keeps_blocks s t" and "keeps_blocks t u"
  shows "keeps_blocks s u"
proof -
  obtain env m d n m1 d1 n1 m2 d2 n2 where s: "s = (env, m, d, n)" "t = (env, m1, d1, n1)" "u = (env, m2, d2, n2)"
    using assms by (cases s; cases t; cases u) auto
  have "m \<subseteq>\<^sub>m m2 \<and> (\<forall>a \<in> dom m. unowned d a \<longrightarrow> unowned d2 a)"
    if "m \<subseteq>\<^sub>m m1" "m1 \<subseteq>\<^sub>m m2" "\<forall>a \<in> dom m. unowned d a \<longrightarrow> unowned d1 a"
      "\<forall>a \<in> dom m1. unowned d1 a \<longrightarrow> unowned d2 a"
    using map_le_trans [OF that(1,2)] map_le_implies_dom_le [OF that(1)] that(3,4) by blast
  then show ?thesis using assms unfolding s by simp
qed

interpretation device_blocks: kept_relation "device_ops c" keeps_blocks for c
proof unfold_locales
  fix s t u :: dev_file
  show "keeps_blocks s s" by (cases s) simp
  assume "keeps_blocks s t" "keeps_blocks t u"
  then show "keeps_blocks s u"
    by (rule keeps_blocks_trans)
next
  fix s t :: dev_file and n bs
  assume "op_write (device_ops c) s bs = Inr (t, n)"
  then show "keeps_blocks s t" using keeps_blocks_write by (cases s) (auto simp: device_ops_def simp del: keeps_blocks.simps)
next
  fix s t :: dev_file and n k
  assume "op_seekto (device_ops c) s k = Inr (t, n)"
  then show "keeps_blocks s t" using keeps_blocks_seekto by (cases s) (auto simp: device_ops_def simp del: keeps_blocks.simps)
next
  fix s t :: dev_file and n pos len pos' bs
  assume "op_read (device_ops c) s pos len = Inr (t, pos', n, bs)"
  then show "keeps_blocks s t" using keeps_blocks_read by (cases s) (auto simp: device_ops_def simp del: keeps_blocks.simps)
qed (auto simp: device_ops_def)

lemma serve_keeps: "serve c f k = Inr ((f', out), locked, data, e) \<Longrightarrow> keeps_blocks f f'"
proof -
  assume s: "serve c f k = Inr ((f', out), locked, data, e)"
  obtain f1 l r where 1: "recieve_socket_data (device_ops c) [arrives (line k)] (stack k) f = Inr (f1, l, r)"
    using s by (auto simp: serve_def accept_connection_thread_def thread_receive_def)
  have k1: "keeps_blocks f f1" by (rule device_blocks.recieve_keeps [OF 1])
  have "f' = f1 \<or> (\<exists>r out. return_socket_data 1 (device_ops c) all_sent f1 = Some (Inr (f', r, out)))"
    using s 1 by (auto simp: serve_def accept_connection_thread_def thread_receive_def thread_reply_def
        split: option.splits if_splits prod.splits)
  then show ?thesis using k1 device_blocks.return_keeps device_blocks.R_trans [OF k1] by blast
qed

lemma schedule_keeps: "(schedule_step c)\<^sup>*\<^sup>* s t \<Longrightarrow> keeps_blocks (dev s) (dev t)"
proof (induction rule: rtranclp_induct)
  case (step t u)
  from step(2) have "keeps_blocks (dev t) (dev u)"
    by (cases rule: schedule_stepE) (auto intro: serve_keeps device_blocks.R_refl)
  then show ?case by (rule device_blocks.R_trans [OF step(3)])
qed (rule device_blocks.R_refl)

lemma own_blocks_kept:
  assumes k: "keeps_blocks (env, m, d, n) (env', m', d', n')" and "good_alloc (alloc env)" and "cb_inv (buffer d)"
    and o: "own_blocks m d"
  shows "own_blocks m' d'"
proof -
  obtain a b where ab: "buffer_block d = Ref a" "partial_entry_block d = Ref b" "a \<noteq> b" "a \<in> dom m" "b \<in> dom m"
      "unowned d a" "unowned d b"
    by (rule own_blocksE [OF o])
  have r: "m \<subseteq>\<^sub>m m'" "\<forall>a \<in> dom m. unowned d a \<longrightarrow> unowned d' a" "buffer_block d' = buffer_block d"
      "partial_entry_block d' = partial_entry_block d"
    using k assms(2,3) by simp_all
  have "a \<in> dom m'" "b \<in> dom m'" using map_le_implies_dom_le [OF r(1)] ab(4,5) by blast+
  then show ?thesis unfolding own_blocks_def r(3,4) using ab r(2) by blast
qed

text \<open>Unloading a device whose own blocks are in place does not fault.\<close>

lemma unload_ok:
  assumes ok: "writer_ok (env, m, d)" and own: "own_blocks m d"
  shows "\<exists>m' reg'. aesd_cleanup_module m d reg = Inr (m', reg') \<and> \<not> region reg' \<and> \<not> cdev_live reg'"
proof -
  let ?i = "unat (in_offs (buffer d))"
  have "?i \<le> card (dom m)" using card_freed [of m d] ok by simp
  then have "life_inv (card (dom m) - ?i) (?i, ?i) (m, d)" using ok own by (simp add: life_inv_def)
  then show ?thesis using life_inv_unload by blast
qed

section \<open>The start of the server\<close>

definition signals_set :: "startup \<Rightarrow> bool" where
  "signals_set e \<longleftrightarrow> (\<forall>n \<in> {SIGINT, SIGTERM, SIGALRM}. sigaction_result e n = 0)"

definition socket_bound :: "socket_env \<Rightarrow> bool" where
  "socket_bound e \<longleftrightarrow> getaddrinfo e = 0 \<and> socket_fd e \<noteq> - 1 \<and> setsockopt e \<noteq> - 1 \<and> bind_result e = 0"

text \<open>Every call succeeds, and a process that becomes a daemon is the child.\<close>

definition starts :: "startup \<Rightarrow> bool" where
  "starts e \<longleftrightarrow> signals_set e \<and> mutex_init e = 0 \<and> socket_bound (sockets e) \<and> (daemon e \<longrightarrow> fork_result e = 0)"

section \<open>The end of a run\<close>

lemma all_done_stops: "all_done s \<Longrightarrow> \<not> schedule_step c s t"
  by (auto simp: all_done_def elim!: schedule_stepE)

text \<open>A run that has ended, on a device that was loaded with blocks of its own.\<close>

lemma ended_run:
  assumes start: "fair_inv ks env n [] (start_schedule (env, m, d, n) ks)" and al: "good_alloc (alloc env)"
    and own: "own_blocks m d" and cb: "cb_inv (buffer d)"
    and run: "(schedule_step c)\<^sup>*\<^sup>* (start_schedule (env, m, d, n) ks) s" and stop: "\<nexists>t. schedule_step c s t"
  shows "\<exists>order m2 d2 m3 reg3. distinct order \<and> set order = {..<length ks} \<and>
    replies s = map (\<lambda>j. (order ! j, concat (map (\<lambda>i. line (fst (ks ! i))) (take (Suc j) order)))) [0..<length ks] \<and>
    dev s = (env, m2, d2, n) \<and> lines m2 d2 = map (\<lambda>i. line (fst (ks ! i))) order \<and>
    aesd_cleanup_module m2 d2 reg = Inr (m3, reg3) \<and> \<not> region reg3 \<and> \<not> cdev_live reg3"
proof -
  have f: "fair_inv ks env n [] s" by (rule service.inv_steps [OF run start])
  then have "all_done s" using progress stop by blast
  from all_done_served [OF f this] obtain order m2 d2 where o: "distinct order" "set order = {..<length ks}"
      "replies s = map (\<lambda>j. (order ! j, concat (map (\<lambda>i. line (fst (ks ! i))) (take (Suc j) order)))) [0..<length ks]"
      "dev s = (env, m2, d2, n)" "lines m2 d2 = map (\<lambda>i. line (fst (ks ! i))) order"
    by auto
  have "writer_ok (env, m2, d2)" using f o(4) by (auto simp: fair_inv_def served_inv_def simp del: writer_ok.simps)
  moreover have "keeps_blocks (env, m, d, n) (env, m2, d2, n)"
    using schedule_keeps [OF run] unfolding o(4) by (simp add: start_schedule_def)
  then have "own_blocks m2 d2" by (rule own_blocks_kept [OF _ al cb own])
  ultimately obtain m3 reg3 where "aesd_cleanup_module m2 d2 reg = Inr (m3, reg3) \<and> \<not> region reg3 \<and> \<not> cdev_live reg3"
    using unload_ok by blast
  then show ?thesis using o by blast
qed

section \<open>Properties\<close>

text \<open>
  C31. The server reaches its loop exactly when every call of the start succeeds (and, as a
  daemon, in the child), with no thread and the descriptor that was bound. Otherwise the process
  exits with -1, or with 0 in the parent of a daemon; but a failure of \<open>getaddrinfo\<close> after the
  signals and the mutex are set up uses a pointer that was never set.
\<close>

theorem startup_outcomes:
  "(main_start e = Inr (Inr r) \<longleftrightarrow> starts e \<and> r = (socket_fd (sockets e), start_server)) \<and>
    (main_start e = Inl f \<longleftrightarrow> signals_set e \<and> mutex_init e = 0 \<and> getaddrinfo (sockets e) \<noteq> 0 \<and> f = Uninitialised) \<and>
    (main_start e = Inr (Inl status) \<longrightarrow> status = - 1 \<or> status = 0 \<and> daemon e \<and> 0 < fork_result e \<and> socket_bound (sockets e))"
  by (cases "signals_set e"; cases "mutex_init e = 0"; cases "getaddrinfo (sockets e) = 0"; cases "socket_bound (sockets e)")
    (auto simp: main_start_def set_signal_handling_def signals_set_def open_socket_def socket_bound_def starts_def
      split: if_splits)

definition demo_startup :: startup where
  "demo_startup = \<lparr>sigaction_result = (\<lambda>n. 0), mutex_init = 0,
     sockets = \<lparr>getaddrinfo = 0, socket_fd = 3, setsockopt = 0, bind_result = 0\<rparr>, daemon = True, fork_result = 0\<rparr>"

theorem startup_outcomes_witness: "main_start demo_startup = Inr (Inr (3, start_server))"
proof -
  have "starts demo_startup" by (simp add: starts_def signals_set_def socket_bound_def demo_startup_def)
  moreover have "socket_fd (sockets demo_startup) = 3" by (simp add: demo_startup_def)
  ultimately show ?thesis using startup_outcomes [of demo_startup "(3, start_server)" f "0"] by simp
qed

text \<open>
  C5. The whole system: the driver is loaded, the server starts, and any clients that each send a
  line and fit into the ring are served by its threads in any order of their steps. Every run
  ends with every client served, each with the lines of all clients served up to itself and
  nothing else; the device then holds exactly the lines of the clients, and the module can be
  unloaded without a fault and without a registration left behind. The contents of the blocks that
  loading copies uninitialised are left open.
\<close>

theorem system_life:
  assumes "loadable le" and "finite (dom m)" and "0 \<le> alloc_chrdev_region le" and "cdev_add le = 0"
    and "kernel_ok env" and "\<not> relocked env" and "starts e" and "good_clients ks []"
  shows "\<exists>m1 d1 reg1 sfd. aesd_init_module le m reg = Inr (m1, Some d1, reg1, 0) \<and> region reg1 \<and> cdev_live reg1 \<and>
    main_start e = Inr (Inr (sfd, main (start_schedule (env, m1, d1, 0) ks))) \<and>
    (\<exists>s. (schedule_step c)\<^sup>*\<^sup>* (start_schedule (env, m1, d1, 0) ks) s \<and> (\<nexists>t. schedule_step c s t)) \<and>
    (\<forall>s. (schedule_step c)\<^sup>*\<^sup>* (start_schedule (env, m1, d1, 0) ks) s \<and> (\<nexists>t. schedule_step c s t) \<longrightarrow>
      (\<exists>order m2 d2 m3 reg3. distinct order \<and> set order = {..<length ks} \<and>
        replies s = map (\<lambda>j. (order ! j, concat (map (\<lambda>i. line (fst (ks ! i))) (take (Suc j) order)))) [0..<length ks] \<and>
        dev s = (env, m2, d2, 0) \<and> lines m2 d2 = map (\<lambda>i. line (fst (ks ! i))) order \<and>
        aesd_cleanup_module m2 d2 reg1 = Inr (m3, reg3) \<and> \<not> region reg3 \<and> \<not> cdev_live reg3))"
proof -
  let ?reg = "reg\<lparr>region := True, cdev_live := True\<rparr>"
  obtain m1 d1 where i: "aesd_init_module le m reg = Inr (m1, Some d1, ?reg, 0)"
      "dev_inv m1 d1" "view m1 d1 = ([], [])" "\<not> mutex d1" "\<not> partial d1" "\<not> seek d1"
    using aesd_init_module_spec [OF assms(1-3), of reg] assms(4) by auto
  have own: "own_blocks m1 d1"
    using life_inv_loaded [OF assms(1-3), of reg] i(1) by (auto simp: life_inv_def)
  have l: "lines m1 d1 = []" and cb: "cb_inv (buffer d1)" and al: "good_alloc (alloc env)"
    using i(3) dev_invD(2) [OF i(2)] assms(5) by (simp_all add: view_def kernel_ok_def)
  have ok: "file_ok (env, m1, d1, 0)" using i(2,4-6) assms(5,6) by (simp add: kernel_ok_def)
  let ?s = "start_schedule (env, m1, d1, 0) ks"
  have st: "fair_inv ks env 0 [] ?s" using service.inv_start ok l assms(8) by blast
  have "main_start e = Inr (Inr (socket_fd (sockets e), main ?s))"
    using assms(7) by (simp add: main_start_def set_signal_handling_def starts_def signals_set_def open_socket_def
        socket_bound_def start_schedule_def)
  moreover obtain s where "(schedule_step c)\<^sup>*\<^sup>* ?s s" "all_done s" using can_finish [OF st] by blast
  then have "\<exists>s. (schedule_step c)\<^sup>*\<^sup>* ?s s \<and> (\<nexists>t. schedule_step c s t)" using all_done_stops by blast
  ultimately show ?thesis
    using i(1) ended_run [OF st al own cb, where c = c and reg = ?reg]
    by (intro exI [of _ m1] exI [of _ d1] exI [of _ ?reg] exI [of _ "socket_fd (sockets e)"] conjI) auto
qed

lemma demo_no_clients_limit: "good_clients [(demo_client, True), (demo_client, True)] []"
  using demo_client_line by (auto simp: good_clients_def demo_client_def BUF_SIZE_def MAXW_eq)

theorem system_life_witness:
  "\<exists>m1 d1 reg1 s. aesd_init_module demo_load Map.empty \<lparr>region = False, cdev_live = False\<rparr> = Inr (m1, Some d1, reg1, 0) \<and>
    (schedule_step asm_generic)\<^sup>*\<^sup>* (start_schedule (demo_env, m1, d1, 0) [(demo_client, True), (demo_client, True)]) s \<and>
    length (replies s) = 2"
proof -
  have p: "finite (dom Map.empty)" "0 \<le> alloc_chrdev_region demo_load" "cdev_add demo_load = 0" "\<not> relocked demo_env"
    "starts demo_startup"
    by (simp_all add: demo_load_def starts_def signals_set_def socket_bound_def demo_startup_def)
  let ?ks = "[(demo_client, True), (demo_client, True)]"
  obtain m1 d1 reg1 s where i: "aesd_init_module demo_load Map.empty \<lparr>region = False, cdev_live = False\<rparr> = Inr (m1, Some d1, reg1, 0)"
      and s: "(schedule_step asm_generic)\<^sup>*\<^sup>* (start_schedule (demo_env, m1, d1, 0) ?ks) s" "\<nexists>t. schedule_step asm_generic s t"
      and a: "\<forall>s. (schedule_step asm_generic)\<^sup>*\<^sup>* (start_schedule (demo_env, m1, d1, 0) ?ks) s \<and> (\<nexists>t. schedule_step asm_generic s t) \<longrightarrow>
      (\<exists>order m2 d2 m3 reg3. distinct order \<and> set order = {..<length ?ks} \<and>
        replies s = map (\<lambda>j. (order ! j, concat (map (\<lambda>i. line (fst (?ks ! i))) (take (Suc j) order)))) [0..<length ?ks] \<and>
        dev s = (demo_env, m2, d2, 0) \<and> lines m2 d2 = map (\<lambda>i. line (fst (?ks ! i))) order \<and>
        aesd_cleanup_module m2 d2 reg1 = Inr (m3, reg3) \<and> \<not> region reg3 \<and> \<not> cdev_live reg3)"
    using system_life [OF demo_loadable p(1-3) demo_kernel_ok p(4,5) demo_no_clients_limit,
        of "\<lparr>region = False, cdev_live = False\<rparr>" asm_generic]
    by (elim exE conjE)
  obtain order where "replies s = map (\<lambda>j. (order ! j, concat (map (\<lambda>i. line (fst (?ks ! i))) (take (Suc j) order)))) [0..<length ?ks]"
    using a [rule_format, OF conjI, OF s] by (elim exE conjE)
  then have "length (replies s) = 2" by simp
  then show ?thesis using i s(1) by blast
qed

end
