(* ===== verification/Socket_Signals.thy ===== *)
theory Socket_Signals
  imports Socket_Main
begin

text \<open>
  Signals that arrive while the main thread is in the middle of a turn of its loop, creating a
  thread or blocked in \<open>pthread_join\<close>. The handler only sets flags, and only the end of the turn
  looks at them, so they act like signals at the \<open>accept\<close> of the turn.
\<close>

section \<open>A turn with signals at two points\<close>

definition handle_signals :: "int list \<Rightarrow> server \<Rightarrow> server" where
  "handle_signals ns s = s\<lparr>sig := foldl (\<lambda>g n. signal_handler n g) (sig s) ns\<rparr>"

text \<open>
  The turn of \<open>main_turn\<close>, where \<open>later\<close> arrive after \<open>accept\<close> has returned a connection and
  before the condition of the loop is tested.
\<close>

definition main_turn_at :: "server \<Rightarrow> accept_event \<Rightarrow> int list \<Rightarrow> main_end res" where
  "main_turn_at s ev later =
     (let s = handle_signals (arriving ev) s
      in if listen_result ev \<noteq> 0 then main_exit (- 1) s
         else if accepted ev = - 1 then
           (if errno ev = 4 then main_finish s else main_exit (- 1) s)
         else if \<not> data_malloced ev then Inl NullDeref
         else if create_result ev \<noteq> 0 then main_exit (- 1) s
         else if \<not> node_malloced ev then Inl NullDeref
         else
           let data = \<lparr>thread_complete_success = False, pfd = accepted ev\<rparr>;
               datap = Ref (node ev);
               h = (threads s)(node ev \<mapsto> \<lparr>payload = \<lparr>thread_id = new_thread ev, tdata = data\<rparr>, sle_next = Null\<rparr>)
           in bnd (SLIST_INSERT_HEAD h (head s) datap) (\<lambda>(h, hd).
                let s = s\<lparr>threads := h, head := hd, counter := counter s + 1\<rparr>
                in bnd (if 1 < counter s then
                          (case reap (threads s) (head s) (SLIST_FIRST (head s)) (joined s) of
                             None \<Rightarrow> Inl Diverges
                           | Some r \<Rightarrow> bnd r (\<lambda>(h, hd, j). Inr (s\<lparr>threads := h, head := hd, joined := j\<rparr>)))
                        else Inr s) (\<lambda>s.
                     let s = handle_signals later s
                     in if caught_a_signal (sig s) then main_finish s else Inr (Running s))))"

definition accepts_connection :: "accept_event \<Rightarrow> bool" where
  "accepts_connection ev \<longleftrightarrow> listen_result ev = 0 \<and> accepted ev \<noteq> - 1 \<and> create_result ev = 0"

lemma main_turn_at_accepts:
  assumes "accepts_connection ev" and "mallocs ev"
  shows "main_turn_at s ev later = main_turn s (ev\<lparr>arriving := arriving ev @ later\<rparr>)"
proof -
  let ?h = "(threads s)(node ev \<mapsto> \<lparr>payload = \<lparr>thread_id = new_thread ev,
    tdata = \<lparr>thread_complete_success = False, pfd = accepted ev\<rparr>\<rparr>, sle_next = Null\<rparr>)"
  have e: "listen_result ev = 0" "accepted ev \<noteq> - 1" "create_result ev = 0" "data_malloced ev" "node_malloced ev"
    using assms by (simp_all add: accepts_connection_def)
  show ?thesis
  proof (cases "SLIST_INSERT_HEAD ?h (head s) (Ref (node ev))")
    case (Inr r)
    obtain h hd where r: "r = (h, hd)" by (cases r)
    show ?thesis
    proof (cases "0 < counter s")
      case True
      show ?thesis
      proof (cases "reap h hd (SLIST_FIRST hd) (joined s)")
        case (Some q)
        then show ?thesis
          using e Inr r True by (cases s; cases q) (auto simp: main_turn_at_def main_turn_def handle_signals_def Let_def)
      qed (use e Inr r True in \<open>cases s; simp add: main_turn_at_def main_turn_def handle_signals_def Let_def\<close>)
    qed (use e Inr r in \<open>cases s; simp add: main_turn_at_def main_turn_def handle_signals_def Let_def\<close>)
  qed (use e in \<open>simp add: main_turn_at_def main_turn_def handle_signals_def Let_def\<close>)
qed

lemma main_turn_at_leaves: "\<not> accepts_connection ev \<Longrightarrow> mallocs ev \<Longrightarrow> main_turn_at s ev later = main_turn s ev"
  by (cases "listen_result ev = 0"; cases "accepted ev = - 1"; cases "create_result ev = 0")
    (simp_all add: accepts_connection_def main_turn_at_def main_turn_def handle_signals_def Let_def)

text \<open>An accepting turn of a reachable server, by the signals it has seen at its end.\<close>

lemma accepting_turn_ends:
  assumes inv: "server_inv s" and fresh: "node ev \<notin> dom (threads s)" and mal: "mallocs ev" and acc: "accepts_connection ev"
  shows "if SIGINT \<in> set (arriving ev) \<or> SIGTERM \<in> set (arriving ev)
    then \<exists>t. main_turn s ev = Inr (Exited 0 t) \<and> \<not> socket_open t \<and> head t = Null
    else \<exists>t. main_turn s ev = Inr (Running t)"
proof -
  obtain xs where xs: "slist (threads s) (head s) xs" using inv by (auto simp: server_inv_def)
  obtain h q j where m: "main_turn s ev = after_turn
      (s\<lparr>sig := turn_sigs s ev, threads := h, head := q, counter := counter s + 1, joined := j\<rparr>)" (is "_ = after_turn ?t")
    and zero: "counter s = 0 \<Longrightarrow> slist h q (node ev # xs) \<and> j = joined s" and pos: "counter s \<noteq> 0 \<Longrightarrow> q = Null"
    using turn_accepts [OF xs fresh _ _ _ mal] acc unfolding accepts_connection_def by metis
  obtain ys where ys: "slist (threads ?t) (head ?t) ys"
    using zero pos by (cases "counter s = 0") (auto intro: that [of "node ev # xs"] that [of "[]"])
  obtain u where u: "graceful_socket_shutdown ?t = Inr u" "\<not> socket_open u" "head u = Null"
    using shutdown_list [OF ys] by simp
  have nc: "\<not> caught_a_signal (sig s)" using inv by (simp add: server_inv_def)
  show ?thesis
    using u nc by (auto simp: m after_turn_def main_finish_def main_exit_def turn_sigs_caught)
qed

section \<open>Properties\<close>

text \<open>
  C30. A signal that arrives in the middle of a turn acts like one at its \<open>accept\<close>: the turn with
  signals at both points is the turn with all of them at the first, and a turn that accepts no
  connection is over before the second. So a SIGINT or SIGTERM that arrives while the main thread
  joins other threads ends the server with status 0 and the shutdown, after they are joined.
\<close>

theorem signals_during_turn:
  assumes "server_step\<^sup>*\<^sup>* start_server s" and "node ev \<notin> dom (threads s)" and "mallocs ev"
  shows "main_turn_at s ev later =
      (if accepts_connection ev then main_turn s (ev\<lparr>arriving := arriving ev @ later\<rparr>) else main_turn s ev) \<and>
    (accepts_connection ev \<longrightarrow>
      (if {SIGINT, SIGTERM} \<inter> set (arriving ev @ later) \<noteq> {}
       then \<exists>t. main_turn_at s ev later = Inr (Exited 0 t) \<and> \<not> socket_open t \<and> head t = Null
       else \<exists>t. main_turn_at s ev later = Inr (Running t)))"
proof -
  let ?ev = "ev\<lparr>arriving := arriving ev @ later\<rparr>"
  have inv: "server_inv s" by (rule server.inv_reachable [OF refl assms(1)])
  show ?thesis
  proof (cases "accepts_connection ev")
    case True
    then have acc: "accepts_connection ?ev" by (simp add: accepts_connection_def)
    have "node ?ev \<notin> dom (threads s)" "mallocs ?ev" using assms(2,3) by simp_all
    from accepting_turn_ends [OF inv this acc] show ?thesis
      unfolding main_turn_at_accepts [OF True assms(3)] using True by auto
  qed (use main_turn_at_leaves assms(3) in simp)
qed

text \<open>A SIGTERM while the first connection is being set up.\<close>

theorem signals_during_turn_witness:
  "\<exists>t. main_turn_at start_server (demo_accept 1) [SIGTERM] = Inr (Exited 0 t) \<and> \<not> socket_open t"
proof -
  have r: "server_step\<^sup>*\<^sup>* start_server start_server" by simp
  have n: "node (demo_accept 1) \<notin> dom (threads start_server)" by (simp add: start_server_def)
  have m: "mallocs (demo_accept 1)" "accepts_connection (demo_accept 1)"
    by (simp_all add: demo_accept_def accepts_connection_def)
  have "SIGTERM \<in> {SIGINT, SIGTERM} \<inter> set (arriving (demo_accept 1) @ [SIGTERM])" by simp
  then have g: "{SIGINT, SIGTERM} \<inter> set (arriving (demo_accept 1) @ [SIGTERM]) \<noteq> {}" by blast
  show ?thesis
    using mp [OF conjunct2 [OF signals_during_turn [OF r n m(1), of "[SIGTERM]"]] m(2)]
    unfolding if_P [OF g] by blast
qed

end
