(* ===== verification/Autotest.thy ===== *)
theory Autotest
  imports Main
begin

text \<open>
  The validation program \<open>examples/autotest-validate\<close> and the test of it in
  \<open>student-test/assignment1\<close>. Strings are lists of characters, None is a NULL pointer. The assertion
  macro of Unity and the reader of the configuration file are not part of the sources and are
  parameters.
\<close>

section \<open>The program\<close>

definition this_function_returns_true :: bool where
  "this_function_returns_true = True"

definition this_function_returns_false :: bool where
  "this_function_returns_false = False"

definition my_username :: "string option" where
  "my_username = Some ''acpabst''"

text \<open>What \<open>main\<close> prints, one string for each \<open>printf\<close> without its newline.\<close>

definition validate_main :: "string list" where
  "validate_main =
     [''this_function_returns_true returned '' @ (if this_function_returns_true then ''true'' else ''false''),
      ''this_function_returns_false returned '' @ (if this_function_returns_false then ''true'' else ''false'')]"

section \<open>The test\<close>

text \<open>
  \<open>TEST_ASSERT_TRUE_MESSAGE(condition, message)\<close> as \<open>assert_true\<close>; the pointer is the condition. The
  result is whether the test passes.
\<close>

definition test_validate_my_username :: "(bool \<Rightarrow> string option \<Rightarrow> bool) \<Rightarrow> string option \<Rightarrow> bool" where
  "test_validate_my_username assert_true malloc_username_from_conf_file =
     assert_true (my_username \<noteq> None) malloc_username_from_conf_file"

text \<open>
  With an assertion that passes exactly when its condition holds, the test passes for every
  configuration, also where the comparison its comment asks for would fail.
\<close>

theorem validation_test_always_passes:
  assumes "\<forall>condition message. assert_true condition message \<longleftrightarrow> condition"
  shows "test_validate_my_username assert_true conf \<and>
    validate_main = [''this_function_returns_true returned true'', ''this_function_returns_false returned false''] \<and>
    (\<exists>other. test_validate_my_username assert_true other \<and> my_username \<noteq> other)"
  using assms by (simp add: test_validate_my_username_def my_username_def validate_main_def
      this_function_returns_true_def this_function_returns_false_def exI [of _ None])

theorem validation_test_always_passes_witness:
  "test_validate_my_username (\<lambda>condition message. condition) (Some ''somebody'')"
  using validation_test_always_passes [of "\<lambda>condition message. condition" "Some ''somebody''"] by simp

end
