(* ===== verification/Spec2Isabelle.thy ===== *)
theory Spec2Isabelle
  imports Aesd_Prelude Kernel_Memory Circular_Buffer Buffer_Find Buffer_Read Aesd_Device Aesd_Read
    Aesd_Write Aesd_Ioctl Aesd_Module Aesd_Driver C_Strings Socket_Data Socket_Device Slist Socket_Main
    Socket_Server Systemcalls Threading Writer Aesd_Contract Aesd_Race Aesd_Race_Faults Queue_Memory Queue_Interface Queue_Slist
    Queue_List Queue_Stailq Queue_Tailq Queue_Circleq Socket_File Socket_Timer Socket_Schedule Flush_Test
    Aesd_Files Aesd_Readers Aesd_Race_Read Aesd_Traffic Aesd_Leaks System_Life Socket_Signals Autotest
begin

text \<open>
  The AESD assignments: a character device driver that keeps the last ten lines written to it,
  a socket server on top of it, and three small example programs. Everything is modelled from
  the C sources under \<open>src/\<close>; this theory imports all others.

  \<^bold>\<open>The program.\<close> The driver (\<open>src/aesd-char-driver\<close>) stores each line written to
  \<open>/dev/aesdchar\<close> in a ring of ten entries (\<open>aesd-circular-buffer.c\<close>); a write without a newline
  is kept as a pending line and joined with the next write. Reads copy bytes out of the ring, a
  seek request moves the position of the next read, and a flush request empties the ring
  (\<open>main.c\<close>). The server (\<open>src/server/aesdsocket.c\<close>) creates a thread for each connection; the
  thread locks a mutex, writes what it receives up to a newline to the device (or turns the text
  of a seek command into the request), reads the device back and sends it. The list of threads
  is the SLIST of \<open>server/queue.h\<close>. The examples are \<open>examples/systemcalls\<close>,
  \<open>examples/threading\<close> and \<open>finder-app/writer.c\<close>.

  \<^bold>\<open>Conventions\<close> (\<open>Aesd_Prelude\<close>, \<open>Kernel_Memory\<close>). C integers of the driver are words of their
  width (LP64). An operation that may leave the C standard returns \<open>'a res\<close>, where \<open>Inl\<close> is a
  fault: NULL or dangling pointers, bounds, a bad free, an uninitialised variable, a number out
  of range, a loop that never ends. The kernel heap is a map from addresses to blocks of bytes
  with checked loads, stores and frees. The allocator is a parameter: \<open>good_alloc\<close> states that a
  new block is fresh and has the size asked for, \<open>total_alloc\<close> that it does not fail;
  \<open>bump\<close> and \<open>arena\<close> are instances. What the kernel answers is the record \<open>kenv\<close> of
  \<open>Aesd_Device\<close>: allocation, \<open>copy_from_user\<close>, the low byte of a new address, and whether another
  thread takes the mutex as soon as it is released.

  \<^bold>\<open>The driver.\<close>
  \<^item> \<open>Circular_Buffer\<close>: the structures, \<open>aesd_circular_buffer_init\<close> and \<open>_add_entry\<close>. \<open>entries\<close> is
    the abstraction, the list of entries from the oldest on. The contract \<open>bounded_log\<close> (an
    added entry is the newest, the last ten are kept) is interpreted on the code.
  \<^item> \<open>Buffer_Find\<close>: \<open>_find_entry_offset_for_fpos\<close>. Its loop may go round for ever and is a
    \<open>partial_function\<close>; it is proved to return, and the right position, below the end of data, unless
    the sizes recorded in slots without an entry, which loading leaves uninitialised, make the sum of
    all ten wrap.
  \<^item> \<open>Buffer_Read\<close>: \<open>_read_helper\<close>, the copying of a run of entries; its bound for a partial
    copy is wrong, and the lemmas say exactly when it stays inside its blocks.
  \<^item> \<open>Aesd_Device\<close>: \<open>struct aesd_dev\<close>, open and release, the device invariant \<open>dev_inv\<close> and what the
    device holds (\<open>lines\<close>, \<open>pending\<close>, \<open>view\<close>). The invariant says nothing of the slots without a
    line; \<open>slots_sane\<close> says that they record no size of 2^60 or more. Only reads from a position
    other than 0 depend on it, and it holds by itself when ten lines are held.
  \<^item> \<open>Aesd_Read\<close>: \<open>aesd_read\<close>. One call serves the entries up to the end of the array; reading
    until nothing comes delivers everything (\<open>byte_source\<close>, interpreted on the device).
  \<^item> \<open>Aesd_Write\<close>: \<open>aesd_write\<close>, with \<open>spec_write\<close> on lines as its specification. With no pending
    line it refines the specification; with one it writes to freed memory.
  \<^item> \<open>Aesd_Ioctl\<close>: the seek, the flush, the dispatch of requests, \<open>aesd_llseek\<close>. The packing of
    request codes and \<open>generic_file_llseek_size\<close> are parameters.
  \<^item> \<open>Aesd_Module\<close>: loading and unloading. \<open>loadable\<close> asks the kernel for blocks of the right sizes and
    nothing of what is in them. \<open>Aesd_Driver\<close>: the driver as a transition system with
    the invariant and a simulation of the abstract log over all reachable states.
  \<^item> \<open>Aesd_Files\<close>: several open files of the device, each with its position. The contract
    \<open>private_callers\<close> (a call gives what its caller's private state determines) is interpreted on
    reads and \<open>llseek\<close> calls, so open files do not disturb each other; a seek request does.
  \<^item> \<open>Aesd_Contract\<close>: which results the handlers return, in whatever state the device is.
  \<^item> \<open>Aesd_Race\<close>: \<open>aesd_write\<close> cut at the points where another call can come in between, and any
    number of writers of whole lines in any order of their steps (\<open>race_step\<close>): a lock protocol
    with the accounting of every block in flight.
  \<^item> \<open>Aesd_Readers\<close>: \<open>aesd_read\<close> cut the same way (\<open>reader_step\<close>), what its work under the mutex
    finds from any position, also one past all slots, and an invariant of the readers that does not say what else runs: a
    reader works on blocks that neither the device nor a writer uses (\<open>loose\<close>), and what it has
    found is what it was told at one moment (\<open>tells\<close>, a parameter). Between the release of the mutex and the
    return there are two steps, the look at the mutex (\<open>r_leave\<close>) and the last look at \<open>total_size\<close>,
    which may find it half updated (\<open>size_seen\<close>). \<open>Aesd_Race_Read\<close> uses it for any
    number of readers and writers (\<open>crowd_step\<close>): every answer is a part of what the device held at
    one moment between the call and its return, or nothing when the size of its last look was not
    above its position, and some step is possible while a call is in flight. \<open>Aesd_Traffic\<close> adds the
    requests of \<open>aesd_ioctl\<close>, which take no mutex (\<open>traffic_step\<close>): with the history of the device kept
    as \<open>past\<close> the same holds as long as no request runs inside a piece of another call; one that
    does is the step \<open>overlap\<close>, after which anything may follow and nothing is claimed.
    \<open>Aesd_Race_Faults\<close>: orders of calls that fault, a flush inside a read among them.
  \<^item> \<open>Aesd_Leaks\<close>: the whole life of the module, any calls between loading and unloading, with the
    exact number of blocks it leaves behind.
  \<^item> \<open>Flush_Test\<close>: the program \<open>flush_test.c\<close> between the clients of the server.

  \<^bold>\<open>The server.\<close>
  \<^item> \<open>C_Strings\<close>: \<open>strtok\<close>, \<open>strchr\<close>, \<open>atoi\<close> on byte lists, and decimal printing with its round trip.
  \<^item> \<open>Socket_Data\<close>: \<open>recieve_socket_data\<close>, \<open>return_socket_data\<close> over an interface of the output file
    (\<open>file_ops\<close>); \<open>recv\<close> is a list of events and \<open>send\<close> a function.
  \<^item> \<open>Socket_Device\<close>: the driver's handlers as that file (contract \<open>line_store\<close>), with the echo of
    lines, the seek command, and a message in two pieces, which faults.
  \<^item> \<open>Slist\<close>: the SLIST macros on a heap of cells, with the list predicate \<open>slist\<close>.
  \<^item> \<open>Socket_Main\<close>: signals, \<open>open_socket\<close>, \<open>accept_connection_thread\<close>, the accept loop and the
    shutdown. One turn of the loop is \<open>main_turn\<close> on an event that holds the results of the
    system calls; \<open>server_inv\<close> holds in every reachable state.
  \<^item> \<open>Socket_Server\<close>: whole threads on the device, and clients served one after the other.
  \<^item> \<open>Socket_Schedule\<close>: the main thread and all threads of connections running at the same time, as
    the step relation \<open>schedule_step\<close>. \<open>order_inv\<close> says who waits for whom, \<open>served_inv\<close> what has been
    served, and \<open>work\<close> decreases in every step, from which every schedule serves every client.
  \<^item> \<open>Socket_Signals\<close>: signals in the middle of a turn of the accept loop.
  \<^item> \<open>System_Life\<close>: the start of the server, and the whole system from loading the driver over any
    schedule of the server's threads to unloading it. What no call of the server touches is stated
    once as a relation on the output file (\<open>kept_relation\<close>), interpreted on the driver.
  \<^item> \<open>Socket_File\<close>: messages in pieces, what faults in the middle of them on any file, and the same
    server on a regular file, as it is built without the device.
  \<^item> \<open>Socket_Timer\<close>: the process that writes time stamps, which \<open>main\<close> does not start. What the
    uninitialised array holds and whether the process's copy of the mutex is held are parameters.

  \<^bold>\<open>The lists of\<close> \<open>server/queue.h\<close>. \<open>Queue_Interface\<close> states what a list family promises: commands
  with a meaning on plain lists of addresses, and the contracts \<open>linked_list\<close> and \<open>two_way_list\<close>
  from which whole sequences of commands are right. \<open>Queue_Memory\<close> is the memory the macros with
  pointers to pointers work on. The families are \<open>Queue_Slist\<close>, \<open>Queue_List\<close>, \<open>Queue_Stailq\<close>,
  \<open>Queue_Tailq\<close> and \<open>Queue_Circleq\<close>, one definition for each macro, each with an interpretation of
  a contract on its own definitions. The circular queue is handled through a map of its memory to
  that of the tail queue (\<open>as_tailq\<close>) under which corresponding macros do the same.

  \<^bold>\<open>The examples\<close> are in \<open>Systemcalls\<close>, \<open>Threading\<close>, \<open>Writer\<close> and \<open>Autotest\<close>.

  \<^bold>\<open>Bounds and fuel.\<close> \<open>return_loop\<close> has fuel, the number of turns; one turn is enough while the
  device holds less than \<open>BUF_SIZE\<close> bytes, as the properties that use it require; on a regular file
  the number of full buffers in the file and one more is enough (\<open>regular_file_session\<close>). The other
  loops that may not end are \<open>partial_function (option)\<close> and are proved to return. Reads are
  below \<open>2 ^ 31\<close> bytes, since the code keeps the count in an \<open>int\<close>.

  \<^bold>\<open>Not modelled.\<close> Messages for debugging and the log; what requests inside a piece of another call do
  to it, beyond the orders of \<open>Aesd_Race_Faults\<close>, which show that the code is not safe there; calls
  at the same time as writes that leave a line pending, whose joining uses freed memory anyway;
  the macros of \<open>queue.h\<close> no use of which compiles
  (\<open>CIRCLEQ_REPLACE\<close>, \<open>CIRCLEQ_FOREACH_REVERSE_SAFE\<close>, the initialiser of the singly-linked
  list, and \<open>LIST_PREV\<close>, which calls a macro that is defined nowhere); scripts and build files, which are not C.
\<close>

end
